(* ===== verification/Prelude.thy ===== *)
theory Prelude
  imports Main "HOL-Library.Word"
begin

text \<open>
  Shared vocabulary of the development: the outcome of a C computation (a value, a
  process exit or undefined behaviour), sequencing of such computations, and the
  neighbour functions on lists that describe what the links of a doubly linked list
  must be.
\<close>

named_theorems run_simps \<open>evaluation of loads, stores and sequencing\<close>
named_theorems link_simps \<open>neighbours in a list after an insertion or a removal\<close>

type_synonym u8 = "8 word"
type_synonym u16 = "16 word"
type_synonym u32 = "32 word"

section \<open>Outcomes of a C computation\<close>

text \<open>
  \<open>Exit c\<close> is a call of \<open>exit (c)\<close>; \<open>Fault\<close> is behaviour the C standard leaves
  undefined (and the fuel of a pointer loop running out, which is proved not to happen).
\<close>

datatype fault = NullDeref | DanglingPtr | OutOfBounds | OutOfFuel

datatype 'a outcome = Ok 'a | Exit int | Fault fault

fun seq :: "'a outcome \<Rightarrow> ('a \<Rightarrow> 'b outcome) \<Rightarrow> 'b outcome" where
  "seq (Ok x) k = k x"
| "seq (Exit c) k = Exit c"
| "seq (Fault e) k = Fault e"

declare seq.simps [run_simps]

lemma seq_cong [fundef_cong]:
  "r = r' \<Longrightarrow> (\<And>x. r' = Ok x \<Longrightarrow> k x = k' x) \<Longrightarrow> seq r k = seq r' k'"
  by (cases r') auto

lemma seq_eq_Ok_iff: "seq r k = Ok y \<longleftrightarrow> (\<exists>x. r = Ok x \<and> k x = Ok y)"
  by (cases r) auto

text \<open>
  \<open>safe E P r\<close>: the computation does not fault; if it returns, its result satisfies \<open>P\<close>;
  if it ends the process, the exit code satisfies \<open>E\<close>.
\<close>

definition safe :: "(int \<Rightarrow> bool) \<Rightarrow> ('a \<Rightarrow> bool) \<Rightarrow> 'a outcome \<Rightarrow> bool" where
  "safe E P r = (case r of Ok x \<Rightarrow> P x | Exit c \<Rightarrow> E c | Fault e \<Rightarrow> False)"

lemma safe_simps [simp]:
  "safe E P (Ok x) = P x" "safe E P (Exit c) = E c" "\<not> safe E P (Fault e)"
  by (simp_all add: safe_def)

lemma safe_mono:
  "safe E P r \<Longrightarrow> (\<And>c. E c \<Longrightarrow> E' c) \<Longrightarrow> (\<And>x. P x \<Longrightarrow> Q x) \<Longrightarrow> safe E' Q r"
  by (cases r) auto

lemma safe_seq:
  "safe E P r \<Longrightarrow> (\<And>x. P x \<Longrightarrow> safe E Q (k x)) \<Longrightarrow> safe E Q (seq r k)"
  by (cases r) auto

lemma safe_not_Fault: "safe E P r \<Longrightarrow> r \<noteq> Fault e"
  by auto

lemma safe_OkD: "safe E P r \<Longrightarrow> r = Ok x \<Longrightarrow> P x"
  by simp

lemma safe_and: "safe E P r \<Longrightarrow> (\<And>x. r = Ok x \<Longrightarrow> Q x) \<Longrightarrow> safe E (\<lambda>x. P x \<and> Q x) r"
  by (cases r) auto

lemma safe_returns: "safe (\<lambda>_. False) P r \<Longrightarrow> \<exists>x. r = Ok x \<and> P x"
  by (cases r) auto

definition returns :: "'a outcome \<Rightarrow> bool" where
  "returns r = (\<exists>x. r = Ok x)"

lemma returns_simps [simp]: "returns (Ok x)" "\<not> returns (Exit c)" "\<not> returns (Fault e)"
  by (simp_all add: returns_def)

section \<open>Neighbours in a list\<close>

definition hd_opt :: "'a list \<Rightarrow> 'a option" where
  "hd_opt xs = (case xs of [] \<Rightarrow> None | x # ys \<Rightarrow> Some x)"

definition last_opt :: "'a list \<Rightarrow> 'a option" where
  "last_opt xs = (if xs = [] then None else Some (last xs))"

fun next_in :: "'a list \<Rightarrow> 'a \<Rightarrow> 'a option" where
  "next_in [] a = None"
| "next_in (x # xs) a = (if a = x then hd_opt xs else next_in xs a)"

fun prev_from :: "'a option \<Rightarrow> 'a list \<Rightarrow> 'a \<Rightarrow> 'a option" where
  "prev_from p [] a = None"
| "prev_from p (x # xs) a = (if a = x then p else prev_from (Some x) xs a)"

abbreviation prev_in :: "'a list \<Rightarrow> 'a \<Rightarrow> 'a option" where
  "prev_in \<equiv> prev_from None"

lemma hd_opt_simps [simp]:
  "hd_opt [] = None" "hd_opt (x # xs) = Some x"
  "hd_opt xs = None \<longleftrightarrow> xs = []"
  by (simp_all add: hd_opt_def split: list.split)

lemma hd_opt_append: "hd_opt (xs @ ys) = (if xs = [] then hd_opt ys else hd_opt xs)"
  by (cases xs) auto

lemma hd_opt_SomeD: "hd_opt xs = Some a \<Longrightarrow> \<exists>ys. xs = a # ys"
  by (cases xs) auto

lemma hd_opt_in_set: "hd_opt xs = Some a \<Longrightarrow> a \<in> set xs"
  by (cases xs) auto

lemma last_opt_simps [simp]:
  "last_opt [] = None" "last_opt (xs @ [x]) = Some x"
  "last_opt xs = None \<longleftrightarrow> xs = []"
  by (simp_all add: last_opt_def)

lemma next_in_notin [simp]: "a \<notin> set xs \<Longrightarrow> next_in xs a = None"
  by (induction xs) auto

lemma prev_from_notin [simp]: "a \<notin> set xs \<Longrightarrow> prev_from p xs a = None"
  by (induction xs arbitrary: p) auto

lemma next_in_set: "next_in xs a = Some b \<Longrightarrow> b \<in> set xs"
  by (induction xs) (auto split: if_splits dest: hd_opt_in_set)

lemma prev_from_set: "prev_from p xs a = Some b \<Longrightarrow> b \<in> set xs \<or> p = Some b"
  by (induction xs arbitrary: p) (auto split: if_splits)

lemma prev_in_set: "prev_in xs a = Some b \<Longrightarrow> b \<in> set xs"
  using prev_from_set by fastforce

lemma next_in_neq: "distinct xs \<Longrightarrow> next_in xs a \<noteq> Some a"
  by (induction xs) (auto dest: hd_opt_in_set)

lemma prev_from_neq: "distinct xs \<Longrightarrow> p \<noteq> Some a \<Longrightarrow> prev_from p xs a \<noteq> Some a"
  by (induction xs arbitrary: p) auto

text \<open>Splitting a list at an element.\<close>

lemma next_in_split [link_simps]:
  "a \<notin> set ys \<Longrightarrow> next_in (ys @ a # zs) a = hd_opt zs"
  by (induction ys) auto

lemma prev_from_split:
  "a \<notin> set ys \<Longrightarrow> prev_from p (ys @ a # zs) a = (if ys = [] then p else Some (last ys))"
  by (induction ys arbitrary: p) auto

lemma prev_in_split [link_simps]:
  "a \<notin> set ys \<Longrightarrow> prev_in (ys @ a # zs) a = last_opt ys"
  by (simp add: prev_from_split last_opt_def)

lemma next_in_append_right [link_simps]:
  "a \<notin> set ys \<Longrightarrow> next_in (ys @ zs) a = next_in zs a"
  by (induction ys) auto

lemma next_in_append_left:
  "a \<in> set ys \<Longrightarrow> distinct ys \<Longrightarrow>
     next_in (ys @ zs) a = (if a = last ys then hd_opt zs else next_in ys a)"
  by (induction ys) (auto simp: hd_opt_append split: if_splits)

lemma prev_from_append_left [link_simps]:
  "a \<in> set ys \<Longrightarrow> prev_from p (ys @ zs) a = prev_from p ys a"
  by (induction ys arbitrary: p) auto

lemma prev_from_append_right:
  "a \<notin> set ys \<Longrightarrow>
     prev_from p (ys @ zs) a = prev_from (if ys = [] then p else Some (last ys)) zs a"
  by (induction ys arbitrary: p) auto

lemma prev_from_irrelevant:
  "hd_opt zs \<noteq> Some a \<Longrightarrow> prev_from p zs a = prev_from q zs a"
  by (cases zs) auto

text \<open>Appending at the tail.\<close>

lemma next_in_snoc [link_simps]:
  assumes "distinct (xs @ [x])"
  shows "next_in (xs @ [x]) a =
    (if a = x then None else if Some a = last_opt xs then Some x else next_in xs a)"
  using assms
  by (cases "a \<in> set xs")
     (auto simp: next_in_append_left next_in_append_right last_opt_def split: if_splits)

lemma prev_in_snoc [link_simps]:
  assumes "distinct (xs @ [x])"
  shows "prev_in (xs @ [x]) a = (if a = x then last_opt xs else prev_in xs a)"
  using assms
  by (cases "a \<in> set xs")
     (auto simp: prev_from_append_left prev_from_append_right last_opt_def)

text \<open>Pushing at the front.\<close>

lemma prev_in_Cons [link_simps]:
  "prev_in (x # xs) a =
    (if a = x then None else if Some a = hd_opt xs then Some x else prev_in xs a)"
  by (cases xs) auto

text \<open>Removing an element.\<close>

lemma next_in_remove [link_simps]:
  assumes "distinct xs" and "x \<in> set xs" and "a \<noteq> x"
  shows "next_in (remove1 x xs) a =
    (if prev_in xs x = Some a then next_in xs x else next_in xs a)"
proof -
  obtain ys zs where xs: "xs = ys @ x # zs" and x: "x \<notin> set ys"
    using assms(2) by (meson split_list_first)
  have rem: "remove1 x (ys @ x # zs) = ys @ zs" using x by (simp add: remove1_append)
  show ?thesis
  proof (cases "a \<in> set ys")
    case True
    then show ?thesis using assms x
      unfolding xs rem by (auto simp: link_simps next_in_append_left last_opt_def split: if_splits)
  next
    case False
    then have "prev_in xs x \<noteq> Some a"
      using x by (auto simp: xs link_simps last_opt_def dest: last_in_set split: if_splits)
    with False assms(3) show ?thesis
      unfolding xs rem by (simp add: link_simps)
  qed
qed

lemma prev_in_remove [link_simps]:
  assumes "distinct xs" and "x \<in> set xs" and "a \<noteq> x"
  shows "prev_in (remove1 x xs) a =
    (if next_in xs x = Some a then prev_in xs x else prev_in xs a)"
proof -
  obtain ys zs where xs: "xs = ys @ x # zs" and x: "x \<notin> set ys"
    using assms(2) by (meson split_list_first)
  have rem: "remove1 x (ys @ x # zs) = ys @ zs" using x by (simp add: remove1_append)
  show ?thesis
  proof (cases "a \<in> set ys")
    case True
    then have "next_in xs x \<noteq> Some a"
      using assms x by (auto simp: xs link_simps dest: hd_opt_in_set)
    with True show ?thesis unfolding xs rem by (simp add: link_simps)
  next
    case False
    then show ?thesis using assms x
      unfolding xs rem
      by (cases zs) (auto simp: link_simps prev_from_append_right last_opt_def)
  qed
qed

lemma hd_opt_remove [link_simps]:
  "distinct xs \<Longrightarrow> x \<in> set xs \<Longrightarrow>
     hd_opt (remove1 x xs) = (if hd_opt xs = Some x then next_in xs x else hd_opt xs)"
  by (cases xs) auto

lemma last_opt_remove [link_simps]:
  assumes "distinct xs" and "x \<in> set xs"
  shows "last_opt (remove1 x xs) = (if last_opt xs = Some x then prev_in xs x else last_opt xs)"
proof -
  obtain ys zs where xs: "xs = ys @ x # zs" and x: "x \<notin> set ys"
    using assms(2) by (meson split_list_first)
  have rem: "remove1 x (ys @ x # zs) = ys @ zs" using x by (simp add: remove1_append)
  show ?thesis using assms x unfolding xs rem
    by (auto simp: link_simps last_opt_def)
qed

lemma prev_in_None_iff: "distinct xs \<Longrightarrow> x \<in> set xs \<Longrightarrow> prev_in xs x = None \<longleftrightarrow> hd_opt xs = Some x"
  by (cases xs) (auto simp: prev_in_Cons split: if_splits dest!: split_list simp: prev_from_split)

lemma next_in_None_iff: "distinct xs \<Longrightarrow> x \<in> set xs \<Longrightarrow> next_in xs x = None \<longleftrightarrow> last_opt xs = Some x"
  by (auto simp: next_in_split last_opt_def dest!: split_list split: if_splits)

end
