(* ===== verification/Byte_Order.thy ===== *)
theory Byte_Order
  imports Prelude
begin

text \<open>
  Integer conventions of the host: the 64-bit \<open>long\<close>, multi-byte loads from memory on a
  little-endian machine, the bytes an integer occupies in memory, and \<open>ntohs\<close>.
\<close>

unbundle bit_operations_syntax

section \<open>The type \<open>long\<close>\<close>

text \<open>A \<open>long\<close> is represented by its value; \<open>to_long\<close> wraps an exact result to 64 bits.\<close>

definition to_long :: "int \<Rightarrow> int" where
  "to_long x = signed_take_bit 63 x"

lemma to_long_id: "- (2 ^ 63) \<le> x \<Longrightarrow> x < 2 ^ 63 \<Longrightarrow> to_long x = x"
  unfolding to_long_def by (rule signed_take_bit_int_eq_self)

lemma to_long_bounds: "- (2 ^ 63) \<le> to_long x" "to_long x < 2 ^ 63"
  by (simp_all add: to_long_def del: power_numeral)

section \<open>Bytes of an integer in memory\<close>

definition byte :: "nat \<Rightarrow> 'a::len word \<Rightarrow> u8" where
  "byte i w = ucast (drop_bit (8 * i) w)"

definition le16 :: "u8 \<Rightarrow> u8 \<Rightarrow> u16" where
  "le16 b0 b1 = ucast b0 OR push_bit 8 (ucast b1)"

definition le32 :: "u8 \<Rightarrow> u8 \<Rightarrow> u8 \<Rightarrow> u8 \<Rightarrow> u32" where
  "le32 b0 b1 b2 b3 =
     ucast b0 OR push_bit 8 (ucast b1) OR push_bit 16 (ucast b2) OR push_bit 24 (ucast b3)"

lemma bit_byte: "bit (byte i w) n \<longleftrightarrow> n < 8 \<and> bit w (8 * i + n)"
  by (simp add: byte_def bit_simps)

lemma le16_bytes [simp]: "le16 (byte 0 w) (byte (Suc 0) w) = w"
proof (rule bit_word_eqI)
  fix n assume "n < LENGTH(16)"
  then show "bit (le16 (byte 0 w) (byte (Suc 0) w)) n = bit w n"
    by (cases "n < 8") (auto simp: le16_def bit_simps bit_byte)
qed

lemma byte_le16 [simp]: "byte 0 (le16 a b) = a" "byte (Suc 0) (le16 a b) = b"
proof -
  show "byte 0 (le16 a b) = a"
    by (rule bit_word_eqI) (auto simp: le16_def bit_simps bit_byte)
  show "byte (Suc 0) (le16 a b) = b"
    by (rule bit_word_eqI) (auto simp: le16_def bit_simps bit_byte dest: bit_imp_le_length)
qed

lemma le32_bytes [simp]: "le32 (byte 0 w) (byte (Suc 0) w) (byte 2 w) (byte 3 w) = w"
proof (rule bit_word_eqI)
  fix n assume n: "n < LENGTH(32)"
  consider "n < 8" | "8 \<le> n" "n < 16" | "16 \<le> n" "n < 24" | "24 \<le> n" by linarith
  then show "bit (le32 (byte 0 w) (byte (Suc 0) w) (byte 2 w) (byte 3 w)) n = bit w n"
    using n by cases (auto simp: le32_def bit_simps bit_byte)
qed

text \<open>The bytes of an integer, lowest address first.\<close>

definition bytes16 :: "u16 \<Rightarrow> u8 list" where
  "bytes16 w = [byte 0 w, byte 1 w]"

definition bytes32 :: "u32 \<Rightarrow> u8 list" where
  "bytes32 w = [byte 0 w, byte 1 w, byte 2 w, byte 3 w]"

lemma length_bytes [simp]: "length (bytes16 w) = 2" "length (bytes32 v) = 4"
  by (simp_all add: bytes16_def bytes32_def)

lemma bytes16_inject [simp]: "bytes16 v = bytes16 w \<longleftrightarrow> v = w"
proof
  assume "bytes16 v = bytes16 w"
  then have "le16 (byte 0 v) (byte (Suc 0) v) = le16 (byte 0 w) (byte (Suc 0) w)"
    by (simp add: bytes16_def)
  then show "v = w" by simp
qed simp

lemma bytes32_inject [simp]: "bytes32 v = bytes32 w \<longleftrightarrow> v = w"
proof
  assume "bytes32 v = bytes32 w"
  then have "le32 (byte 0 v) (byte (Suc 0) v) (byte 2 v) (byte 3 v) =
             le32 (byte 0 w) (byte (Suc 0) w) (byte 2 w) (byte 3 w)"
    by (simp add: bytes32_def)
  then show "v = w" by (simp only: le32_bytes)
qed simp

section \<open>Network byte order\<close>

definition ntohs :: "u16 \<Rightarrow> u16" where
  "ntohs w = le16 (byte 1 w) (byte 0 w)"

lemma ntohs_involution [simp]: "ntohs (ntohs w) = w"
  by (simp add: ntohs_def)

lemma ntohs_le16: "ntohs (le16 hi lo) = le16 lo hi"
  by (simp add: ntohs_def)

lemma unat_le16: "unat (le16 a b) = unat a + 256 * unat b"
proof -
  have "(ucast a :: u16) AND push_bit 8 (ucast b) = 0"
    by (rule bit_word_eqI) (auto simp: bit_simps dest: bit_imp_le_length)
  then have "le16 a b = ucast a + push_bit 8 (ucast b)"
    by (simp add: le16_def disjunctive_add_eq_or)
  moreover have "unat a < 2 ^ 8" "unat b < 2 ^ 8"
    using unsigned_less [of a] unsigned_less [of b] by simp_all
  ultimately show ?thesis
    by (simp add: push_bit_eq_mult unat_word_ariths unsigned_ucast_eq take_bit_eq_mod)
qed

end
