(* ===== verification/C_Double.thy ===== *)
theory C_Double
  imports Byte_Order Complex_Main
begin

text \<open>
  The C type \<open>double\<close> (IEEE-754 binary64) as far as the sniffer uses it.  A finite double
  is the rational number it denotes; an arithmetic operation is the exact operation
  followed by \<open>dbl\<close>, which rounds to 53 significant bits, ties to even.  The operands
  of the code are integers below \<open>2\<^sup>1\<^sup>2\<^sup>8\<close> and quotients of such integers by 32-bit
  counts, so infinities, NaN, negative zero and subnormal numbers do not arise and are not
  represented.  \<open>fmt_1f\<close> is the conversion \<open>%.1f\<close>.
\<close>

section \<open>Rounding\<close>

fun bit_count :: "nat \<Rightarrow> nat" where
  "bit_count n = (if n = 0 then 0 else Suc (bit_count (n div 2)))"

declare bit_count.simps [simp del]

lemma bit_count_bounds: "n < 2 ^ bit_count n \<and> (0 < n \<longrightarrow> 2 ^ (bit_count n - 1) \<le> n)"
proof (induction n rule: bit_count.induct)
  case (1 n)
  show ?case
  proof (cases "n = 0")
    case True
    then show ?thesis by (simp add: bit_count.simps)
  next
    case False
    define k where "k = bit_count (n div 2)"
    have bc: "bit_count n = Suc k" using False by (simp add: k_def bit_count.simps [of n])
    have IH: "n div 2 < 2 ^ k" "0 < n div 2 \<longrightarrow> 2 ^ (k - 1) \<le> n div 2"
      using "1.IH" False by (simp_all add: k_def)
    have "n < 2 ^ Suc k" using IH(1) by simp
    moreover have "2 ^ k \<le> n"
    proof (cases "n div 2 = 0")
      case True
      then show ?thesis using False by (simp add: k_def bit_count.simps)
    next
      case nz: False
      then have "k > 0" by (simp add: k_def bit_count.simps [of "n div 2"])
      then show ?thesis using IH(2) nz by (cases k) auto
    qed
    ultimately show ?thesis by (simp add: bc)
  qed
qed

lemma bit_count_le: "n \<le> 2 ^ k \<Longrightarrow> bit_count n \<le> Suc k"
proof (rule ccontr)
  assume n: "n \<le> 2 ^ k" and "\<not> bit_count n \<le> Suc k"
  then have "Suc k \<le> bit_count n - 1" and "0 < n"
    by (auto simp: bit_count.simps [of 0] intro: gr0I)
  then have "(2::nat) ^ Suc k \<le> n"
    using bit_count_bounds [of n] power_increasing [of "Suc k" "bit_count n - 1" "2::nat"] by simp
  moreover have "(0::nat) < 2 ^ k" by simp
  ultimately show False using n by simp
qed

definition round_half_even :: "rat \<Rightarrow> int" where
  "round_half_even x =
     (let f = \<lfloor>x\<rfloor>; d = x - of_int f
      in if d < 1 / 2 then f else if d > 1 / 2 then f + 1 else if even f then f else f + 1)"

lemma round_half_even_of_int [simp]: "round_half_even (of_int n) = n"
  by (simp add: round_half_even_def)

lemma round_half_even_error: "\<bar>of_int (round_half_even x) - x\<bar> \<le> 1 / 2"
proof -
  have "of_int \<lfloor>x\<rfloor> \<le> x" "x < of_int \<lfloor>x\<rfloor> + 1" by linarith+
  then show ?thesis
    unfolding round_half_even_def Let_def by (simp add: abs_le_iff)
qed

text \<open>The exponent of the unit in the last place of a nonzero rational.\<close>

definition ulp_exp :: "rat \<Rightarrow> int" where
  "ulp_exp x =
     (let (p, q) = quotient_of \<bar>x\<bar>;
          e = int (bit_count (nat p)) - int (bit_count (nat q))
      in (if \<bar>x\<bar> < 2 powi e then e - 1 else e) - 52)"

definition dbl :: "rat \<Rightarrow> rat" where
  "dbl x = (if x = 0 then 0
            else let u = 2 powi ulp_exp x in of_int (round_half_even (x / u)) * u)"

text \<open>An integer is a double exactly when it fits 53 bits.\<close>

lemma dbl_of_int:
  assumes "\<bar>n\<bar> \<le> 2 ^ 53"
  shows "dbl (of_int n) = of_int n"
proof (cases "n = 0")
  case True
  then show ?thesis by (simp add: dbl_def)
next
  case False
  define b where "b = bit_count (nat \<bar>n\<bar>)"
  have pos: "0 < nat \<bar>n\<bar>" using False by simp
  have b1: "0 < b" using pos by (simp add: b_def bit_count.simps [of "nat \<bar>n\<bar>"])
  have le: "2 ^ (b - 1) \<le> \<bar>n\<bar>"
    using bit_count_bounds [of "nat \<bar>n\<bar>"] pos
    by (simp add: b_def)
  have b54: "b \<le> 54"
    unfolding b_def using assms by (intro bit_count_le [of _ 53, simplified]) simp
  have one: "bit_count (Suc 0) = 1" by (simp add: bit_count.simps)
  have "\<not> (of_int \<bar>n\<bar> :: rat) < 2 powi (int b - 1)"
  proof -
    have "(2::rat) powi (int b - 1) = 2 ^ (b - 1)"
      using b1 by (simp add: power_int_def nat_diff_distrib')
    also have "\<dots> \<le> of_int \<bar>n\<bar>"
      using le by (metis of_int_le_iff of_int_numeral of_int_power)
    finally show ?thesis by simp
  qed
  then have e: "ulp_exp (of_int n) = int b - 53"
    by (simp add: ulp_exp_def b_def one Let_def flip: of_int_abs)
  show ?thesis
  proof (cases "b \<le> 53")
    case True
    then have u: "(2::rat) powi (int b - 53) = 1 / 2 ^ (53 - b)"
      by (simp add: power_int_def inverse_eq_divide nat_diff_distrib' split: if_splits)
         (auto simp: nat_minus_as_int power_one_over)
    have "(of_int n :: rat) / (1 / 2 ^ (53 - b)) = of_int (n * 2 ^ (53 - b))" by simp
    then show ?thesis using False
      by (simp only: dbl_def e u Let_def round_half_even_of_int) simp
  next
    case gt: False
    then have "b = 54" using b54 by simp
    then have "\<bar>n\<bar> = 2 ^ 53" using le assms by simp
    then have n: "n = 2 ^ 53 \<or> n = - (2 ^ 53)" by linarith
    have u: "(2::rat) powi (int b - 53) = 2" by (simp add: \<open>b = 54\<close>)
    have h: "(of_int n :: rat) / 2 = of_int (n div 2)" using n by auto
    have "(of_int (n div 2) :: rat) * 2 = of_int n" using n by auto
    then show ?thesis using False
      by (simp only: dbl_def e u Let_def h round_half_even_of_int) simp
  qed
qed

text \<open>Rounding is within half a unit in the last place.\<close>

lemma dbl_error: "\<bar>dbl x - x\<bar> \<le> 2 powi ulp_exp x / 2"
proof (cases "x = 0")
  case True
  then show ?thesis by (simp add: dbl_def)
next
  case False
  define u :: rat where "u = 2 powi ulp_exp x"
  have u: "0 < u" by (simp add: u_def)
  have "\<bar>of_int (round_half_even (x / u)) - x / u\<bar> \<le> 1 / 2" by (rule round_half_even_error)
  then have "\<bar>of_int (round_half_even (x / u)) - x / u\<bar> * u \<le> 1 / 2 * u"
    using u by (intro mult_right_mono) auto
  also have "\<bar>of_int (round_half_even (x / u)) - x / u\<bar> * u =
             \<bar>of_int (round_half_even (x / u)) * u - x\<bar>"
    using u by (simp add: abs_mult [symmetric, of _ u, simplified abs_of_pos [OF u]] left_diff_distrib)
  finally show ?thesis using False by (simp add: dbl_def Let_def u_def)
qed

text \<open>The unit in the last place is at most \<open>2\<^sup>-\<^sup>5\<^sup>2\<close> of the value.\<close>

lemma ulp_le:
  assumes "x \<noteq> 0"
  shows "(2::rat) powi ulp_exp x \<le> \<bar>x\<bar> / 2 ^ 52"
proof -
  obtain p q where pq: "quotient_of \<bar>x\<bar> = (p, q)" by (cases "quotient_of \<bar>x\<bar>") auto
  have q: "0 < q" and x: "\<bar>x\<bar> = of_int p / of_int q"
    using quotient_of_denom_pos [OF pq] quotient_of_div [OF pq] by auto
  have "0 < (of_int p / of_int q :: rat)" using x assms by (metis zero_less_abs_iff)
  then have p: "0 < p" using q by (simp add: zero_less_divide_iff)
  define a where "a = bit_count (nat p)"
  define b where "b = bit_count (nat q)"
  have a: "2 ^ (a - 1) \<le> p" "0 < a"
    using bit_count_bounds [of "nat p"] p by (auto simp: a_def bit_count.simps [of "nat p"] zless_nat_eq_int_zless nat_le_iff le_nat_iff)
  have b: "q < 2 ^ b" using bit_count_bounds [of "nat q"] q by (simp add: b_def nat_less_iff)
  define e where "e = int a - int b"
  have low: "(2::rat) powi (e - 1) \<le> \<bar>x\<bar>"
  proof -
    have "e - 1 = int (a - 1) - int b" using a(2) by (simp add: e_def of_nat_diff)
    moreover have "(2::rat) powi (int (a - 1) - int b) = 2 ^ (a - 1) / 2 ^ b"
      using power_int_diff [of "2::rat" "int (a - 1)" "int b"] by simp
    ultimately have "(2::rat) powi (e - 1) = 2 ^ (a - 1) / 2 ^ b" by simp
    also have "\<dots> \<le> of_int p / of_int q"
    proof (rule frac_le)
      show "(2::rat) ^ (a - 1) \<le> of_int p" using a(1) by (metis of_int_le_iff of_int_numeral of_int_power)
      show "of_int q \<le> (2::rat) ^ b" using b by (metis less_le of_int_le_iff of_int_numeral of_int_power)
    qed (use p q in auto)
    finally show ?thesis by (simp add: x)
  qed
  define k where "k = (if \<bar>x\<bar> < 2 powi e then e - 1 else e)"
  have "(2::rat) powi k \<le> \<bar>x\<bar>" using low by (simp add: k_def)
  moreover have "ulp_exp x = k - 52" by (simp add: ulp_exp_def pq k_def e_def a_def b_def Let_def)
  moreover have "(2::rat) powi (k - 52) = 2 powi k / 2 ^ 52" by (simp add: power_int_diff)
  ultimately show ?thesis by simp
qed

lemma dbl_relative_error: "\<bar>dbl x - x\<bar> \<le> \<bar>x\<bar> / 2 ^ 53"
proof (cases "x = 0")
  case False
  have "\<bar>dbl x - x\<bar> \<le> 2 powi ulp_exp x / 2" by (rule dbl_error)
  also have "\<dots> \<le> \<bar>x\<bar> / 2 ^ 52 / 2" using ulp_le [OF False] by (rule divide_right_mono) simp
  finally show ?thesis by simp
qed (simp add: dbl_def)

lemma dbl_abs_le: "\<bar>dbl x\<bar> \<le> 2 * \<bar>x\<bar>"
proof -
  have "\<bar>dbl x\<bar> \<le> \<bar>x\<bar> + \<bar>dbl x - x\<bar>" by linarith
  also have "\<dots> \<le> \<bar>x\<bar> + \<bar>x\<bar> / 2 ^ 53" using dbl_relative_error [of x] by simp
  also have "\<dots> \<le> 2 * \<bar>x\<bar>" by simp
  finally show ?thesis .
qed
section \<open>Exact integer arithmetic\<close>

text \<open>
  What a client of the rounding may rely on: integers up to the bound are representable.
  Sums and products of such integers are then exact, and consecutive differences add up.
\<close>

locale exact_rounding =
  fixes rnd :: "rat \<Rightarrow> rat" and bound :: int
  assumes exact: "\<bar>n\<bar> \<le> bound \<Longrightarrow> rnd (of_int n) = of_int n"
begin

lemma add_exact: "\<bar>x + y\<bar> \<le> bound \<Longrightarrow> rnd (of_int x + of_int y) = of_int (x + y)"
  using exact [of "x + y"] by simp

lemma mult_exact: "\<bar>x * y\<bar> \<le> bound \<Longrightarrow> rnd (of_int x * of_int y) = of_int (x * y)"
  using exact [of "x * y"] by simp

lemma telescope_step:
  "\<bar>c - a\<bar> \<le> bound \<Longrightarrow> rnd (of_int (b - a) + of_int (c - b)) = of_int (c - a)"
  using add_exact [of "b - a" "c - b"] by simp

end

interpretation double: exact_rounding dbl "2 ^ 53"
  by unfold_locales (rule dbl_of_int)

end
