(* ===== verification/Memory.thy ===== *)
theory Memory
  imports C_Double
begin

text \<open>
  The data types of stats.h, flow.h and uthash.h, and the part of the C heap the sniffer
  uses: the \<open>flow_t\<close> nodes and the \<open>UT_hash_table\<close> objects.

  Pointers are addresses or \<open>None\<close> for \<open>NULL\<close>.  A hash handle is a member of its
  element at a fixed offset, so a pointer to the handle and a pointer to the element
  determine each other (\<open>ELMT_FROM_HH\<close>, \<open>HH_FROM_ELMT\<close>); both are written as the
  address of the element.  The bucket array, which only its table points to, is a list
  inside the table.
\<close>

section \<open>stats.h\<close>

type_synonym addr = nat
type_synonym ptr = "addr option"

record timeval =
  tv_sec :: int
  tv_usec :: int

text \<open>Addresses and ports are kept in network byte order.\<close>

record flow_key_t =
  src_ip :: u32
  dst_ip :: u32
  src_port :: u16
  dst_port :: u16
  protocol :: u8

record pkt_stats_t =
  pkt_key :: flow_key_t
  payload_size :: int
  timestamp :: timeval
  tcp_flags :: u8

section \<open>flow.h and the structs of uthash.h\<close>

datatype flow_direction_t = DIR_OUTBOUND | DIR_INBOUND | DIR_LATERAL | DIR_UNKNOWN

record flow_stats =
  key :: flow_key_t
  direction :: flow_direction_t
  packet_count :: u32
  byte_count :: u32
  min_packet_size :: u16
  max_packet_size :: u16
  start_time :: timeval
  last_seen :: timeval
  total_iat_usec :: rat
  tcp_syn_count :: u32
  tcp_fin_count :: u32
  tcp_rst_count :: u32
  tcp_ack_count :: u32

record UT_hash_handle =
  tbl :: ptr
  app_prev :: ptr
  app_next :: ptr
  hh_prev :: ptr
  hh_next :: ptr
  keyptr :: ptr
  keylen :: u32
  hashv :: u32

text \<open>The struct \<open>flow_t\<close>: the members above followed by the hash handle.\<close>

record flow_t = flow_stats +
  hh :: UT_hash_handle

record UT_hash_bucket =
  hh_head :: ptr
  bkt_count :: u32
  expand_mult :: u32

record UT_hash_table =
  buckets :: "UT_hash_bucket list"
  num_buckets :: u32
  log2_num_buckets :: u32
  num_items :: u32
  tail :: ptr
  ideal_chain_maxlen :: u32
  nonideal_items :: u32
  ineff_expands :: u32
  noexpand :: u32
  signature :: u32

text \<open>
  The bytes of a key as the hash function and \<open>memcmp\<close> see them: the struct is 16 bytes
  long, the last three are padding.  The code zero-initialises every key it builds
  (\<open>pkt_stats_t stats = {0}\<close>, \<open>calloc\<close>), so the padding is zero.
\<close>

definition sizeof_flow_key_t :: nat where
  "sizeof_flow_key_t = 16"

definition key_bytes :: "flow_key_t \<Rightarrow> u8 list" where
  "key_bytes k = bytes32 (src_ip k) @ bytes32 (dst_ip k) @ bytes16 (src_port k) @
     bytes16 (dst_port k) @ [protocol k, 0, 0, 0]"

lemma length_key_bytes [simp]: "length (key_bytes k) = sizeof_flow_key_t"
  by (simp add: key_bytes_def sizeof_flow_key_t_def)

lemma key_bytes_inject [simp]: "key_bytes k = key_bytes k' \<longleftrightarrow> k = k'"
  by (cases k; cases k') (simp add: key_bytes_def)

text \<open>A key, a handle and a node filled with zero bytes.\<close>

definition zero_key :: flow_key_t where
  "zero_key = \<lparr>src_ip = 0, dst_ip = 0, src_port = 0, dst_port = 0, protocol = 0\<rparr>"

definition zero_handle :: UT_hash_handle where
  "zero_handle = \<lparr>tbl = None, app_prev = None, app_next = None, hh_prev = None, hh_next = None,
     keyptr = None, keylen = 0, hashv = 0\<rparr>"

definition zero_flow :: flow_t where
  "zero_flow = \<lparr>key = zero_key, direction = DIR_OUTBOUND, packet_count = 0, byte_count = 0,
     min_packet_size = 0, max_packet_size = 0, start_time = \<lparr>tv_sec = 0, tv_usec = 0\<rparr>,
     last_seen = \<lparr>tv_sec = 0, tv_usec = 0\<rparr>, total_iat_usec = 0, tcp_syn_count = 0,
     tcp_fin_count = 0, tcp_rst_count = 0, tcp_ack_count = 0, hh = zero_handle\<rparr>"

section \<open>The heap\<close>

text \<open>
  \<open>flows\<close> and \<open>tbls\<close> hold the allocated objects.  Every address from \<open>fresh\<close> on is
  unused and addresses are not reused, so a pointer to a freed object never looks valid
  again.  \<open>budget\<close> is the number of allocations that still succeed and \<open>max_block\<close> the
  largest request that can: an exhausted budget or a larger request makes \<open>malloc\<close> and
  \<open>calloc\<close> return \<open>NULL\<close>.
\<close>

record mem =
  flows :: "addr \<Rightarrow> flow_t option"
  tbls :: "addr \<Rightarrow> UT_hash_table option"
  fresh :: addr
  budget :: nat
  max_block :: nat

definition alloc :: "nat \<Rightarrow> mem \<Rightarrow> ptr \<times> mem" where
  "alloc sz m =
     (if budget m = 0 \<or> max_block m < sz then (None, m)
      else (Some (fresh m), m\<lparr>fresh := Suc (fresh m), budget := budget m - 1\<rparr>))"

definition load_flow :: "ptr \<Rightarrow> mem \<Rightarrow> flow_t outcome" where
  "load_flow p m =
     (case p of None \<Rightarrow> Fault NullDeref
      | Some a \<Rightarrow> (case flows m a of None \<Rightarrow> Fault DanglingPtr | Some f \<Rightarrow> Ok f))"

definition load_hh :: "ptr \<Rightarrow> mem \<Rightarrow> UT_hash_handle outcome" where
  "load_hh p m = seq (load_flow p m) (\<lambda>f. Ok (hh f))"

definition upd_flow :: "ptr \<Rightarrow> (flow_t \<Rightarrow> flow_t) \<Rightarrow> mem \<Rightarrow> mem outcome" where
  "upd_flow p g m =
     (case p of None \<Rightarrow> Fault NullDeref
      | Some a \<Rightarrow> (case flows m a of None \<Rightarrow> Fault DanglingPtr
                   | Some f \<Rightarrow> Ok (m\<lparr>flows := (flows m)(a \<mapsto> g f)\<rparr>)))"

definition upd_hh :: "ptr \<Rightarrow> (UT_hash_handle \<Rightarrow> UT_hash_handle) \<Rightarrow> mem \<Rightarrow> mem outcome" where
  "upd_hh p g m = upd_flow p (\<lambda>f. f\<lparr>hh := g (hh f)\<rparr>) m"

definition load_tbl :: "ptr \<Rightarrow> mem \<Rightarrow> UT_hash_table outcome" where
  "load_tbl p m =
     (case p of None \<Rightarrow> Fault NullDeref
      | Some t \<Rightarrow> (case tbls m t of None \<Rightarrow> Fault DanglingPtr | Some T \<Rightarrow> Ok T))"

definition upd_tbl :: "ptr \<Rightarrow> (UT_hash_table \<Rightarrow> UT_hash_table) \<Rightarrow> mem \<Rightarrow> mem outcome" where
  "upd_tbl p g m =
     (case p of None \<Rightarrow> Fault NullDeref
      | Some t \<Rightarrow> (case tbls m t of None \<Rightarrow> Fault DanglingPtr
                   | Some T \<Rightarrow> Ok (m\<lparr>tbls := (tbls m)(t \<mapsto> g T)\<rparr>)))"

definition free_flow :: "ptr \<Rightarrow> mem \<Rightarrow> mem outcome" where
  "free_flow p m =
     (case p of None \<Rightarrow> Ok m
      | Some a \<Rightarrow> (case flows m a of None \<Rightarrow> Fault DanglingPtr
                   | Some f \<Rightarrow> Ok (m\<lparr>flows := (flows m)(a := None)\<rparr>)))"

definition free_tbl :: "ptr \<Rightarrow> mem \<Rightarrow> mem outcome" where
  "free_tbl p m =
     (case p of None \<Rightarrow> Ok m
      | Some t \<Rightarrow> (case tbls m t of None \<Rightarrow> Fault DanglingPtr
                   | Some T \<Rightarrow> Ok (m\<lparr>tbls := (tbls m)(t := None)\<rparr>)))"

definition load_bucket :: "nat \<Rightarrow> UT_hash_bucket list \<Rightarrow> UT_hash_bucket outcome" where
  "load_bucket i bs = (if i < length bs then Ok (bs ! i) else Fault OutOfBounds)"

definition upd_bucket ::
  "nat \<Rightarrow> (UT_hash_bucket \<Rightarrow> UT_hash_bucket) \<Rightarrow> UT_hash_bucket list \<Rightarrow> UT_hash_bucket list outcome" where
  "upd_bucket i g bs = (if i < length bs then Ok (bs[i := g (bs ! i)]) else Fault OutOfBounds)"

section \<open>Reading and writing allocated objects\<close>

text \<open>Total readers and writers, equal to the operations above on allocated objects.\<close>

abbreviation flow_at :: "mem \<Rightarrow> addr \<Rightarrow> flow_t" where
  "flow_at m a \<equiv> the (flows m a)"

abbreviation hh_at :: "mem \<Rightarrow> addr \<Rightarrow> UT_hash_handle" where
  "hh_at m a \<equiv> hh (flow_at m a)"

abbreviation key_at :: "mem \<Rightarrow> addr \<Rightarrow> flow_key_t" where
  "key_at m a \<equiv> key (flow_at m a)"

abbreviation tbl_at :: "mem \<Rightarrow> addr \<Rightarrow> UT_hash_table" where
  "tbl_at m t \<equiv> the (tbls m t)"

definition valid :: "mem \<Rightarrow> addr \<Rightarrow> bool" where
  "valid m a \<longleftrightarrow> flows m a \<noteq> None"

definition tvalid :: "mem \<Rightarrow> addr \<Rightarrow> bool" where
  "tvalid m t \<longleftrightarrow> tbls m t \<noteq> None"

definition set_flow :: "addr \<Rightarrow> (flow_t \<Rightarrow> flow_t) \<Rightarrow> mem \<Rightarrow> mem" where
  "set_flow a g m = m\<lparr>flows := (flows m)(a \<mapsto> g (flow_at m a))\<rparr>"

definition set_hh :: "addr \<Rightarrow> (UT_hash_handle \<Rightarrow> UT_hash_handle) \<Rightarrow> mem \<Rightarrow> mem" where
  "set_hh a g m = set_flow a (\<lambda>f. f\<lparr>hh := g (hh f)\<rparr>) m"

definition set_tbl :: "addr \<Rightarrow> (UT_hash_table \<Rightarrow> UT_hash_table) \<Rightarrow> mem \<Rightarrow> mem" where
  "set_tbl t g m = m\<lparr>tbls := (tbls m)(t \<mapsto> g (tbl_at m t))\<rparr>"

lemma load_flow_valid [run_simps]: "valid m a \<Longrightarrow> load_flow (Some a) m = Ok (flow_at m a)"
  by (auto simp: valid_def load_flow_def)

lemma load_hh_valid [run_simps]: "valid m a \<Longrightarrow> load_hh (Some a) m = Ok (hh_at m a)"
  by (auto simp: valid_def load_hh_def load_flow_def)

lemma upd_flow_valid [run_simps]: "valid m a \<Longrightarrow> upd_flow (Some a) g m = Ok (set_flow a g m)"
  by (auto simp: valid_def upd_flow_def set_flow_def)

lemma upd_hh_valid [run_simps]: "valid m a \<Longrightarrow> upd_hh (Some a) g m = Ok (set_hh a g m)"
  by (auto simp: valid_def upd_hh_def upd_flow_def set_hh_def set_flow_def)

lemma load_tbl_valid [run_simps]: "tvalid m t \<Longrightarrow> load_tbl (Some t) m = Ok (tbl_at m t)"
  by (auto simp: tvalid_def load_tbl_def)

lemma upd_tbl_valid [run_simps]: "tvalid m t \<Longrightarrow> upd_tbl (Some t) g m = Ok (set_tbl t g m)"
  by (auto simp: tvalid_def upd_tbl_def set_tbl_def)

lemma load_bucket_valid [run_simps]: "i < length bs \<Longrightarrow> load_bucket i bs = Ok (bs ! i)"
  by (simp add: load_bucket_def)

lemma upd_bucket_valid [run_simps]: "i < length bs \<Longrightarrow> upd_bucket i g bs = Ok (bs[i := g (bs ! i)])"
  by (simp add: upd_bucket_def)

lemma set_flow_simps [simp]:
  "tbls (set_flow a g m) = tbls m" "fresh (set_flow a g m) = fresh m"
  "budget (set_flow a g m) = budget m" "max_block (set_flow a g m) = max_block m"
  "flows (set_flow a g m) a = Some (g (flow_at m a))"
  "b \<noteq> a \<Longrightarrow> flows (set_flow a g m) b = flows m b"
  by (simp_all add: set_flow_def)

lemma set_hh_simps [simp]:
  "tbls (set_hh a g m) = tbls m" "fresh (set_hh a g m) = fresh m"
  "budget (set_hh a g m) = budget m" "max_block (set_hh a g m) = max_block m"
  "b \<noteq> a \<Longrightarrow> flows (set_hh a g m) b = flows m b"
  by (simp_all add: set_hh_def)

lemma set_tbl_simps [simp]:
  "flows (set_tbl t g m) = flows m" "fresh (set_tbl t g m) = fresh m"
  "budget (set_tbl t g m) = budget m" "max_block (set_tbl t g m) = max_block m"
  "tbls (set_tbl t g m) t = Some (g (tbl_at m t))"
  "s \<noteq> t \<Longrightarrow> tbls (set_tbl t g m) s = tbls m s"
  by (simp_all add: set_tbl_def)

lemma hh_at_set_hh: "hh_at (set_hh a g m) b = (if b = a then g (hh_at m a) else hh_at m b)"
  by (simp add: set_hh_def set_flow_def)

lemma valid_set_flow: "valid (set_flow a g m) b \<longleftrightarrow> b = a \<or> valid m b"
  by (simp add: valid_def set_flow_def)

lemma valid_set_hh: "valid (set_hh a g m) b \<longleftrightarrow> b = a \<or> valid m b"
  by (simp add: set_hh_def valid_set_flow)

lemma tvalid_set_tbl: "tvalid (set_tbl t g m) s \<longleftrightarrow> s = t \<or> tvalid m s"
  by (simp add: tvalid_def set_tbl_def)

lemma valid_set_other [simp]:
  "valid (set_tbl t g m) = valid m" "tvalid (set_flow a f m) = tvalid m"
  "tvalid (set_hh a h m) = tvalid m"
  by (simp_all add: fun_eq_iff valid_def tvalid_def)

lemma tbl_at_set_tbl: "tbl_at (set_tbl t g m) s = (if s = t then g (tbl_at m t) else tbl_at m s)"
  by (simp add: set_tbl_def)

lemma key_at_set_hh [simp]: "key_at (set_hh a g m) b = key_at m b"
  by (simp add: set_hh_def set_flow_def)

lemma set_hh_set_hh [simp]: "set_hh a g (set_hh a f m) = set_hh a (\<lambda>h. g (f h)) m"
  by (simp add: set_hh_def set_flow_def)

text \<open>Writes to different objects commute; writing what is there changes nothing.\<close>

lemma set_tbl_set_hh: "set_tbl t f (set_hh a g m) = set_hh a g (set_tbl t f m)"
  by (simp add: set_tbl_def set_hh_def set_flow_def)

lemma set_hh_commute: "a \<noteq> b \<Longrightarrow> set_hh a f (set_hh b g m) = set_hh b g (set_hh a f m)"
  by (simp add: set_hh_def set_flow_def fun_upd_twist)

lemma set_hh_id:
  assumes "valid m a" "f (hh_at m a) = hh_at m a"
  shows "set_hh a f m = m"
proof -
  obtain n where n: "flows m a = Some n" using assms by (auto simp: valid_def)
  then have "hh_update (\<lambda>_. f (hh n)) n = n" using assms by (cases n) simp
  then show ?thesis using n by (cases m) (auto simp: set_hh_def set_flow_def)
qed

lemma set_tbl_id:
  assumes "tvalid m t" "f (tbl_at m t) = tbl_at m t"
  shows "set_tbl t f m = m"
  using assms by (cases m) (auto simp: set_tbl_def tvalid_def)

text \<open>The members of a node other than its hash handle.\<close>

definition stats_of :: "flow_t \<Rightarrow> flow_stats" where
  "stats_of f = flow_stats.truncate f"

lemma stats_of_hh_update [simp]: "stats_of (hh_update g f) = stats_of f"
  by (simp add: stats_of_def flow_stats.truncate_def)

lemma key_stats_of [simp]: "key (stats_of f) = key f"
  by (simp add: stats_of_def flow_stats.truncate_def)

lemma stats_at_set_hh [simp]: "stats_of (flow_at (set_hh a g m) b) = stats_of (flow_at m b)"
  by (simp add: set_hh_def set_flow_def)

lemmas set_rules = hh_at_set_hh valid_set_flow valid_set_hh tvalid_set_tbl tbl_at_set_tbl

end
