(* ===== verification/Uthash_Hash.thy ===== *)
theory Uthash_Hash
  imports Memory
begin

text \<open>
  The hash function of the flow table: \<open>HASH_JEN\<close> (uthash.h), which \<open>HASH_VALUE\<close>
  expands to because the sniffer does not define \<open>HASH_FUNCTION\<close>.  A key is the list of
  its \<open>keylen\<close> bytes, in memory order.
\<close>

definition HASH_JEN_MIX :: "u32 \<Rightarrow> u32 \<Rightarrow> u32 \<Rightarrow> u32 \<times> u32 \<times> u32" where
  "HASH_JEN_MIX a b c =
     (let a = a - b; a = a - c; a = a XOR drop_bit 13 c;
          b = b - c; b = b - a; b = b XOR push_bit 8 a;
          c = c - a; c = c - b; c = c XOR drop_bit 13 b;
          a = a - b; a = a - c; a = a XOR drop_bit 12 c;
          b = b - c; b = b - a; b = b XOR push_bit 16 a;
          c = c - a; c = c - b; c = c XOR drop_bit 5 b;
          a = a - b; a = a - c; a = a XOR drop_bit 3 c;
          b = b - c; b = b - a; b = b XOR push_bit 10 a;
          c = c - a; c = c - b; c = c XOR drop_bit 15 b
      in (a, b, c))"

text \<open>The expression \<open>k[0] + ((unsigned) k[1] << 8) + ((unsigned) k[2] << 16) + ((unsigned) k[3] << 24)\<close>.\<close>

definition jen_word :: "u8 \<Rightarrow> u8 \<Rightarrow> u8 \<Rightarrow> u8 \<Rightarrow> u32" where
  "jen_word k0 k1 k2 k3 =
     ucast k0 + push_bit 8 (ucast k1) + push_bit 16 (ucast k2) + push_bit 24 (ucast k3)"

text \<open>The \<open>while (_hj_k >= 12U)\<close> loop: the rest of the key and the three accumulators.\<close>

fun HASH_JEN_loop :: "u8 list \<Rightarrow> u32 \<times> u32 \<times> u32 \<Rightarrow> u8 list \<times> u32 \<times> u32 \<times> u32" where
  "HASH_JEN_loop (k0 # k1 # k2 # k3 # k4 # k5 # k6 # k7 # k8 # k9 # k10 # k11 # ks) (i, j, h) =
     HASH_JEN_loop ks
       (HASH_JEN_MIX (i + jen_word k0 k1 k2 k3) (j + jen_word k4 k5 k6 k7)
          (h + jen_word k8 k9 k10 k11))"
| "HASH_JEN_loop ks (i, j, h) = (ks, i, j, h)"

text \<open>The \<open>switch\<close>: entering at \<open>case r\<close> falls through every smaller case.\<close>

definition jen_case :: "u8 list \<Rightarrow> nat \<Rightarrow> nat \<Rightarrow> u32 \<Rightarrow> u32" where
  "jen_case ks n s x = (if n \<le> length ks then x + push_bit s (ucast (ks ! (n - 1))) else x)"

definition HASH_JEN_tail :: "u8 list \<Rightarrow> u32 \<times> u32 \<times> u32 \<Rightarrow> u32 \<times> u32 \<times> u32" where
  "HASH_JEN_tail ks s =
     (case s of (i, j, h) \<Rightarrow>
       let h = jen_case ks 11 24 h; h = jen_case ks 10 16 h; h = jen_case ks 9 8 h;
           j = jen_case ks 8 24 j; j = jen_case ks 7 16 j; j = jen_case ks 6 8 j;
           j = jen_case ks 5 0 j;
           i = jen_case ks 4 24 i; i = jen_case ks 3 16 i; i = jen_case ks 2 8 i;
           i = jen_case ks 1 0 i
       in (i, j, h))"

definition HASH_JEN :: "u8 list \<Rightarrow> u32" where
  "HASH_JEN k =
     (case HASH_JEN_loop k (0x9e3779b9, 0x9e3779b9, 0xfeedbeef) of
       (ks, i, j, h) \<Rightarrow>
         (case HASH_JEN_tail ks (i, j, h + of_nat (length k)) of
           (i, j, h) \<Rightarrow> snd (snd (HASH_JEN_MIX i j h))))"

abbreviation HASH_VALUE :: "u8 list \<Rightarrow> u32" where
  "HASH_VALUE \<equiv> HASH_JEN"

text \<open>\<open>hash_key\<close>: the hash of a flow key.\<close>

definition hash_key :: "flow_key_t \<Rightarrow> u32" where
  "hash_key k = HASH_VALUE (key_bytes k)"

section \<open>The hash of a flow key in terms of its fields\<close>

lemma jen_word_le32: "jen_word a b c d = le32 a b c d"
proof -
  have 1: "(ucast a + push_bit 8 (ucast b) :: u32) = ucast a OR push_bit 8 (ucast b)"
    by (rule disjunctive_add_eq_or, rule bit_word_eqI) (auto simp: bit_simps dest: bit_imp_le_length)
  have 2: "((ucast a OR push_bit 8 (ucast b)) + push_bit 16 (ucast c) :: u32) =
     (ucast a OR push_bit 8 (ucast b)) OR push_bit 16 (ucast c)"
    by (rule disjunctive_add_eq_or, rule bit_word_eqI) (auto simp: bit_simps dest: bit_imp_le_length)
  have 3: "((ucast a OR push_bit 8 (ucast b) OR push_bit 16 (ucast c)) + push_bit 24 (ucast d) :: u32) =
     (ucast a OR push_bit 8 (ucast b) OR push_bit 16 (ucast c)) OR push_bit 24 (ucast d)"
    by (rule disjunctive_add_eq_or, rule bit_word_eqI) (auto simp: bit_simps dest: bit_imp_le_length)
  show ?thesis unfolding jen_word_def le32_def 1 2 by (simp add: 3 or.assoc)
qed

text \<open>The two ports as the 32-bit integer their four bytes make.\<close>

definition ports_word :: "u16 \<Rightarrow> u16 \<Rightarrow> u32" where
  "ports_word s d = ucast s OR push_bit 16 (ucast d)"

lemma le32_ports: "le32 (byte 0 s) (byte (Suc 0) s) (byte 0 d) (byte (Suc 0) d) = ports_word s d"
proof (rule bit_word_eqI)
  fix n assume n: "n < LENGTH(32)"
  consider "n < 8" | "8 \<le> n" "n < 16" | "16 \<le> n" "n < 24" | "24 \<le> n" by linarith
  then show "bit (le32 (byte 0 s) (byte (Suc 0) s) (byte 0 d) (byte (Suc 0) d)) n =
             bit (ports_word s d) n"
    using n by cases (auto simp: le32_def ports_word_def bit_simps bit_byte dest: bit_imp_le_length)
qed

text \<open>
  On the 16 bytes of a flow key \<open>HASH_JEN\<close> reads the two addresses and the two ports as
  three words, mixes them once, and mixes the protocol and the length in: the padding of the
  struct and the byte order of its memory do not matter beyond that.
\<close>

theorem HASH_JEN_of_flow_key:
  "hash_key k =
     (case HASH_JEN_MIX (0x9e3779b9 + src_ip k) (0x9e3779b9 + dst_ip k)
             (0xfeedbeef + ports_word (src_port k) (dst_port k)) of
       (i, j, h) \<Rightarrow> snd (snd (HASH_JEN_MIX (i + ucast (protocol k)) j (h + 16))))"
  by (simp add: hash_key_def HASH_JEN_def key_bytes_def bytes32_def bytes16_def jen_word_le32
      le32_ports HASH_JEN_tail_def jen_case_def split: prod.split)

end
