(* ===== verification/Uthash.thy ===== *)
theory Uthash
  imports Uthash_Hash
begin

text \<open>
  The operations of uthash.h the sniffer expands, on the heap of theory Memory, pointer
  write by pointer write and in the order of the macros.  A macro that assigns its \<open>head\<close>
  argument returns the new head.  \<open>HASH_BLOOM\<close>, \<open>HASH_DEBUG\<close>, \<open>HASH_EMIT_KEYS\<close> and
  \<open>HASH_NONFATAL_OOM\<close> are not defined in this build: running out of memory is
  \<open>exit (-1)\<close>.  A walk along a bucket chain or along the list takes at most \<open>fresh m\<close>
  steps, the number of addresses ever handed out; the walk is proved not to need more.
\<close>

definition HASH_INITIAL_NUM_BUCKETS :: u32 where "HASH_INITIAL_NUM_BUCKETS = 32"
definition HASH_INITIAL_NUM_BUCKETS_LOG2 :: u32 where "HASH_INITIAL_NUM_BUCKETS_LOG2 = 5"
definition HASH_BKT_CAPACITY_THRESH :: u32 where "HASH_BKT_CAPACITY_THRESH = 10"
definition HASH_SIGNATURE :: u32 where "HASH_SIGNATURE = 0xa0111fe1"

text \<open>Object sizes on the 64-bit target, as requested from the allocator.\<close>

definition sizeof_UT_hash_table :: nat where "sizeof_UT_hash_table = 64"
definition sizeof_UT_hash_bucket :: nat where "sizeof_UT_hash_bucket = 16"

definition HASH_TO_BKT :: "u32 \<Rightarrow> u32 \<Rightarrow> u32" where
  "HASH_TO_BKT h num_bkts = h AND (num_bkts - 1)"

text \<open>Objects filled with zero bytes.\<close>

definition zero_bucket :: UT_hash_bucket where
  "zero_bucket = \<lparr>hh_head = None, bkt_count = 0, expand_mult = 0\<rparr>"

definition zero_table :: UT_hash_table where
  "zero_table = \<lparr>buckets = [], num_buckets = 0, log2_num_buckets = 0, num_items = 0, tail = None,
     ideal_chain_maxlen = 0, nonideal_items = 0, ineff_expands = 0, noexpand = 0, signature = 0\<rparr>"

definition load_tbl_of :: "ptr \<Rightarrow> mem \<Rightarrow> UT_hash_table outcome" where
  "load_tbl_of head m = seq (load_hh head m) (\<lambda>h. load_tbl (tbl h) m)"

definition upd_tbl_of :: "ptr \<Rightarrow> (UT_hash_table \<Rightarrow> UT_hash_table) \<Rightarrow> mem \<Rightarrow> mem outcome" where
  "upd_tbl_of head g m = seq (load_hh head m) (\<lambda>h. upd_tbl (tbl h) g m)"

definition load_bucket_of :: "ptr \<Rightarrow> nat \<Rightarrow> mem \<Rightarrow> UT_hash_bucket outcome" where
  "load_bucket_of t i m = seq (load_tbl t m) (\<lambda>T. load_bucket i (buckets T))"

definition upd_bucket_of ::
  "ptr \<Rightarrow> nat \<Rightarrow> (UT_hash_bucket \<Rightarrow> UT_hash_bucket) \<Rightarrow> mem \<Rightarrow> mem outcome" where
  "upd_bucket_of t i g m =
     seq (load_tbl t m) (\<lambda>T. seq (upd_bucket i g (buckets T)) (\<lambda>bs.
       upd_tbl t (\<lambda>T. T\<lparr>buckets := bs\<rparr>) m))"

section \<open>Lookup\<close>

fun HASH_FIND_IN_BKT :: "nat \<Rightarrow> ptr \<Rightarrow> u8 list \<Rightarrow> u32 \<Rightarrow> u32 \<Rightarrow> mem \<Rightarrow> ptr outcome" where
  "HASH_FIND_IN_BKT n None kb keylen_in hashval m = Ok None"
| "HASH_FIND_IN_BKT 0 (Some a) kb keylen_in hashval m = Fault OutOfFuel"
| "HASH_FIND_IN_BKT (Suc n) (Some a) kb keylen_in hashval m =
     seq (load_hh (Some a) m) (\<lambda>h.
     seq (if hashv h = hashval \<and> keylen h = keylen_in
          then seq (load_flow (keyptr h) m) (\<lambda>f. Ok (take (length kb) (key_bytes (key f)) = kb))
          else Ok False) (\<lambda>found.
     if found then Ok (Some a)
     else HASH_FIND_IN_BKT n (hh_next h) kb keylen_in hashval m))"

definition HASH_FIND_BYHASHVALUE :: "ptr \<Rightarrow> u8 list \<Rightarrow> u32 \<Rightarrow> mem \<Rightarrow> ptr outcome" where
  "HASH_FIND_BYHASHVALUE head kb hashval m =
     (case head of None \<Rightarrow> Ok None
      | Some _ \<Rightarrow>
          seq (load_hh head m) (\<lambda>h.
          seq (load_tbl (tbl h) m) (\<lambda>T.
          let bkt = HASH_TO_BKT hashval (num_buckets T) in
          seq (load_bucket (unat bkt) (buckets T)) (\<lambda>b.
          HASH_FIND_IN_BKT (fresh m) (hh_head b) kb (of_nat (length kb)) hashval m))))"

definition HASH_FIND :: "ptr \<Rightarrow> u8 list \<Rightarrow> mem \<Rightarrow> ptr outcome" where
  "HASH_FIND head kb m =
     (case head of None \<Rightarrow> Ok None
      | Some _ \<Rightarrow> HASH_FIND_BYHASHVALUE head kb (HASH_VALUE kb) m)"

section \<open>Insertion\<close>

definition HASH_MAKE_TABLE :: "ptr \<Rightarrow> mem \<Rightarrow> mem outcome" where
  "HASH_MAKE_TABLE head m =
     (let (p, m) = alloc sizeof_UT_hash_table m in
      seq (upd_hh head (\<lambda>h. h\<lparr>tbl := p\<rparr>) m) (\<lambda>m.
      case p of None \<Rightarrow> Exit (-1)
      | Some t \<Rightarrow>
          let m = m\<lparr>tbls := (tbls m)(t \<mapsto> zero_table)\<rparr> in
          seq (upd_tbl_of head (\<lambda>T. T\<lparr>tail := head, num_buckets := HASH_INITIAL_NUM_BUCKETS,
                 log2_num_buckets := HASH_INITIAL_NUM_BUCKETS_LOG2\<rparr>) m) (\<lambda>m.
          let (q, m) = alloc (unat HASH_INITIAL_NUM_BUCKETS * sizeof_UT_hash_bucket) m in
          seq (upd_tbl_of head (\<lambda>T. T\<lparr>signature := HASH_SIGNATURE\<rparr>) m) (\<lambda>m.
          case q of None \<Rightarrow> Exit (-1)
          | Some _ \<Rightarrow>
              upd_tbl_of head (\<lambda>T. T\<lparr>buckets := replicate (unat HASH_INITIAL_NUM_BUCKETS) zero_bucket\<rparr>) m))))"

definition HASH_APPEND_LIST :: "ptr \<Rightarrow> ptr \<Rightarrow> mem \<Rightarrow> mem outcome" where
  "HASH_APPEND_LIST head add m =
     seq (upd_hh add (\<lambda>h. h\<lparr>app_next := None\<rparr>) m) (\<lambda>m.
     seq (load_tbl_of head m) (\<lambda>T.
     seq (upd_hh add (\<lambda>h. h\<lparr>app_prev := tail T\<rparr>) m) (\<lambda>m.
     seq (load_tbl_of head m) (\<lambda>T.
     seq (upd_hh (tail T) (\<lambda>h. h\<lparr>app_next := add\<rparr>) m) (\<lambda>m.
     upd_tbl_of head (\<lambda>T. T\<lparr>tail := add\<rparr>) m)))))"

text \<open>
  Bucket expansion.  The state of the two loops: the heap, the new bucket array and
  \<open>nonideal_items\<close>.
\<close>

type_synonym expand_state = "mem \<times> UT_hash_bucket list \<times> u32"

definition expand_push :: "u32 \<Rightarrow> u32 \<Rightarrow> addr \<Rightarrow> UT_hash_handle \<Rightarrow> expand_state \<Rightarrow> expand_state outcome" where
  "expand_push new_num ideal a h s =
     (case s of (m, nbs, nonideal) \<Rightarrow>
        let bkt = unat (HASH_TO_BKT (hashv h) new_num) in
        seq (load_bucket bkt nbs) (\<lambda>b.
        let b = b\<lparr>bkt_count := bkt_count b + 1\<rparr>;
            over = bkt_count b > ideal;
            nonideal = (if over then nonideal + 1 else nonideal);
            b = (if over \<and> bkt_count b > expand_mult b * ideal
                 then b\<lparr>expand_mult := expand_mult b + 1\<rparr> else b) in
        seq (upd_hh (Some a) (\<lambda>h. h\<lparr>hh_prev := None\<rparr>) m) (\<lambda>m.
        seq (upd_hh (Some a) (\<lambda>h. h\<lparr>hh_next := hh_head b\<rparr>) m) (\<lambda>m.
        seq (if hh_head b \<noteq> None then upd_hh (hh_head b) (\<lambda>h. h\<lparr>hh_prev := Some a\<rparr>) m else Ok m) (\<lambda>m.
        seq (upd_bucket bkt (\<lambda>_. b\<lparr>hh_head := Some a\<rparr>) nbs) (\<lambda>nbs.
        Ok (m, nbs, nonideal)))))))"

fun expand_chain :: "nat \<Rightarrow> u32 \<Rightarrow> u32 \<Rightarrow> ptr \<Rightarrow> expand_state \<Rightarrow> expand_state outcome" where
  "expand_chain n new_num ideal None s = Ok s"
| "expand_chain 0 new_num ideal (Some a) s = Fault OutOfFuel"
| "expand_chain (Suc n) new_num ideal (Some a) s =
     seq (load_hh (Some a) (fst s)) (\<lambda>h.
     seq (expand_push new_num ideal a h s) (\<lambda>s'.
     expand_chain n new_num ideal (hh_next h) s'))"

text \<open>The \<open>for\<close> loop over the old bucket array, which it does not write.\<close>

fun expand_buckets ::
  "u32 \<Rightarrow> u32 \<Rightarrow> UT_hash_bucket list \<Rightarrow> nat list \<Rightarrow> expand_state \<Rightarrow> expand_state outcome" where
  "expand_buckets new_num ideal bs [] s = Ok s"
| "expand_buckets new_num ideal bs (i # is) s =
     seq (load_bucket i bs) (\<lambda>b.
     seq (expand_chain (fresh (fst s)) new_num ideal (hh_head b) s) (\<lambda>s'.
     expand_buckets new_num ideal bs is s'))"

definition HASH_EXPAND_BUCKETS :: "ptr \<Rightarrow> mem \<Rightarrow> mem outcome" where
  "HASH_EXPAND_BUCKETS t m =
     seq (load_tbl t m) (\<lambda>T.
     let (p, m) = alloc (sizeof_UT_hash_bucket * unat (num_buckets T) * 2) m in
     (case p of None \<Rightarrow> Exit (-1)
     | Some _ \<Rightarrow>
         let new_buckets = replicate (unat (num_buckets T) * 2) zero_bucket;
             ideal = drop_bit (unat (log2_num_buckets T + 1)) (num_items T) +
               (if num_items T AND (num_buckets T * 2 - 1) \<noteq> 0 then 1 else 0) in
         seq (upd_tbl t (\<lambda>T. T\<lparr>ideal_chain_maxlen := ideal, nonideal_items := 0\<rparr>) m) (\<lambda>m.
         seq (expand_buckets (num_buckets T * 2) ideal (buckets T) [0..<unat (num_buckets T)]
                (m, new_buckets, 0)) (\<lambda>(m, nbs, nonideal).
         let ineff = (if nonideal > drop_bit 1 (num_items T) then ineff_expands T + 1 else 0) in
         upd_tbl t (\<lambda>T. T\<lparr>nonideal_items := nonideal, num_buckets := num_buckets T * 2,
           log2_num_buckets := log2_num_buckets T + 1, buckets := nbs, ineff_expands := ineff,
           noexpand := (if ineff > 1 then 1 else noexpand T)\<rparr>) m))))"

definition HASH_ADD_TO_BKT :: "ptr \<Rightarrow> nat \<Rightarrow> ptr \<Rightarrow> mem \<Rightarrow> mem outcome" where
  "HASH_ADD_TO_BKT t i addhh m =
     seq (upd_bucket_of t i (\<lambda>b. b\<lparr>bkt_count := bkt_count b + 1\<rparr>) m) (\<lambda>m.
     seq (load_bucket_of t i m) (\<lambda>b.
     seq (upd_hh addhh (\<lambda>h. h\<lparr>hh_next := hh_head b\<rparr>) m) (\<lambda>m.
     seq (upd_hh addhh (\<lambda>h. h\<lparr>hh_prev := None\<rparr>) m) (\<lambda>m.
     seq (if hh_head b \<noteq> None then upd_hh (hh_head b) (\<lambda>h. h\<lparr>hh_prev := addhh\<rparr>) m else Ok m) (\<lambda>m.
     seq (upd_bucket_of t i (\<lambda>b. b\<lparr>hh_head := addhh\<rparr>) m) (\<lambda>m.
     seq (load_bucket_of t i m) (\<lambda>b.
     seq (load_tbl_of addhh m) (\<lambda>T.
     if bkt_count b \<ge> (expand_mult b + 1) * HASH_BKT_CAPACITY_THRESH \<and> noexpand T = 0
     then seq (load_hh addhh m) (\<lambda>h. HASH_EXPAND_BUCKETS (tbl h) m)
     else Ok m))))))))"

definition HASH_ADD_TO_TABLE :: "ptr \<Rightarrow> u32 \<Rightarrow> ptr \<Rightarrow> mem \<Rightarrow> mem outcome" where
  "HASH_ADD_TO_TABLE head hashval add m =
     seq (upd_tbl_of head (\<lambda>T. T\<lparr>num_items := num_items T + 1\<rparr>) m) (\<lambda>m.
     seq (load_hh head m) (\<lambda>h.
     seq (load_tbl (tbl h) m) (\<lambda>T.
     HASH_ADD_TO_BKT (tbl h) (unat (HASH_TO_BKT hashval (num_buckets T))) add m)))"

definition HASH_ADD_KEYPTR_BYHASHVALUE ::
  "ptr \<Rightarrow> ptr \<Rightarrow> u32 \<Rightarrow> u32 \<Rightarrow> ptr \<Rightarrow> mem \<Rightarrow> (ptr \<times> mem) outcome" where
  "HASH_ADD_KEYPTR_BYHASHVALUE head kp keylen_in hashval add m =
     seq (upd_hh add (\<lambda>h. h\<lparr>hashv := hashval, keyptr := kp, keylen := keylen_in\<rparr>) m) (\<lambda>m.
     seq (if head = None then
            seq (upd_hh add (\<lambda>h. h\<lparr>app_next := None, app_prev := None\<rparr>) m) (\<lambda>m.
            seq (HASH_MAKE_TABLE add m) (\<lambda>m. Ok (add, m)))
          else
            seq (load_hh head m) (\<lambda>hd.
            seq (upd_hh add (\<lambda>h. h\<lparr>tbl := tbl hd\<rparr>) m) (\<lambda>m.
            seq (HASH_APPEND_LIST head add m) (\<lambda>m. Ok (head, m))))) (\<lambda>(head, m).
     seq (HASH_ADD_TO_TABLE head hashval add m) (\<lambda>m. Ok (head, m))))"

text \<open>\<open>HASH_ADD (hh, head, key, sizeof (flow_key_t), add)\<close>: the key is the member \<open>key\<close> of \<open>add\<close>.\<close>

definition HASH_ADD_KEYPTR :: "ptr \<Rightarrow> ptr \<Rightarrow> u32 \<Rightarrow> ptr \<Rightarrow> mem \<Rightarrow> (ptr \<times> mem) outcome" where
  "HASH_ADD_KEYPTR head kp keylen_in add m =
     seq (load_flow kp m) (\<lambda>f.
     HASH_ADD_KEYPTR_BYHASHVALUE head kp keylen_in (HASH_VALUE (key_bytes (key f))) add m)"

definition HASH_ADD :: "ptr \<Rightarrow> ptr \<Rightarrow> mem \<Rightarrow> (ptr \<times> mem) outcome" where
  "HASH_ADD head add m = HASH_ADD_KEYPTR head add (of_nat sizeof_flow_key_t) add m"

section \<open>Removal\<close>

definition HASH_DEL_IN_BKT :: "ptr \<Rightarrow> nat \<Rightarrow> ptr \<Rightarrow> mem \<Rightarrow> mem outcome" where
  "HASH_DEL_IN_BKT t i delhh m =
     seq (upd_bucket_of t i (\<lambda>b. b\<lparr>bkt_count := bkt_count b - 1\<rparr>) m) (\<lambda>m.
     seq (load_bucket_of t i m) (\<lambda>b.
     seq (load_hh delhh m) (\<lambda>d.
     seq (if hh_head b = delhh then upd_bucket_of t i (\<lambda>b. b\<lparr>hh_head := hh_next d\<rparr>) m else Ok m) (\<lambda>m.
     seq (if hh_prev d \<noteq> None then upd_hh (hh_prev d) (\<lambda>h. h\<lparr>hh_next := hh_next d\<rparr>) m else Ok m) (\<lambda>m.
     seq (load_hh delhh m) (\<lambda>d.
     if hh_next d \<noteq> None then upd_hh (hh_next d) (\<lambda>h. h\<lparr>hh_prev := hh_prev d\<rparr>) m else Ok m))))))"

definition HASH_DELETE_HH :: "ptr \<Rightarrow> ptr \<Rightarrow> mem \<Rightarrow> (ptr \<times> mem) outcome" where
  "HASH_DELETE_HH head delptr m =
     seq (load_hh delptr m) (\<lambda>d.
     if app_prev d = None \<and> app_next d = None then
       seq (load_hh head m) (\<lambda>h. seq (free_tbl (tbl h) m) (\<lambda>m. Ok (None, m)))
     else
       seq (load_tbl_of head m) (\<lambda>T.
       seq (if delptr = tail T then upd_tbl_of head (\<lambda>T. T\<lparr>tail := app_prev d\<rparr>) m else Ok m) (\<lambda>m.
       seq (if app_prev d \<noteq> None
            then seq (upd_hh (app_prev d) (\<lambda>h. h\<lparr>app_next := app_next d\<rparr>) m) (\<lambda>m. Ok (head, m))
            else Ok (app_next d, m)) (\<lambda>(head, m).
       seq (load_hh delptr m) (\<lambda>d.
       seq (if app_next d \<noteq> None
            then upd_hh (app_next d) (\<lambda>h. h\<lparr>app_prev := app_prev d\<rparr>) m else Ok m) (\<lambda>m.
       seq (load_hh head m) (\<lambda>h.
       seq (load_tbl (tbl h) m) (\<lambda>T.
       seq (HASH_DEL_IN_BKT (tbl h) (unat (HASH_TO_BKT (hashv d) (num_buckets T))) delptr m) (\<lambda>m.
       seq (upd_tbl_of head (\<lambda>T. T\<lparr>num_items := num_items T - 1\<rparr>) m) (\<lambda>m.
       Ok (head, m)))))))))))"

definition HASH_DELETE :: "ptr \<Rightarrow> ptr \<Rightarrow> mem \<Rightarrow> (ptr \<times> mem) outcome" where
  "HASH_DELETE head delptr m = HASH_DELETE_HH head delptr m"

definition HASH_DEL :: "ptr \<Rightarrow> ptr \<Rightarrow> mem \<Rightarrow> (ptr \<times> mem) outcome" where
  "HASH_DEL head delptr m = HASH_DELETE head delptr m"

section \<open>Counting, clearing, and the integrity check\<close>

definition HASH_COUNT :: "ptr \<Rightarrow> mem \<Rightarrow> u32 outcome" where
  "HASH_COUNT head m =
     (case head of None \<Rightarrow> Ok 0 | Some _ \<Rightarrow> seq (load_tbl_of head m) (\<lambda>T. Ok (num_items T)))"

text \<open>
  \<open>HASH_FSCK\<close>, the integrity check of debug builds: \<open>HASH_OOPS\<close> is \<open>exit (-1)\<close>.  The two
  list walks return the number of nodes seen.
\<close>

fun fsck_chain :: "nat \<Rightarrow> ptr \<Rightarrow> ptr \<Rightarrow> u32 \<Rightarrow> mem \<Rightarrow> u32 outcome" where
  "fsck_chain n prev None c m = Ok c"
| "fsck_chain 0 prev (Some a) c m = Fault OutOfFuel"
| "fsck_chain (Suc n) prev (Some a) c m =
     seq (load_hh (Some a) m) (\<lambda>h.
     if prev \<noteq> hh_prev h then Exit (-1)
     else fsck_chain n (Some a) (hh_next h) (c + 1) m)"

fun fsck_buckets :: "UT_hash_bucket list \<Rightarrow> nat list \<Rightarrow> u32 \<Rightarrow> mem \<Rightarrow> u32 outcome" where
  "fsck_buckets bs [] c m = Ok c"
| "fsck_buckets bs (i # is) c m =
     seq (load_bucket i bs) (\<lambda>b.
     seq (fsck_chain (fresh m) None (hh_head b) 0 m) (\<lambda>bc.
     if bkt_count b \<noteq> bc then Exit (-1) else fsck_buckets bs is (c + bc) m))"

fun fsck_list :: "nat \<Rightarrow> ptr \<Rightarrow> ptr \<Rightarrow> u32 \<Rightarrow> mem \<Rightarrow> u32 outcome" where
  "fsck_list n prev None c m = Ok c"
| "fsck_list 0 prev (Some a) c m = Fault OutOfFuel"
| "fsck_list (Suc n) prev (Some a) c m =
     seq (load_hh (Some a) m) (\<lambda>h.
     if prev \<noteq> app_prev h then Exit (-1)
     else fsck_list n (Some a) (app_next h) (c + 1) m)"

definition HASH_FSCK :: "ptr \<Rightarrow> mem \<Rightarrow> unit outcome" where
  "HASH_FSCK head m =
     (case head of None \<Rightarrow> Ok ()
      | Some _ \<Rightarrow>
          seq (load_tbl_of head m) (\<lambda>T.
          seq (fsck_buckets (buckets T) [0..<unat (num_buckets T)] 0 m) (\<lambda>c.
          if c \<noteq> num_items T then Exit (-1)
          else seq (fsck_list (fresh m) None head 0 m) (\<lambda>c.
          if c \<noteq> num_items T then Exit (-1) else Ok ()))))"

end
