(* ===== verification/Uthash_Inv.thy ===== *)
theory Uthash_Inv
  imports Uthash
begin

text \<open>
  What a well-formed flow table looks like in the heap.  A table is described by two ghost
  values: the list \<open>xs\<close> of its elements in insertion order and the list \<open>cs\<close> of its bucket
  chains.  Every link is determined by them through \<open>next_in\<close> and \<open>prev_in\<close>.
\<close>

named_theorems frame_simps \<open>what an operation leaves unchanged\<close>

section \<open>Bucket indices\<close>

lemma HASH_TO_BKT_pow2: "k < 32 \<Longrightarrow> unat (HASH_TO_BKT h (2 ^ k)) = unat h mod 2 ^ k"
proof -
  have "h AND (2 ^ k - 1) = take_bit k h"
    by (simp add: take_bit_eq_mask mask_eq_exp_minus_1)
  then have "unat (HASH_TO_BKT h (2 ^ k)) = take_bit k (unat h)"
    by (simp only: HASH_TO_BKT_def unsigned_take_bit_eq)
  then show ?thesis by (simp add: take_bit_eq_mod)
qed

lemma HASH_TO_BKT_less: "k < 32 \<Longrightarrow> unat (HASH_TO_BKT h (2 ^ k)) < 2 ^ k"
  by (simp add: HASH_TO_BKT_pow2)

lemma unat_pow2: "k < 32 \<Longrightarrow> unat ((2::u32) ^ k) = 2 ^ k"
proof -
  assume "k < 32"
  then have "(2::nat) ^ k < 2 ^ 32" by (intro power_strict_increasing) auto
  then have "unat (of_nat (2 ^ k) :: u32) = 2 ^ k"
    by (simp add: unsigned_of_nat take_bit_eq_mod del: of_nat_power)
  then show ?thesis by simp
qed

section \<open>Chains, the list in insertion order, and keys\<close>

definition chain_ok :: "mem \<Rightarrow> u32 \<Rightarrow> nat \<Rightarrow> UT_hash_bucket \<Rightarrow> addr list \<Rightarrow> bool" where
  "chain_ok m n i b c \<longleftrightarrow>
     hh_head b = hd_opt c \<and> bkt_count b = of_nat (length c) \<and> distinct c \<and>
     (\<forall>a \<in> set c. valid m a \<and> hh_next (hh_at m a) = next_in c a \<and>
        hh_prev (hh_at m a) = prev_in c a \<and> unat (HASH_TO_BKT (hashv (hh_at m a)) n) = i)"

definition chains_ok :: "mem \<Rightarrow> u32 \<Rightarrow> UT_hash_bucket list \<Rightarrow> addr list list \<Rightarrow> bool" where
  "chains_ok m n bs cs \<longleftrightarrow>
     length bs = length cs \<and> (\<forall>i < length cs. chain_ok m n i (bs ! i) (cs ! i))"

definition app_ok :: "mem \<Rightarrow> addr \<Rightarrow> addr list \<Rightarrow> bool" where
  "app_ok m t xs \<longleftrightarrow>
     distinct xs \<and>
     (\<forall>a \<in> set xs. valid m a \<and> tbl (hh_at m a) = Some t \<and>
        app_next (hh_at m a) = next_in xs a \<and> app_prev (hh_at m a) = prev_in xs a)"

definition keys_ok :: "mem \<Rightarrow> addr list \<Rightarrow> bool" where
  "keys_ok m xs \<longleftrightarrow>
     inj_on (key_at m) (set xs) \<and>
     (\<forall>a \<in> set xs. keyptr (hh_at m a) = Some a \<and> keylen (hh_at m a) = 16 \<and>
        hashv (hh_at m a) = hash_key (key_at m a))"

definition in_chains :: "addr list list \<Rightarrow> addr set" where
  "in_chains cs = \<Union> (set ` set cs)"

definition table_ok :: "mem \<Rightarrow> addr \<Rightarrow> addr list \<Rightarrow> addr list list \<Rightarrow> bool" where
  "table_ok m t xs cs \<longleftrightarrow>
     tvalid m t \<and>
     (\<exists>k < 32. num_buckets (tbl_at m t) = 2 ^ k \<and> log2_num_buckets (tbl_at m t) = of_nat k \<and>
        length cs = 2 ^ k) \<and>
     num_items (tbl_at m t) = of_nat (length xs) \<and> tail (tbl_at m t) = last_opt xs \<and>
     app_ok m t xs \<and>
     chains_ok m (num_buckets (tbl_at m t)) (buckets (tbl_at m t)) cs \<and>
     in_chains cs = set xs \<and> keys_ok m xs"

text \<open>
  \<open>hash_rep m head tp xs\<close>: the pointer \<open>head\<close> is a table whose elements are \<open>xs\<close>, in
  insertion order; \<open>tp\<close> is its table object.  The empty table is the null pointer.
\<close>

definition hash_rep :: "mem \<Rightarrow> ptr \<Rightarrow> ptr \<Rightarrow> addr list \<Rightarrow> bool" where
  "hash_rep m head tp xs \<longleftrightarrow>
     head = hd_opt xs \<and>
     (if xs = [] then tp = None else \<exists>t cs. tp = Some t \<and> table_ok m t xs cs)"

text \<open>
  Heap discipline: nothing is allocated at or above \<open>fresh\<close>, and no single allocation can
  reach 64 GiB (the size of a bucket array of \<open>2\<^sup>3\<^sup>2\<close> buckets).
\<close>

definition mem_wf :: "mem \<Rightarrow> bool" where
  "mem_wf m \<longleftrightarrow>
     (\<forall>a \<ge> fresh m. flows m a = None \<and> tbls m a = None) \<and> max_block m < 2 ^ 36"

lemma mem_wf_fresh: "mem_wf m \<Longrightarrow> valid m a \<Longrightarrow> a < fresh m"
  by (auto simp: mem_wf_def valid_def not_le [symmetric])

lemma mem_wf_tfresh: "mem_wf m \<Longrightarrow> tvalid m a \<Longrightarrow> a < fresh m"
  by (auto simp: mem_wf_def tvalid_def not_le [symmetric])

lemma length_le_fresh:
  assumes "mem_wf m" and "distinct xs" and "\<forall>a \<in> set xs. valid m a"
  shows "length xs \<le> fresh m"
proof -
  have "set xs \<subseteq> {..<fresh m}" using assms(1,3) mem_wf_fresh by auto
  then have "card (set xs) \<le> fresh m" using card_mono [of "{..<fresh m}" "set xs"] by simp
  then show ?thesis using assms(2) by (simp add: distinct_card)
qed

section \<open>Facts that depend on a part of the handles only\<close>

lemma chain_ok_cong:
  assumes eq: "\<And>a. a \<in> set c \<Longrightarrow> valid m a \<Longrightarrow>
    valid m' a \<and> hh_next (hh_at m' a) = hh_next (hh_at m a) \<and>
    hh_prev (hh_at m' a) = hh_prev (hh_at m a) \<and> hashv (hh_at m' a) = hashv (hh_at m a)"
    and c: "chain_ok m n i b c"
  shows "chain_ok m' n i b c"
proof -
  have "valid m' a \<and> hh_next (hh_at m' a) = next_in c a \<and> hh_prev (hh_at m' a) = prev_in c a \<and>
    unat (HASH_TO_BKT (hashv (hh_at m' a)) n) = i" if a: "a \<in> set c" for a
  proof -
    have "valid m a \<and> hh_next (hh_at m a) = next_in c a \<and> hh_prev (hh_at m a) = prev_in c a \<and>
      unat (HASH_TO_BKT (hashv (hh_at m a)) n) = i"
      using c a unfolding chain_ok_def by blast
    then show ?thesis using eq [OF a] by simp
  qed
  then show ?thesis using c unfolding chain_ok_def by blast
qed

lemma chains_ok_cong:
  assumes "\<And>a. a \<in> in_chains cs \<Longrightarrow> valid m a \<Longrightarrow>
    valid m' a \<and> hh_next (hh_at m' a) = hh_next (hh_at m a) \<and>
    hh_prev (hh_at m' a) = hh_prev (hh_at m a) \<and> hashv (hh_at m' a) = hashv (hh_at m a)"
    and "chains_ok m n bs cs"
  shows "chains_ok m' n bs cs"
  unfolding chains_ok_def
proof (intro conjI allI impI)
  show "length bs = length cs" using assms(2) by (simp add: chains_ok_def)
  fix i assume i: "i < length cs"
  then have "chain_ok m n i (bs ! i) (cs ! i)" using assms(2) by (simp add: chains_ok_def)
  moreover have "a \<in> set (cs ! i) \<Longrightarrow> a \<in> in_chains cs" for a
    using nth_mem [OF i] by (auto simp: in_chains_def)
  ultimately show "chain_ok m' n i (bs ! i) (cs ! i)"
    by (rule chain_ok_cong [OF assms(1), rotated 2])
qed

lemma app_ok_cong:
  assumes eq: "\<And>a. a \<in> set xs \<Longrightarrow> valid m a \<Longrightarrow>
    valid m' a \<and> tbl (hh_at m' a) = tbl (hh_at m a) \<and>
    app_next (hh_at m' a) = app_next (hh_at m a) \<and> app_prev (hh_at m' a) = app_prev (hh_at m a)"
    and app: "app_ok m t xs"
  shows "app_ok m' t xs"
proof -
  have "valid m' a \<and> tbl (hh_at m' a) = Some t \<and> app_next (hh_at m' a) = next_in xs a \<and>
    app_prev (hh_at m' a) = prev_in xs a" if a: "a \<in> set xs" for a
  proof -
    have "valid m a \<and> tbl (hh_at m a) = Some t \<and> app_next (hh_at m a) = next_in xs a \<and>
      app_prev (hh_at m a) = prev_in xs a"
      using app a unfolding app_ok_def by blast
    then show ?thesis using eq [OF a] by simp
  qed
  then show ?thesis using app unfolding app_ok_def by blast
qed

lemma keys_ok_cong:
  assumes "\<And>a. a \<in> set xs \<Longrightarrow>
    key_at m' a = key_at m a \<and> keyptr (hh_at m' a) = keyptr (hh_at m a) \<and>
    keylen (hh_at m' a) = keylen (hh_at m a) \<and> hashv (hh_at m' a) = hashv (hh_at m a)"
  shows "keys_ok m xs \<Longrightarrow> keys_ok m' xs"
  using assms unfolding keys_ok_def by (simp add: inj_on_def)

text \<open>
  \<open>same_nodes m m' A S\<close>: \<open>m'\<close> agrees with \<open>m\<close> on the nodes in \<open>A\<close> and the table
  objects in \<open>S\<close>; a table living there is untouched.
\<close>

definition same_nodes :: "mem \<Rightarrow> mem \<Rightarrow> addr set \<Rightarrow> addr set \<Rightarrow> bool" where
  "same_nodes m m' A S \<longleftrightarrow>
     (\<forall>a \<in> A. flows m' a = flows m a) \<and> (\<forall>t \<in> S. tbls m' t = tbls m t)"

lemma hash_rep_same_nodes:
  assumes same: "same_nodes m m' (set xs) (set_option tp)"
    and rep: "hash_rep m head tp xs"
  shows "hash_rep m' head tp xs"
proof (cases "xs = []")
  case True
  then show ?thesis using rep by (simp add: hash_rep_def)
next
  case False
  then obtain t cs where tp: "tp = Some t" and ok: "table_ok m t xs cs"
    using rep by (auto simp: hash_rep_def)
  have fl: "\<And>a. a \<in> set xs \<Longrightarrow> flows m' a = flows m a" and T: "tbls m' t = tbls m t"
    using same tp by (auto simp: same_nodes_def)
  have "chains_ok m' (num_buckets (tbl_at m t)) (buckets (tbl_at m t)) cs"
    by (rule chains_ok_cong [where m = m]) (use ok fl in \<open>auto simp: table_ok_def valid_def\<close>)
  moreover have "app_ok m' t xs"
    by (rule app_ok_cong [where m = m]) (use ok fl in \<open>auto simp: table_ok_def valid_def\<close>)
  moreover have "keys_ok m' xs"
    by (rule keys_ok_cong [where m = m]) (use ok fl in \<open>auto simp: table_ok_def\<close>)
  ultimately have "table_ok m' t xs cs" using ok T by (simp add: table_ok_def tvalid_def)
  then show ?thesis using rep False tp by (auto simp: hash_rep_def)
qed

section \<open>Consequences of the representation\<close>

lemma hash_rep_distinct: "hash_rep m head tp xs \<Longrightarrow> distinct xs"
  by (cases "xs = []") (auto simp: hash_rep_def table_ok_def app_ok_def)

lemma hash_rep_valid: "hash_rep m head tp xs \<Longrightarrow> a \<in> set xs \<Longrightarrow> valid m a"
  by (cases "xs = []") (auto simp: hash_rep_def table_ok_def app_ok_def)

lemma hash_rep_inj: "hash_rep m head tp xs \<Longrightarrow> inj_on (key_at m) (set xs)"
  by (cases "xs = []") (auto simp: hash_rep_def table_ok_def keys_ok_def)

lemma hash_rep_tvalid: "hash_rep m head tp xs \<Longrightarrow> tp = Some t \<Longrightarrow> tvalid m t"
  by (cases "xs = []") (auto simp: hash_rep_def table_ok_def)

lemma hash_rep_Nil [simp]: "hash_rep m head tp [] \<longleftrightarrow> head = None \<and> tp = None"
  by (auto simp: hash_rep_def)

lemma hash_rep_None: "hash_rep m None tp xs \<Longrightarrow> xs = [] \<and> tp = None"
  by (cases xs) (auto simp: hash_rep_def)

lemma hash_rep_head: "hash_rep m head tp xs \<Longrightarrow> head = hd_opt xs"
  by (simp add: hash_rep_def)

lemma in_chain_bucket:
  assumes "chains_ok m n bs cs" and "i < length cs" and "a \<in> set (cs ! i)"
  shows "unat (HASH_TO_BKT (hashv (hh_at m a)) n) = i"
  using assms by (auto simp: chains_ok_def chain_ok_def)

lemma in_chains_bucket:
  assumes "chains_ok m n bs cs" and "a \<in> in_chains cs"
  shows "unat (HASH_TO_BKT (hashv (hh_at m a)) n) < length cs \<and>
         a \<in> set (cs ! unat (HASH_TO_BKT (hashv (hh_at m a)) n))"
proof -
  obtain c where "c \<in> set cs" "a \<in> set c" using assms(2) by (auto simp: in_chains_def)
  then obtain i where "i < length cs" "a \<in> set (cs ! i)" by (metis in_set_conv_nth)
  then show ?thesis using in_chain_bucket [OF assms(1)] by metis
qed

section \<open>Lookup\<close>

lemma HASH_FIND_IN_BKT_correct:
  assumes "\<forall>a \<in> set c. valid m a \<and> hh_next (hh_at m a) = next_in c a \<and>
             keyptr (hh_at m a) = Some a \<and> keylen (hh_at m a) = 16 \<and>
             hashv (hh_at m a) = hash_key (key_at m a)"
    and "distinct c" and "c = pre @ suf" and "length suf \<le> n"
  shows "HASH_FIND_IN_BKT n (hd_opt suf) (key_bytes k) 16 (hash_key k) m =
         Ok (List.find (\<lambda>a. key_at m a = k) suf)"
  using assms(3,4)
proof (induction suf arbitrary: pre n)
  case Nil
  then show ?case by simp
next
  case (Cons a suf)
  then obtain n' where n: "n = Suc n'" by (cases n) auto
  have a: "a \<in> set c" using Cons.prems(1) by simp
  have nx: "next_in c a = hd_opt suf"
    using assms(2) Cons.prems(1) by (simp add: next_in_split)
  have IH: "HASH_FIND_IN_BKT n' (hd_opt suf) (key_bytes k) 16 (hash_key k) m =
            Ok (List.find (\<lambda>a. key_at m a = k) suf)"
    using Cons.IH [of "pre @ [a]" n'] Cons.prems n by simp
  have "valid m a" "hh_next (hh_at m a) = hd_opt suf" "keyptr (hh_at m a) = Some a"
    "keylen (hh_at m a) = 16" "hashv (hh_at m a) = hash_key (key_at m a)"
    using assms(1) a nx by auto
  then show ?case by (simp add: n run_simps IH)
qed

lemma find_unique:
  assumes "inj_on f A" and "set xs \<subseteq> A" and "set ys \<subseteq> A"
    and "\<And>a. a \<in> A \<Longrightarrow> f a = k \<Longrightarrow> a \<in> set xs \<longleftrightarrow> a \<in> set ys"
  shows "List.find (\<lambda>a. f a = k) xs = List.find (\<lambda>a. f a = k) ys"
proof (cases "List.find (\<lambda>a. f a = k) ys")
  case None
  then have "\<forall>a \<in> set ys. f a \<noteq> k" by (simp add: find_None_iff)
  then have "\<forall>a \<in> set xs. f a \<noteq> k" using assms by blast
  then show ?thesis using None by (metis (mono_tags, lifting) find_None_iff)
next
  case (Some a)
  then have a: "a \<in> set ys" "f a = k" by (auto simp: find_Some_iff)
  then have "a \<in> set xs" using assms by blast
  then obtain b where b: "List.find (\<lambda>a. f a = k) xs = Some b"
    using a(2) by (metis (mono_tags, lifting) find_None_iff not_None_eq)
  then have "b \<in> set xs" "f b = k" by (auto simp: find_Some_iff)
  then have "b = a" using a assms(1-3) by (metis inj_onD subsetD)
  then show ?thesis using b Some by simp
qed

lemma HASH_FIND_correct:
  assumes rep: "hash_rep m head tp xs" and wf: "mem_wf m"
  shows "HASH_FIND head (key_bytes k) m = Ok (List.find (\<lambda>a. key_at m a = k) xs)"
proof (cases xs)
  case Nil
  then show ?thesis using rep by (simp add: HASH_FIND_def)
next
  case (Cons x ys)
  then obtain t cs where head: "head = Some x" and ok: "table_ok m t xs cs"
    using rep by (auto simp: hash_rep_def)
  define T where "T = tbl_at m t"
  obtain e where e: "e < 32" "num_buckets T = 2 ^ e" "length cs = 2 ^ e"
    using ok by (auto simp: table_ok_def T_def)
  have T: "tvalid m t" "chains_ok m (num_buckets T) (buckets T) cs"
    "in_chains cs = set xs" "keys_ok m xs" "app_ok m t xs"
    using ok by (auto simp: table_ok_def T_def)
  define i where "i = unat (HASH_TO_BKT (hash_key k) (num_buckets T))"
  have i: "i < length cs" using HASH_TO_BKT_less e by (simp add: i_def)
  then have c: "chain_ok m (num_buckets T) i (buckets T ! i) (cs ! i)" and l: "i < length (buckets T)"
    using T(2) by (auto simp: chains_ok_def)
  have sub: "set (cs ! i) \<subseteq> set xs" using i T(3) by (auto simp: in_chains_def)
  have len: "length (cs ! i) \<le> fresh m"
    using c by (intro length_le_fresh [OF wf]) (auto simp: chain_ok_def)
  have "HASH_FIND_IN_BKT (fresh m) (hd_opt (cs ! i)) (key_bytes k) 16 (hash_key k) m =
        Ok (List.find (\<lambda>a. key_at m a = k) (cs ! i))"
    by (rule HASH_FIND_IN_BKT_correct [where c = "cs ! i" and pre = "[]"])
       (use c sub T(4) len in \<open>auto simp: chain_ok_def keys_ok_def\<close>)
  moreover have "List.find (\<lambda>a. key_at m a = k) (cs ! i) = List.find (\<lambda>a. key_at m a = k) xs"
  proof (rule find_unique [of _ "set xs"])
    show "inj_on (key_at m) (set xs)" using T(4) by (simp add: keys_ok_def)
    fix a assume a: "a \<in> set xs" "key_at m a = k"
    then have "hashv (hh_at m a) = hash_key k" using T(4) by (auto simp: keys_ok_def)
    then have "a \<in> set (cs ! i)"
      using in_chains_bucket [OF T(2), of a] a T(3) by (simp add: i_def)
    then show "a \<in> set (cs ! i) \<longleftrightarrow> a \<in> set xs" using a by simp
  qed (use sub in auto)
  moreover have "valid m x" "tbl (hh_at m x) = Some t"
    using T(5) Cons by (auto simp: app_ok_def)
  moreover have "hh_head (buckets T ! i) = hd_opt (cs ! i)" using c by (simp add: chain_ok_def)
  ultimately show ?thesis using head T(1) l
    by (simp add: HASH_FIND_def HASH_FIND_BYHASHVALUE_def run_simps sizeof_flow_key_t_def
        i_def [symmetric] T_def [symmetric] hash_key_def [symmetric])
qed

lemma find_key_Some:
  "List.find (\<lambda>a. key_at m a = k) xs = Some a \<Longrightarrow> a \<in> set xs \<and> key_at m a = k"
  by (auto simp: find_Some_iff)

lemma find_key_None:
  "List.find (\<lambda>a. key_at m a = k) xs = None \<longleftrightarrow> k \<notin> key_at m ` set xs"
  by (auto simp: find_None_iff)

lemma HASH_COUNT_correct:
  assumes "hash_rep m head tp xs"
  shows "HASH_COUNT head m = Ok (of_nat (length xs))"
  using assms by (cases xs)
    (auto simp: HASH_COUNT_def hash_rep_def table_ok_def app_ok_def load_tbl_of_def run_simps)

end
