(* ===== verification/Uthash_Expand.thy ===== *)
theory Uthash_Expand
  imports Uthash_Inv
begin

text \<open>
  The bucket part of an insertion: pushing a node on its chain, and \<open>HASH_EXPAND_BUCKETS\<close>,
  which doubles the bucket array and moves every node to its new chain.
\<close>

section \<open>What an operation may change\<close>

text \<open>
  \<open>touches A S m m'\<close>: from \<open>m\<close> to \<open>m'\<close> only hash handles of nodes in \<open>A\<close> and table
  objects in \<open>S\<close> changed, and allocation may have advanced.
\<close>

definition touches :: "addr set \<Rightarrow> addr set \<Rightarrow> mem \<Rightarrow> mem \<Rightarrow> bool" where
  "touches A S m m' \<longleftrightarrow>
     (\<forall>a. a \<notin> A \<longrightarrow> flows m' a = flows m a) \<and>
     (\<forall>a. valid m' a = valid m a \<and> stats_of (flow_at m' a) = stats_of (flow_at m a)) \<and>
     (\<forall>t. t \<notin> S \<longrightarrow> tbls m' t = tbls m t) \<and>
     fresh m \<le> fresh m' \<and> max_block m' = max_block m"

lemma touches_refl [simp]: "touches A S m m"
  by (simp add: touches_def)

lemma touches_trans:
  "touches A S m m' \<Longrightarrow> touches A S m' m'' \<Longrightarrow> touches A S m m''"
  by (simp add: touches_def)

lemma touches_mono: "touches A S m m' \<Longrightarrow> A \<subseteq> A' \<Longrightarrow> S \<subseteq> S' \<Longrightarrow> touches A' S' m m'"
  unfolding touches_def by blast

lemma touches_set_hh: "valid m a \<Longrightarrow> a \<in> A \<Longrightarrow> touches A S m (set_hh a g m)"
  by (auto simp: touches_def set_rules) (auto simp: set_hh_def set_flow_def)

lemma touches_set_tbl: "t \<in> S \<Longrightarrow> touches A S m (set_tbl t g m)"
  unfolding touches_def by (auto simp: set_tbl_def valid_def)

lemma touches_step_hh:
  "touches A S m m' \<Longrightarrow> valid m' a \<Longrightarrow> a \<in> A \<Longrightarrow> touches A S m (set_hh a g m')"
  by (blast intro: touches_trans touches_set_hh)

lemma touches_step_tbl:
  "touches A S m m' \<Longrightarrow> t \<in> S \<Longrightarrow> touches A S m (set_tbl t g m')"
  by (blast intro: touches_trans touches_set_tbl)

lemma touches_key: "touches A S m m' \<Longrightarrow> key_at m' a = key_at m a"
  unfolding touches_def by (metis key_stats_of)

lemma touches_valid: "touches A S m m' \<Longrightarrow> valid m' a = valid m a"
  by (simp add: touches_def)

lemma touches_mem_wf:
  assumes "touches A S m m'" and "mem_wf m" and "\<forall>t \<in> S. t < fresh m'"
  shows "mem_wf m'"
  unfolding mem_wf_def
proof (intro conjI allI impI)
  fix a assume a: "fresh m' \<le> a"
  then have fm: "fresh m \<le> a" using assms(1) by (simp add: touches_def)
  then have "\<not> valid m a" using assms(2) by (simp add: mem_wf_def valid_def)
  then show "flows m' a = None" using touches_valid [OF assms(1), of a] by (simp add: valid_def)
  have "a \<notin> S" using a assms(3) by auto
  then show "tbls m' a = None" using assms(1,2) fm by (simp add: touches_def mem_wf_def)
next
  show "max_block m' < 2 ^ 36" using assms(1,2) by (simp add: touches_def mem_wf_def)
qed

lemma touches_same_nodes:
  "touches A S m m' \<Longrightarrow> A \<inter> B = {} \<Longrightarrow> S \<inter> R = {} \<Longrightarrow> same_nodes m m' B R"
  unfolding touches_def same_nodes_def by blast

section \<open>Pushing a node on a bucket chain\<close>

lemma in_chains_push:
  "i < length cs \<Longrightarrow> in_chains (cs[i := a # cs ! i]) = insert a (in_chains cs)"
proof -
  assume i: "i < length cs"
  have "set (cs[i := a # cs ! i]) \<subseteq> insert (a # cs ! i) (set cs)" by (rule set_update_subset_insert)
  moreover have "a # cs ! i \<in> set (cs[i := a # cs ! i])" using i by (simp add: set_update_memI)
  moreover have "c \<in> set (cs[i := a # cs ! i]) \<or> c = cs ! i" if "c \<in> set cs" for c
    using that i by (metis in_set_conv_nth length_list_update nth_list_update_neq)
  moreover have "cs ! i \<in> set cs" using i by simp
  ultimately show ?thesis unfolding in_chains_def
    by (auto simp: subset_iff) (metis list.set_intros(2))+
qed

lemma chain_push:
  assumes c: "chain_ok m n i b c" and a: "a \<notin> set c"
    and na: "valid m' a" "unat (HASH_TO_BKT (hashv (hh_at m' a)) n) = i"
      "hh_next (hh_at m' a) = hd_opt c" "hh_prev (hh_at m' a) = None"
    and b': "hh_head b' = Some a" "bkt_count b' = bkt_count b + 1"
    and eq: "\<And>x. x \<in> set c \<Longrightarrow> valid m' x \<and> hh_next (hh_at m' x) = hh_next (hh_at m x) \<and>
      hashv (hh_at m' x) = hashv (hh_at m x) \<and>
      hh_prev (hh_at m' x) = (if hd_opt c = Some x then Some a else hh_prev (hh_at m x))"
  shows "chain_ok m' n i b' (a # c)"
proof -
  have "valid m' x \<and> hh_next (hh_at m' x) = next_in (a # c) x \<and>
      hh_prev (hh_at m' x) = prev_in (a # c) x \<and> unat (HASH_TO_BKT (hashv (hh_at m' x)) n) = i"
    if x: "x \<in> set (a # c)" for x
  proof (cases "x = a")
    case True
    then show ?thesis using na by simp
  next
    case False
    then have xc: "x \<in> set c" using x by simp
    have "valid m x \<and> hh_next (hh_at m x) = next_in c x \<and> hh_prev (hh_at m x) = prev_in c x \<and>
        unat (HASH_TO_BKT (hashv (hh_at m x)) n) = i"
      using c xc unfolding chain_ok_def by blast
    then show ?thesis using eq [OF xc] False by (auto simp: prev_in_Cons simp del: prev_from.simps)
  qed
  then show ?thesis using c a b' unfolding chain_ok_def by simp
qed

lemma chains_push:
  assumes ok: "chains_ok m n bs cs" and i: "i < length cs" and a: "a \<notin> in_chains cs"
    and na: "valid m' a" "unat (HASH_TO_BKT (hashv (hh_at m' a)) n) = i"
      "hh_next (hh_at m' a) = hd_opt (cs ! i)" "hh_prev (hh_at m' a) = None"
    and b': "hh_head b' = Some a" "bkt_count b' = bkt_count (bs ! i) + 1"
    and eq: "\<And>x. x \<in> in_chains cs \<Longrightarrow> valid m' x \<and>
      hh_next (hh_at m' x) = hh_next (hh_at m x) \<and> hashv (hh_at m' x) = hashv (hh_at m x) \<and>
      hh_prev (hh_at m' x) = (if hd_opt (cs ! i) = Some x then Some a else hh_prev (hh_at m x))"
  shows "chains_ok m' n (bs[i := b']) (cs[i := a # cs ! i])"
  unfolding chains_ok_def
proof (intro conjI allI impI)
  show "length (bs[i := b']) = length (cs[i := a # cs ! i])" using ok by (simp add: chains_ok_def)
  fix j assume j: "j < length (cs[i := a # cs ! i])"
  then have jc: "j < length cs" by simp
  have c: "chain_ok m n j (bs ! j) (cs ! j)" using ok jc by (simp add: chains_ok_def)
  have inc: "x \<in> in_chains cs" if "x \<in> set (cs ! j)" for x
    using that nth_mem [OF jc] by (auto simp: in_chains_def)
  show "chain_ok m' n j (bs[i := b'] ! j) (cs[i := a # cs ! i] ! j)"
  proof (cases "j = i")
    case True
    have "chain_ok m' n i b' (a # cs ! i)"
      using c a inc eq b' na unfolding True by (intro chain_push [where m = m and b = "bs ! i"]) auto
    then show ?thesis using True i ok by (simp add: chains_ok_def)
  next
    case False
    have "hd_opt (cs ! i) \<noteq> Some x" if "x \<in> set (cs ! j)" for x
      using in_chain_bucket [OF ok i, of x] in_chain_bucket [OF ok jc that] False
      by (auto dest: hd_opt_in_set)
    then have "chain_ok m' n j (bs ! j) (cs ! j)"
      by (intro chain_ok_cong [OF _ c]) (use eq inc in auto)
    then show ?thesis using False by simp
  qed
qed

section \<open>Expansion\<close>

text \<open>Everything in a handle but the two bucket links.\<close>

definition forget_links :: "UT_hash_handle \<Rightarrow> UT_hash_handle" where
  "forget_links h = h\<lparr>hh_prev := None, hh_next := None\<rparr>"

lemma forget_linksD:
  assumes "forget_links h = forget_links h'"
  shows "tbl h = tbl h'" "app_prev h = app_prev h'" "app_next h = app_next h'"
    "keyptr h = keyptr h'" "keylen h = keylen h'" "hashv h = hashv h'"
  using assms by (cases h; cases h'; simp add: forget_links_def)+

definition relinks :: "addr set \<Rightarrow> mem \<Rightarrow> mem \<Rightarrow> bool" where
  "relinks A m m' \<longleftrightarrow>
     (\<forall>a. a \<notin> A \<longrightarrow> flows m' a = flows m a) \<and>
     (\<forall>a. valid m' a = valid m a \<and> stats_of (flow_at m' a) = stats_of (flow_at m a) \<and>
        forget_links (hh_at m' a) = forget_links (hh_at m a)) \<and>
     tbls m' = tbls m \<and> fresh m' = fresh m \<and> budget m' = budget m \<and> max_block m' = max_block m"

lemma relinks_refl [simp]: "relinks A m m"
  by (simp add: relinks_def)

lemma relinks_trans: "relinks A m m' \<Longrightarrow> relinks B m' m'' \<Longrightarrow> relinks (A \<union> B) m m''"
  by (simp add: relinks_def)

lemma relinks_mono: "relinks A m m' \<Longrightarrow> A \<subseteq> B \<Longrightarrow> relinks B m m'"
  unfolding relinks_def by blast

lemma relinks_set_hh:
  assumes "valid m a" and "a \<in> A" and "\<And>h. forget_links (g h) = forget_links h"
  shows "relinks A m (set_hh a g m)"
  using assms by (auto simp: relinks_def set_rules) (auto simp: set_hh_def set_flow_def)

lemma relinks_valid: "relinks A m m' \<Longrightarrow> valid m' a = valid m a"
  by (simp add: relinks_def)

lemma relinks_hashv: "relinks A m m' \<Longrightarrow> hashv (hh_at m' a) = hashv (hh_at m a)"
  unfolding relinks_def using forget_linksD(6) by blast

lemma relinks_handle:
  assumes "relinks A m m'"
  shows "tbl (hh_at m' a) = tbl (hh_at m a)" "app_prev (hh_at m' a) = app_prev (hh_at m a)"
    "app_next (hh_at m' a) = app_next (hh_at m a)" "keyptr (hh_at m' a) = keyptr (hh_at m a)"
    "keylen (hh_at m' a) = keylen (hh_at m a)"
  using assms forget_linksD unfolding relinks_def by blast+

lemma relinks_outside: "relinks A m m' \<Longrightarrow> a \<notin> A \<Longrightarrow> flows m' a = flows m a"
  by (simp add: relinks_def)

lemma relinks_key: "relinks A m m' \<Longrightarrow> key_at m' a = key_at m a"
  unfolding relinks_def by (metis key_stats_of)

lemma relinks_touches: "relinks A m m' \<Longrightarrow> touches A S m m'"
  by (simp add: relinks_def touches_def)

lemma relinks_app_ok: "relinks A m m' \<Longrightarrow> app_ok m t xs \<Longrightarrow> app_ok m' t xs"
  by (rule app_ok_cong [where m = m]) (simp_all add: relinks_handle relinks_valid)

lemma relinks_keys_ok: "relinks A m m' \<Longrightarrow> keys_ok m xs \<Longrightarrow> keys_ok m' xs"
  by (rule keys_ok_cong [where m = m]) (simp_all add: relinks_key relinks_hashv relinks_handle)

text \<open>One node moved to the new array.\<close>

lemma expand_push_correct:
  assumes ok: "chains_ok m n nbs ncs" and a: "valid m a" "a \<notin> in_chains ncs"
    and i: "unat (HASH_TO_BKT (hashv (hh_at m a)) n) < length ncs"
  shows "\<exists>m' nbs' ni' ncs'. expand_push n ideal a (hh_at m a) (m, nbs, ni) = Ok (m', nbs', ni') \<and>
    chains_ok m' n nbs' ncs' \<and> length ncs' = length ncs \<and>
    in_chains ncs' = insert a (in_chains ncs) \<and> relinks (in_chains ncs') m m'"
proof -
  define j where "j = unat (HASH_TO_BKT (hashv (hh_at m a)) n)"
  define c where "c = ncs ! j"
  have j: "j < length ncs" "j < length nbs" using i ok by (simp_all add: j_def chains_ok_def)
  have c: "chain_ok m n j (nbs ! j) c" using ok j by (simp add: chains_ok_def c_def)
  then have hd: "hh_head (nbs ! j) = hd_opt c" by (simp add: chain_ok_def)
  have cin: "x \<in> in_chains ncs" if "hd_opt c = Some x" for x
    using hd_opt_in_set [OF that] j nth_mem [of j ncs] by (auto simp: in_chains_def c_def)
  have vc: "valid m x" if "x \<in> in_chains ncs" for x
    using in_chains_bucket [OF ok that] ok by (auto simp: chains_ok_def chain_ok_def)
  define m1 where "m1 = set_hh a (\<lambda>h. h\<lparr>hh_prev := None, hh_next := hd_opt c\<rparr>) m"
  define m2 where
    "m2 = (case hd_opt c of None \<Rightarrow> m1 | Some x \<Rightarrow> set_hh x (\<lambda>h. h\<lparr>hh_prev := Some a\<rparr>) m1)"
  define b where "b = (let b = (nbs ! j)\<lparr>bkt_count := bkt_count (nbs ! j) + 1\<rparr> in
     if bkt_count b > ideal \<and> bkt_count b > expand_mult b * ideal
     then b\<lparr>expand_mult := expand_mult b + 1\<rparr> else b)"
  define b' where "b' = b\<lparr>hh_head := Some a\<rparr>"
  have bh: "hh_head b = hd_opt c" by (simp add: b_def hd Let_def)
  have rel1: "relinks {a} m m1"
    unfolding m1_def by (rule relinks_set_hh) (simp_all add: a forget_links_def)
  have rel: "relinks (insert a (in_chains ncs)) m m2"
  proof (cases "hd_opt c")
    case None
    then show ?thesis using relinks_mono [OF rel1] by (simp add: m2_def)
  next
    case (Some x)
    have "relinks (in_chains ncs) m1 (set_hh x (\<lambda>h. h\<lparr>hh_prev := Some a\<rparr>) m1)"
      by (rule relinks_set_hh) (simp_all add: forget_links_def relinks_valid [OF rel1] vc cin Some)
    then have "relinks (in_chains ncs) m1 m2" by (simp add: m2_def Some)
    from relinks_trans [OF rel1 this] show ?thesis by simp
  qed
  obtain ni' where run: "expand_push n ideal a (hh_at m a) (m, nbs, ni) = Ok (m2, nbs[j := b'], ni')"
  proof (cases "hd_opt c")
    case None
    show ?thesis
      by (rule that [of "if bkt_count (nbs ! j) + 1 > ideal then ni + 1 else ni"])
         (simp add: expand_push_def Let_def run_simps j a set_rules j_def [symmetric] hd None m2_def
            m1_def b'_def b_def)
  next
    case (Some x)
    then show ?thesis
      by (intro that [of "if bkt_count (nbs ! j) + 1 > ideal then ni + 1 else ni"])
         (simp add: expand_push_def Let_def run_simps j a set_rules j_def [symmetric] hd Some m2_def
            m1_def b'_def b_def vc cin)
  qed
  have "chains_ok m2 n (nbs[j := b']) (ncs[j := a # ncs ! j])"
  proof (rule chains_push [OF ok j(1) a(2)])
    show "valid m2 a" using relinks_valid [OF rel] a by simp
    show "unat (HASH_TO_BKT (hashv (hh_at m2 a)) n) = j"
      using relinks_hashv [OF rel] by (simp add: j_def)
    have ne: "hd_opt c \<noteq> Some a" using cin a by blast
    show "hh_next (hh_at m2 a) = hd_opt (ncs ! j)" "hh_prev (hh_at m2 a) = None"
      using ne by (auto simp: m2_def m1_def set_rules c_def split: option.split)
    show "hh_head b' = Some a" "bkt_count b' = bkt_count (nbs ! j) + 1"
      by (simp_all add: b'_def b_def Let_def)
    fix x assume x: "x \<in> in_chains ncs"
    then have xa: "x \<noteq> a" using a by auto
    show "valid m2 x \<and> hh_next (hh_at m2 x) = hh_next (hh_at m x) \<and>
        hashv (hh_at m2 x) = hashv (hh_at m x) \<and>
        hh_prev (hh_at m2 x) = (if hd_opt (ncs ! j) = Some x then Some a else hh_prev (hh_at m x))"
      using xa vc [OF x] relinks_valid [OF rel] relinks_hashv [OF rel]
      by (auto simp: m2_def m1_def set_rules c_def split: option.split)
  qed
  moreover have "in_chains (ncs[j := a # ncs ! j]) = insert a (in_chains ncs)"
    using j(1) by (rule in_chains_push)
  ultimately show ?thesis using run rel j
    by (intro exI [of _ m2] exI [of _ "nbs[j := b']"] exI [of _ ni']
          exI [of _ "ncs[j := a # ncs ! j]"]) simp
qed

text \<open>An old chain, node by node: each \<open>hh_next\<close> is read before the node is moved.\<close>

lemma expand_chain_correct:
  assumes "chains_ok m n nbs ncs" and "length ncs = 2 ^ k" and "n = 2 ^ k" and "k < 32"
    and "\<forall>a \<in> set suf. valid m a \<and> hh_next (hh_at m a) = next_in suf a"
    and "distinct suf" and "set suf \<inter> in_chains ncs = {}" and "length suf \<le> f"
  shows "\<exists>m' nbs' ni' ncs'. expand_chain f n ideal (hd_opt suf) (m, nbs, ni) = Ok (m', nbs', ni') \<and>
    chains_ok m' n nbs' ncs' \<and> length ncs' = length ncs \<and>
    in_chains ncs' = set suf \<union> in_chains ncs \<and> relinks (in_chains ncs') m m'"
  using assms
proof (induction suf arbitrary: f m nbs ni ncs)
  case Nil
  then show ?case
    by (intro exI [of _ m] exI [of _ nbs] exI [of _ ni] exI [of _ ncs]) simp
next
  case (Cons a suf)
  obtain f' where f: "f = Suc f'" using Cons.prems(8) by (cases f) auto
  have va: "valid m a" and nx: "hh_next (hh_at m a) = hd_opt suf" using Cons.prems(5) by simp_all
  have ai: "a \<notin> in_chains ncs" using Cons.prems(7) by simp
  have "unat (HASH_TO_BKT (hashv (hh_at m a)) n) < length ncs"
    using Cons.prems by (simp add: HASH_TO_BKT_less)
  from expand_push_correct [OF Cons.prems(1) va ai this]
  obtain m1 nbs1 ni1 ncs1 where
    push: "expand_push n ideal a (hh_at m a) (m, nbs, ni) = Ok (m1, nbs1, ni1)" and
    ok1: "chains_ok m1 n nbs1 ncs1" "length ncs1 = length ncs"
      "in_chains ncs1 = insert a (in_chains ncs)" and rel1: "relinks (in_chains ncs1) m m1"
    by blast
  have dis: "set suf \<inter> in_chains ncs1 = {}" using Cons.prems(6,7) ok1(3) by auto
  have suf: "valid m1 x \<and> hh_next (hh_at m1 x) = next_in suf x" if x: "x \<in> set suf" for x
  proof -
    have "x \<notin> in_chains ncs1" using dis x by auto
    then have "flows m1 x = flows m x" by (rule relinks_outside [OF rel1])
    moreover have "x \<noteq> a" using x Cons.prems(6) by auto
    moreover have "valid m x \<and> hh_next (hh_at m x) = next_in (a # suf) x"
      using Cons.prems(5) x by simp
    ultimately show ?thesis by (simp add: valid_def)
  qed
  from Cons.IH [OF ok1(1), of f' ni1] Cons.prems dis suf ok1(2) f
  obtain m2 nbs2 ni2 ncs2 where
    rest: "expand_chain f' n ideal (hd_opt suf) (m1, nbs1, ni1) = Ok (m2, nbs2, ni2)" and
    ok2: "chains_ok m2 n nbs2 ncs2" "length ncs2 = length ncs1"
      "in_chains ncs2 = set suf \<union> in_chains ncs1" and rel2: "relinks (in_chains ncs2) m1 m2"
    by auto
  have "relinks (in_chains ncs2) m m2"
    using relinks_trans [OF rel1 rel2] ok2(3) by (simp add: Un_absorb1)
  then show ?case
    using f va nx push rest ok2 ok1
    by (intro exI [of _ m2] exI [of _ nbs2] exI [of _ ni2] exI [of _ ncs2]) (simp add: run_simps)
qed

lemma expand_buckets_correct:
  assumes "chains_ok m n nbs ncs" and "length ncs = 2 ^ k" and "n = 2 ^ k" and "k < 32"
    and "mem_wf m" and "distinct is" and "length bs = length cs"
    and "\<forall>i \<in> set is. i < length cs \<and> hh_head (bs ! i) = hd_opt (cs ! i) \<and> distinct (cs ! i) \<and>
      set (cs ! i) \<inter> in_chains ncs = {} \<and>
      (\<forall>a \<in> set (cs ! i). valid m a \<and> hh_next (hh_at m a) = next_in (cs ! i) a)"
    and "\<forall>i \<in> set is. \<forall>j \<in> set is. i \<noteq> j \<longrightarrow> set (cs ! i) \<inter> set (cs ! j) = {}"
  shows "\<exists>m' nbs' ni' ncs'. expand_buckets n ideal bs is (m, nbs, ni) = Ok (m', nbs', ni') \<and>
    chains_ok m' n nbs' ncs' \<and> length ncs' = length ncs \<and>
    in_chains ncs' = (\<Union>i \<in> set is. set (cs ! i)) \<union> in_chains ncs \<and> relinks (in_chains ncs') m m'"
  using assms
proof (induction "is" arbitrary: m nbs ni ncs)
  case Nil
  then show ?case
    by (intro exI [of _ m] exI [of _ nbs] exI [of _ ni] exI [of _ ncs]) simp
next
  case (Cons i js)
  let ?c = "cs ! i"
  have i: "i < length bs" "hh_head (bs ! i) = hd_opt ?c" and c: "distinct ?c"
    "set ?c \<inter> in_chains ncs = {}" "\<forall>a \<in> set ?c. valid m a \<and> hh_next (hh_at m a) = next_in ?c a"
    using Cons.prems(7,8) by simp_all
  have "length ?c \<le> fresh m" using length_le_fresh [OF Cons.prems(5) c(1)] c(3) by simp
  from expand_chain_correct [OF Cons.prems(1-4) c(3,1,2) this, of ideal ni]
  obtain m1 nbs1 ni1 ncs1 where
    chain: "expand_chain (fresh m) n ideal (hd_opt ?c) (m, nbs, ni) = Ok (m1, nbs1, ni1)" and
    ok1: "chains_ok m1 n nbs1 ncs1" "length ncs1 = length ncs"
      "in_chains ncs1 = set ?c \<union> in_chains ncs" and rel1: "relinks (in_chains ncs1) m m1"
    by blast
  have wf1: "mem_wf m1" using Cons.prems(5)
    by (intro touches_mem_wf [OF relinks_touches [OF rel1, of "{}"]]) auto
  have js: "j < length cs \<and> hh_head (bs ! j) = hd_opt (cs ! j) \<and> distinct (cs ! j) \<and>
      set (cs ! j) \<inter> in_chains ncs1 = {} \<and>
      (\<forall>a \<in> set (cs ! j). valid m1 a \<and> hh_next (hh_at m1 a) = next_in (cs ! j) a)"
    if j: "j \<in> set js" for j
  proof -
    have "i \<noteq> j" using j Cons.prems(6) by auto
    then have "set (cs ! i) \<inter> set (cs ! j) = {}" using Cons.prems(9) j by simp
    then have dis: "set (cs ! j) \<inter> in_chains ncs1 = {}"
      using Cons.prems(8) j ok1(3) by auto
    then have "flows m1 a = flows m a" if "a \<in> set (cs ! j)" for a
      using that by (intro relinks_outside [OF rel1]) auto
    then show ?thesis using dis Cons.prems(8) j by (simp add: valid_def)
  qed
  from Cons.IH [OF ok1(1) _ Cons.prems(3,4) wf1 _ Cons.prems(7), of ni1] js Cons.prems ok1(2)
  obtain m2 nbs2 ni2 ncs2 where
    rest: "expand_buckets n ideal bs js (m1, nbs1, ni1) = Ok (m2, nbs2, ni2)" and
    ok2: "chains_ok m2 n nbs2 ncs2" "length ncs2 = length ncs1"
      "in_chains ncs2 = (\<Union>i \<in> set js. set (cs ! i)) \<union> in_chains ncs1"
      "relinks (in_chains ncs2) m1 m2"
    by auto
  have "relinks (in_chains ncs2) m m2"
    using relinks_trans [OF rel1 ok2(4)] ok2(3) by (simp add: Un_absorb1)
  then show ?case
    using i chain rest ok2 ok1
    by (intro exI [of _ m2] exI [of _ nbs2] exI [of _ ni2] exI [of _ ncs2])
       (auto simp add: run_simps)
qed

text \<open>The new array starts with empty chains.\<close>

lemma chains_ok_replicate:
  "chains_ok m n (replicate N zero_bucket) (replicate N [])"
  by (simp add: chains_ok_def chain_ok_def zero_bucket_def)

lemma in_chains_replicate [simp]: "in_chains (replicate N []) = {}"
  by (auto simp: in_chains_def)

lemma in_chains_nth: "in_chains cs = (\<Union>i < length cs. set (cs ! i))"
  unfolding in_chains_def set_conv_nth [of cs] by auto

lemma chains_ok_flows:
  "flows m' = flows m \<Longrightarrow> chains_ok m n bs cs \<Longrightarrow> chains_ok m' n bs cs"
  by (rule chains_ok_cong [where m = m]) (simp_all add: valid_def)

lemma alloc_SomeD:
  "alloc sz m = (Some p, m') \<Longrightarrow>
     p = fresh m \<and> m' = m\<lparr>fresh := Suc (fresh m), budget := budget m - 1\<rparr> \<and>
     budget m > 0 \<and> sz \<le> max_block m"
  by (auto simp: alloc_def split: if_splits)

lemma alloc_NoneD:
  "alloc sz m = (None, m') \<Longrightarrow> m' = m \<and> (budget m = 0 \<or> max_block m < sz)"
  by (auto simp: alloc_def split: if_splits)

lemma mem_wf_alloc: "mem_wf m \<Longrightarrow> alloc sz m = (p, m') \<Longrightarrow> mem_wf m'"
  by (auto simp: alloc_def mem_wf_def split: if_splits)

text \<open>
  \<open>relinked A t m m'\<close>: only the bucket links of nodes in \<open>A\<close> and the table object \<open>t\<close>
  changed.
\<close>

definition relinked :: "addr set \<Rightarrow> addr \<Rightarrow> mem \<Rightarrow> mem \<Rightarrow> bool" where
  "relinked A t m m' \<longleftrightarrow>
     (\<forall>a. a \<notin> A \<longrightarrow> flows m' a = flows m a) \<and>
     (\<forall>a. valid m' a = valid m a \<and> stats_of (flow_at m' a) = stats_of (flow_at m a) \<and>
        forget_links (hh_at m' a) = forget_links (hh_at m a)) \<and>
     (\<forall>s. s \<noteq> t \<longrightarrow> tbls m' s = tbls m s) \<and> fresh m \<le> fresh m' \<and> max_block m' = max_block m"

lemma relinkedI:
  assumes "relinks A m1 m2" and "flows m1 = flows m" and "flows m' = flows m2"
    and "\<And>s. s \<noteq> t \<Longrightarrow> tbls m' s = tbls m s" and "fresh m \<le> fresh m'" and "max_block m' = max_block m"
  shows "relinked A t m m'"
  using assms unfolding relinked_def relinks_def valid_def by metis

lemma relinked_trans: "relinked A t m m' \<Longrightarrow> relinked A t m' m'' \<Longrightarrow> relinked A t m m''"
  by (simp add: relinked_def)

lemma relinked_mono: "relinked A t m m' \<Longrightarrow> A \<subseteq> B \<Longrightarrow> relinked B t m m'"
  unfolding relinked_def by blast

lemma relinked_touches: "relinked A t m m' \<Longrightarrow> touches A {t} m m'"
  by (simp add: relinked_def touches_def)

lemma relinked_handle:
  assumes "relinked A t m m'"
  shows "tbl (hh_at m' a) = tbl (hh_at m a)" "app_prev (hh_at m' a) = app_prev (hh_at m a)"
    "app_next (hh_at m' a) = app_next (hh_at m a)" "keyptr (hh_at m' a) = keyptr (hh_at m a)"
    "keylen (hh_at m' a) = keylen (hh_at m a)" "hashv (hh_at m' a) = hashv (hh_at m a)"
  using assms forget_linksD unfolding relinked_def by blast+

lemma relinked_app_ok: "relinked A t m m' \<Longrightarrow> app_ok m s xs \<Longrightarrow> app_ok m' s xs"
  by (rule app_ok_cong [where m = m])
     (simp_all add: relinked_handle touches_valid [OF relinked_touches])

lemma relinked_keys_ok: "relinked A t m m' \<Longrightarrow> keys_ok m xs \<Longrightarrow> keys_ok m' xs"
  by (rule keys_ok_cong [where m = m])
     (simp_all add: relinked_handle touches_key [OF relinked_touches])

definition buckets_ok :: "mem \<Rightarrow> addr \<Rightarrow> addr list list \<Rightarrow> bool" where
  "buckets_ok m t cs \<longleftrightarrow>
     tvalid m t \<and>
     (\<exists>k < 32. num_buckets (tbl_at m t) = 2 ^ k \<and> log2_num_buckets (tbl_at m t) = of_nat k \<and>
        length cs = 2 ^ k) \<and>
     chains_ok m (num_buckets (tbl_at m t)) (buckets (tbl_at m t)) cs"

lemma table_ok_buckets_ok:
  "table_ok m t xs cs \<longleftrightarrow>
     buckets_ok m t cs \<and> num_items (tbl_at m t) = of_nat (length xs) \<and>
     tail (tbl_at m t) = last_opt xs \<and> app_ok m t xs \<and> in_chains cs = set xs \<and> keys_ok m xs"
  by (auto simp: table_ok_def buckets_ok_def)

lemma chains_disjoint:
  assumes "chains_ok m n bs cs" and "i < length cs" and "j < length cs" and "i \<noteq> j"
  shows "set (cs ! i) \<inter> set (cs ! j) = {}"
  using in_chain_bucket [OF assms(1,2)] in_chain_bucket [OF assms(1,3)] assms(4) by auto

lemma HASH_EXPAND_BUCKETS_correct:
  assumes ok: "buckets_ok m t cs" and wf: "mem_wf m"
  shows "safe (\<lambda>c. c = -1 \<and> (budget m = 0 \<or> max_block m < 32 * unat (num_buckets (tbl_at m t))))
    (\<lambda>m'. \<exists>cs'. buckets_ok m' t cs' \<and> in_chains cs' = in_chains cs \<and>
       num_items (tbl_at m' t) = num_items (tbl_at m t) \<and>
       tail (tbl_at m' t) = tail (tbl_at m t) \<and> relinked (in_chains cs) t m m' \<and>
       num_buckets (tbl_at m' t) = num_buckets (tbl_at m t) * 2)
    (HASH_EXPAND_BUCKETS (Some t) m)"
proof -
  define T where "T = tbl_at m t"
  define n where "n = num_buckets T"
  obtain k where k: "k < 32" "n = 2 ^ k" "log2_num_buckets T = of_nat k" "length cs = 2 ^ k"
    and tv: "tvalid m t" and chains: "chains_ok m n (buckets T) cs"
    using ok by (auto simp: buckets_ok_def T_def n_def)
  have un: "unat n = 2 ^ k" using k by (simp add: unat_pow2)
  obtain p m0 where al: "alloc (sizeof_UT_hash_bucket * unat n * 2) m = (p, m0)" by fastforce
  show ?thesis
  proof (cases p)
    case None
    then show ?thesis using alloc_NoneD [of _ m m0] al tv
      by (auto simp: HASH_EXPAND_BUCKETS_def run_simps T_def [symmetric] n_def [symmetric]
          sizeof_UT_hash_bucket_def mult.commute)
  next
    case (Some q)
    then have m0: "m0 = m\<lparr>fresh := Suc (fresh m), budget := budget m - 1\<rparr>"
      and fits: "32 * 2 ^ k \<le> max_block m"
      using alloc_SomeD al by (auto simp: sizeof_UT_hash_bucket_def un)
    have "(2::nat) ^ k < 2 ^ 31" using fits wf by (simp add: mem_wf_def)
    then have "k < 31" by (rule power_less_imp_less_exp [rotated]) simp
    then have k31: "Suc k < 32" by simp
    have n2: "n * 2 = 2 ^ Suc k" using k by simp
    define ideal where "ideal = drop_bit (unat (log2_num_buckets T + 1)) (num_items T) +
       (if num_items T AND (n * 2 - 1) \<noteq> 0 then 1 else 0)"
    define g where "g = (\<lambda>T::UT_hash_table. T\<lparr>ideal_chain_maxlen := ideal, nonideal_items := 0\<rparr>)"
    define m1 where "m1 = set_tbl t g m0"
    have f1: "flows m1 = flows m" by (simp add: m1_def m0)
    have wf1: "mem_wf m1"
      using wf mem_wf_tfresh [OF wf tv] by (auto simp: mem_wf_def m1_def m0 set_tbl_def)
    have tv0: "tvalid m0 t" using tv by (simp add: tvalid_def m0)
    let ?N = "2 ^ Suc k :: nat"
    have "\<exists>m2 nbs ni ncs. expand_buckets (n * 2) ideal (buckets T) [0..<unat n]
            (m1, replicate ?N zero_bucket, 0) = Ok (m2, nbs, ni) \<and>
        chains_ok m2 (n * 2) nbs ncs \<and> length ncs = length (replicate ?N ([]::addr list)) \<and>
        in_chains ncs = (\<Union>i \<in> set [0..<unat n]. set (cs ! i)) \<union> in_chains (replicate ?N []) \<and>
        relinks (in_chains ncs) m1 m2"
    proof (rule expand_buckets_correct [OF chains_ok_replicate _ n2 k31 wf1])
      have "chain_ok m n i (buckets T ! i) (cs ! i)" if "i < length cs" for i
        using chains that by (simp add: chains_ok_def)
      then show "\<forall>i \<in> set [0..<unat n]. i < length cs \<and> hh_head (buckets T ! i) = hd_opt (cs ! i) \<and>
          distinct (cs ! i) \<and> set (cs ! i) \<inter> in_chains (replicate ?N []) = {} \<and>
          (\<forall>a \<in> set (cs ! i). valid m1 a \<and> hh_next (hh_at m1 a) = next_in (cs ! i) a)"
        using un k by (simp add: chain_ok_def valid_def f1)
      show "\<forall>i \<in> set [0..<unat n]. \<forall>j \<in> set [0..<unat n]. i \<noteq> j \<longrightarrow> set (cs ! i) \<inter> set (cs ! j) = {}"
        using chains_disjoint [OF chains] un k by simp
    qed (use chains in \<open>auto simp: chains_ok_def\<close>)
    then obtain m2 nbs ni ncs where
      run: "expand_buckets (n * 2) ideal (buckets T) [0..<unat n]
            (m1, replicate ?N zero_bucket, 0) = Ok (m2, nbs, ni)"
      and ok2: "chains_ok m2 (n * 2) nbs ncs" "length ncs = ?N" "relinks (in_chains ncs) m1 m2"
      and inc': "in_chains ncs = (\<Union>i \<in> set [0..<unat n]. set (cs ! i))"
      unfolding length_replicate in_chains_replicate Un_empty_right by blast
    have inc: "in_chains ncs = in_chains cs"
      unfolding inc' in_chains_nth [of cs] un k(4) by (simp add: lessThan_atLeast0)
    define g' where "g' = (\<lambda>T'::UT_hash_table. T'\<lparr>nonideal_items := ni,
       num_buckets := num_buckets T' * 2, log2_num_buckets := log2_num_buckets T' + 1,
       buckets := nbs,
       ineff_expands := (if ni > drop_bit 1 (num_items T) then ineff_expands T + 1 else 0),
       noexpand := (if (if ni > drop_bit 1 (num_items T) then ineff_expands T + 1 else 0) > 1
                    then 1 else noexpand T')\<rparr>)"
    define m3 where "m3 = set_tbl t g' m2"
    have t2: "tbls m2 = tbls m1" using ok2(3) by (simp add: relinks_def)
    have tv2: "tvalid m2 t" by (simp add: tvalid_def t2 m1_def)
    have res: "HASH_EXPAND_BUCKETS (Some t) m = Ok m3"
      using al Some tv tv0 tv2 run un
      by (simp add: HASH_EXPAND_BUCKETS_def run_simps Let_def T_def [symmetric] n_def [symmetric]
          ideal_def [symmetric] g_def [symmetric] m1_def [symmetric] g'_def m3_def mult.commute)
    have T3: "tbl_at m3 t = g' (g T)"
      by (simp add: m3_def set_rules t2 m1_def m0 T_def)
    have f3: "flows m3 = flows m2" by (simp add: m3_def)
    have "buckets_ok m3 t ncs"
      unfolding buckets_ok_def T3
    proof (intro conjI)
      show "tvalid m3 t" by (simp add: m3_def set_rules)
      show "chains_ok m3 (num_buckets (g' (g T))) (buckets (g' (g T))) ncs"
        using chains_ok_flows [OF f3 ok2(1)] by (simp add: g'_def g_def n_def)
      show "\<exists>ka<32. num_buckets (g' (g T)) = 2 ^ ka \<and>
          log2_num_buckets (g' (g T)) = word_of_nat ka \<and> length ncs = 2 ^ ka"
        using k31 n2 k ok2(2) by (intro exI [of _ "Suc k"]) (simp add: g'_def g_def n_def T_def)
    qed
    moreover have "relinked (in_chains cs) t m m3"
      by (rule relinkedI [OF ok2(3) [unfolded inc] f1 f3])
         (use ok2(3) in \<open>auto simp: m3_def t2 m1_def m0 relinks_def\<close>)
    ultimately show ?thesis
      unfolding res by (intro safe_simps(1) [THEN iffD2] exI [of _ ncs])
        (simp add: inc T3 g'_def g_def T_def)
  qed
qed

section \<open>Adding to a bucket\<close>

definition set_bucket ::
  "addr \<Rightarrow> nat \<Rightarrow> (UT_hash_bucket \<Rightarrow> UT_hash_bucket) \<Rightarrow> mem \<Rightarrow> mem" where
  "set_bucket t i g m = set_tbl t (\<lambda>T. T\<lparr>buckets := (buckets T)[i := g (buckets T ! i)]\<rparr>) m"

lemma upd_bucket_of_valid [run_simps]:
  "tvalid m t \<Longrightarrow> i < length (buckets (tbl_at m t)) \<Longrightarrow>
     upd_bucket_of (Some t) i g m = Ok (set_bucket t i g m)"
  by (simp add: upd_bucket_of_def run_simps set_bucket_def set_tbl_def)

lemma load_bucket_of_valid [run_simps]:
  "tvalid m t \<Longrightarrow> i < length (buckets (tbl_at m t)) \<Longrightarrow>
     load_bucket_of (Some t) i m = Ok (buckets (tbl_at m t) ! i)"
  by (simp add: load_bucket_of_def run_simps)

lemma load_tbl_of_valid [run_simps]:
  "valid m a \<Longrightarrow> tbl (hh_at m a) = Some t \<Longrightarrow> tvalid m t \<Longrightarrow>
     load_tbl_of (Some a) m = Ok (tbl_at m t)"
  by (simp add: load_tbl_of_def run_simps)

lemma upd_tbl_of_valid [run_simps]:
  "valid m a \<Longrightarrow> tbl (hh_at m a) = Some t \<Longrightarrow> tvalid m t \<Longrightarrow>
     upd_tbl_of (Some a) g m = Ok (set_tbl t g m)"
  by (simp add: upd_tbl_of_def run_simps)

lemma set_bucket_simps [simp]:
  "flows (set_bucket t i g m) = flows m" "fresh (set_bucket t i g m) = fresh m"
  "budget (set_bucket t i g m) = budget m" "max_block (set_bucket t i g m) = max_block m"
  "valid (set_bucket t i g m) = valid m"
  "s \<noteq> t \<Longrightarrow> tbls (set_bucket t i g m) s = tbls m s"
  by (simp_all add: set_bucket_def)

lemma tvalid_set_bucket: "tvalid (set_bucket t i g m) s \<longleftrightarrow> s = t \<or> tvalid m s"
  by (simp add: set_bucket_def tvalid_set_tbl)

lemma tbl_at_set_bucket:
  "tbl_at (set_bucket t i g m) s =
     (if s = t then (tbl_at m t)\<lparr>buckets := (buckets (tbl_at m t))[i := g (buckets (tbl_at m t) ! i)]\<rparr>
      else tbl_at m s)"
  by (simp add: set_bucket_def set_rules)

lemmas bucket_rules = tvalid_set_bucket tbl_at_set_bucket

text \<open>The links after pushing node \<open>a\<close> in front of a chain with head \<open>p\<close>.\<close>

definition push_links :: "addr \<Rightarrow> ptr \<Rightarrow> mem \<Rightarrow> mem" where
  "push_links a p m =
     (let m = set_hh a (\<lambda>h. h\<lparr>hh_next := p, hh_prev := None\<rparr>) m in
      case p of None \<Rightarrow> m | Some x \<Rightarrow> set_hh x (\<lambda>h. h\<lparr>hh_prev := Some a\<rparr>) m)"

lemma push_links_simps [simp]:
  "tbls (push_links a p m) = tbls m" "fresh (push_links a p m) = fresh m"
  "budget (push_links a p m) = budget m" "max_block (push_links a p m) = max_block m"
  "tvalid (push_links a p m) = tvalid m"
  by (simp_all add: push_links_def Let_def split: option.split)

lemma relinks_push_links:
  assumes "valid m a" and "\<And>x. p = Some x \<Longrightarrow> valid m x"
  shows "relinks (insert a (set_option p)) m (push_links a p m)"
proof -
  define m1 where "m1 = set_hh a (\<lambda>h. h\<lparr>hh_next := p, hh_prev := None\<rparr>) m"
  have r: "relinks {a} m m1"
    unfolding m1_def by (rule relinks_set_hh) (simp_all add: assms forget_links_def)
  show ?thesis
  proof (cases p)
    case None
    then show ?thesis using r by (simp add: push_links_def m1_def)
  next
    case (Some x)
    have "relinks {x} m1 (set_hh x (\<lambda>h. h\<lparr>hh_prev := Some a\<rparr>) m1)"
      by (rule relinks_set_hh) (simp_all add: forget_links_def relinks_valid [OF r] assms Some)
    from relinks_trans [OF r this] show ?thesis
      by (simp add: push_links_def m1_def Some Let_def insert_commute)
  qed
qed

lemma push_links_handle:
  assumes "p \<noteq> Some a"
  shows "hh_next (hh_at (push_links a p m) a) = p" "hh_prev (hh_at (push_links a p m) a) = None"
    "x \<noteq> a \<Longrightarrow> hh_next (hh_at (push_links a p m) x) = hh_next (hh_at m x)"
    "x \<noteq> a \<Longrightarrow> hh_prev (hh_at (push_links a p m) x) = (if p = Some x then Some a else hh_prev (hh_at m x))"
  using assms by (auto simp: push_links_def set_rules Let_def split: option.split)

lemma buckets_ok_push:
  assumes ok: "buckets_ok m t cs" and a: "valid m a" "a \<notin> in_chains cs"
    and i: "i = unat (HASH_TO_BKT (hashv (hh_at m a)) (num_buckets (tbl_at m t)))"
    and f: "flows m' = flows (push_links a (hd_opt (cs ! i)) m)"
    and T: "tvalid m' t" "tbl_at m' t = (tbl_at m t)\<lparr>buckets := (buckets (tbl_at m t))[i := b']\<rparr>"
    and b': "hh_head b' = Some a" "bkt_count b' = bkt_count (buckets (tbl_at m t) ! i) + 1"
  shows "buckets_ok m' t (cs[i := a # cs ! i])"
proof -
  define n where "n = num_buckets (tbl_at m t)"
  obtain k where k: "k < 32" "n = 2 ^ k" "length cs = 2 ^ k"
    and ch: "chains_ok m n (buckets (tbl_at m t)) cs"
    using ok by (auto simp: buckets_ok_def n_def)
  have il: "i < length cs" using HASH_TO_BKT_less k by (simp add: i n_def [symmetric])
  have hdin: "x \<in> in_chains cs" if "hd_opt (cs ! i) = Some x" for x
    using hd_opt_in_set [OF that] nth_mem [OF il] by (auto simp: in_chains_def)
  have vc: "valid m x" if "x \<in> in_chains cs" for x
    using in_chains_bucket [OF ch that] ch by (auto simp: chains_ok_def chain_ok_def)
  define m1 where "m1 = push_links a (hd_opt (cs ! i)) m"
  have rel: "relinks (insert a (set_option (hd_opt (cs ! i)))) m m1"
    unfolding m1_def by (rule relinks_push_links) (use a vc hdin in auto)
  have ne: "hd_opt (cs ! i) \<noteq> Some a" using hdin a by auto
  have "chains_ok m1 n ((buckets (tbl_at m t))[i := b']) (cs[i := a # cs ! i])"
  proof (rule chains_push [OF ch il a(2)])
    show "valid m1 a" using relinks_valid [OF rel] a by simp
    show "unat (HASH_TO_BKT (hashv (hh_at m1 a)) n) = i"
      using relinks_hashv [OF rel] by (simp add: i n_def)
    show "hh_next (hh_at m1 a) = hd_opt (cs ! i)" "hh_prev (hh_at m1 a) = None"
      unfolding m1_def by (rule push_links_handle [OF ne])+
    fix x assume x: "x \<in> in_chains cs"
    then have xa: "x \<noteq> a" using a by auto
    note h = push_links_handle(3,4) [OF ne xa, of m, folded m1_def]
    show "valid m1 x \<and> hh_next (hh_at m1 x) = hh_next (hh_at m x) \<and>
        hashv (hh_at m1 x) = hashv (hh_at m x) \<and>
        hh_prev (hh_at m1 x) = (if hd_opt (cs ! i) = Some x then Some a else hh_prev (hh_at m x))"
      unfolding relinks_valid [OF rel] relinks_hashv [OF rel] h using vc [OF x] by (intro conjI refl)
  qed (use b' in simp_all)
  then have "chains_ok m' n ((buckets (tbl_at m t))[i := b']) (cs[i := a # cs ! i])"
    by (rule chains_ok_flows [rotated]) (simp add: f m1_def)
  then show ?thesis using T k ok unfolding buckets_ok_def n_def by simp
qed

end
