(* ===== verification/Uthash_Add.thy ===== *)
theory Uthash_Add
  imports Uthash_Expand
begin

text \<open>
  \<open>HASH_ADD\<close>: the element is appended to the list in insertion order, pushed on its bucket
  chain, and the bucket array is doubled when the chain has become long.
\<close>

section \<open>HASH_ADD_TO_BKT\<close>

lemma valid_flows: "flows m' = flows m \<Longrightarrow> valid m' a = valid m a"
  by (simp add: valid_def)

text \<open>
  \<open>expand_fails m t i\<close>: adding to bucket \<open>i\<close> of table \<open>t\<close> triggers an expansion whose
  allocation fails.
\<close>

definition expand_fails :: "mem \<Rightarrow> addr \<Rightarrow> nat \<Rightarrow> bool" where
  "expand_fails m t i \<longleftrightarrow>
     (let b = buckets (tbl_at m t) ! i in
      bkt_count b + 1 \<ge> (expand_mult b + 1) * HASH_BKT_CAPACITY_THRESH) \<and>
     (budget m = 0 \<or> max_block m < 32 * unat (num_buckets (tbl_at m t)))"

lemma HASH_ADD_TO_BKT_correct:
  assumes ok: "buckets_ok m t cs" and wf: "mem_wf m" and a: "valid m a" "a \<notin> in_chains cs"
    and at: "tbl (hh_at m a) = Some t"
    and i: "i = unat (HASH_TO_BKT (hashv (hh_at m a)) (num_buckets (tbl_at m t)))"
  shows "safe (\<lambda>c. c = -1 \<and> expand_fails m t i)
    (\<lambda>m'. \<exists>cs'. buckets_ok m' t cs' \<and> in_chains cs' = insert a (in_chains cs) \<and>
       num_items (tbl_at m' t) = num_items (tbl_at m t) \<and>
       tail (tbl_at m' t) = tail (tbl_at m t) \<and> relinked (insert a (in_chains cs)) t m m')
    (HASH_ADD_TO_BKT (Some t) i (Some a) m)"
proof -
  define T where "T = tbl_at m t"
  define n where "n = num_buckets T"
  obtain k where k: "k < 32" "n = 2 ^ k" "length cs = 2 ^ k"
    and tv: "tvalid m t" and ch: "chains_ok m n (buckets T) cs"
    using ok by (auto simp: buckets_ok_def n_def T_def)
  have il: "i < length cs" "i < length (buckets T)"
    using HASH_TO_BKT_less k ch by (auto simp: i n_def [symmetric] T_def [symmetric] chains_ok_def)
  have c: "chain_ok m n i (buckets T ! i) (cs ! i)" using ch il by (simp add: chains_ok_def)
  then have hd: "hh_head (buckets T ! i) = hd_opt (cs ! i)" by (simp add: chain_ok_def)
  have hdv: "valid m x \<and> x \<in> in_chains cs" if "hd_opt (cs ! i) = Some x" for x
    using c hd_opt_in_set [OF that] nth_mem [OF il(1)] by (auto simp: chain_ok_def in_chains_def)
  define m1 where "m1 = set_bucket t i (\<lambda>b. b\<lparr>bkt_count := bkt_count b + 1\<rparr>) m"
  define m2 where "m2 = push_links a (hd_opt (cs ! i)) m1"
  define m3 where "m3 = set_bucket t i (\<lambda>b. b\<lparr>hh_head := Some a\<rparr>) m2"
  define b' where "b' = (buckets T ! i)\<lparr>bkt_count := bkt_count (buckets T ! i) + 1, hh_head := Some a\<rparr>"
  have v1: "valid m1 = valid m" "tvalid m1 t" by (simp_all add: m1_def tvalid_set_bucket)
  have rel: "relinks (insert a (in_chains cs)) m1 m2"
    unfolding m2_def
    by (rule relinks_mono [OF relinks_push_links]) (use a hdv v1 in auto)
  have T3: "tvalid m3 t" "tbl_at m3 t = T\<lparr>buckets := (buckets T)[i := b']\<rparr>"
    using il by (simp_all add: m3_def m2_def m1_def bucket_rules T_def b'_def)
  have f3: "flows m3 = flows m2" by (simp add: m3_def)
  have f12: "flows m2 = flows (push_links a (hd_opt (cs ! i)) m)"
    by (simp add: m2_def m1_def push_links_def set_hh_def set_flow_def Let_def split: option.split)
  have v3: "valid m3 a" using relinks_valid [OF rel] v1 a by (simp add: valid_flows [OF f3])
  have at3: "tbl (hh_at m3 a) = Some t" using relinks_handle(1) [OF rel] at by (simp add: f3 m1_def)
  have ok3: "buckets_ok m3 t (cs[i := a # cs ! i])"
    by (rule buckets_ok_push [OF ok a i _ T3(1), where b' = b'])
       (use T3(2) in \<open>simp_all add: f3 f12 T_def b'_def\<close>)
  have in3: "in_chains (cs[i := a # cs ! i]) = insert a (in_chains cs)"
    using il(1) by (rule in_chains_push)
  have fr3: "fresh m3 = fresh m" "budget m3 = budget m" "max_block m3 = max_block m"
    by (simp_all add: m3_def m2_def m1_def)
  have rel3: "relinked (insert a (in_chains cs)) t m m3"
    by (rule relinkedI [OF rel]) (simp_all add: f3 fr3, simp_all add: m1_def m2_def m3_def)
  have wf3: "mem_wf m3"
    by (rule touches_mem_wf [OF relinked_touches [OF rel3] wf])
       (use mem_wf_tfresh [OF wf tv] fr3 in auto)
  have B1: "buckets (tbl_at m1 t) ! i = (buckets T ! i)\<lparr>bkt_count := bkt_count (buckets T ! i) + 1\<rparr>"
    "length (buckets (tbl_at m1 t)) = length (buckets T)"
    using il by (simp_all add: m1_def bucket_rules T_def)
  have st1: "upd_bucket_of (Some t) i (\<lambda>b. b\<lparr>bkt_count := bkt_count b + 1\<rparr>) m = Ok m1"
    using tv il by (simp add: run_simps m1_def T_def)
  define b1 where "b1 = buckets (tbl_at m1 t) ! i"
  have b1: "hh_head b1 = hd_opt (cs ! i)" by (simp add: b1_def B1 hd)
  have st2: "seq (upd_hh (Some a) (\<lambda>h. h\<lparr>hh_next := hd_opt (cs ! i)\<rparr>) m1) (\<lambda>m.
      seq (upd_hh (Some a) (\<lambda>h. h\<lparr>hh_prev := None\<rparr>) m) (\<lambda>m.
      seq (if cs ! i \<noteq> []
           then upd_hh (hh_head b1) (\<lambda>h. h\<lparr>hh_prev := Some a\<rparr>) m else Ok m) K)) = K m2" for K
    using a hdv v1 b1
    by (cases "cs ! i") (simp_all add: run_simps set_rules m2_def push_links_def)
  have T2: "tvalid m2 t" "tbl_at m2 t = tbl_at m1 t" using v1 by (simp_all add: m2_def)
  have st3: "upd_bucket_of (Some t) i (\<lambda>b. b\<lparr>hh_head := Some a\<rparr>) m2 = Ok m3"
    using T2 B1 il by (simp add: run_simps m3_def)
  have run: "HASH_ADD_TO_BKT (Some t) i (Some a) m =
    (if bkt_count (buckets T ! i) + 1 \<ge> (expand_mult (buckets T ! i) + 1) * HASH_BKT_CAPACITY_THRESH
        \<and> noexpand T = 0 then HASH_EXPAND_BUCKETS (Some t) m3 else Ok m3)"
    unfolding HASH_ADD_TO_BKT_def st1
    using v1 il T3 v3 at3 b1
    by (simp add: run_simps st2 st3 b'_def B1(2) b1_def [symmetric] del: not_None_eq)
  show ?thesis
  proof (cases "bkt_count (buckets T ! i) + 1 \<ge>
      (expand_mult (buckets T ! i) + 1) * HASH_BKT_CAPACITY_THRESH \<and> noexpand T = 0")
    case True
    then have "HASH_ADD_TO_BKT (Some t) i (Some a) m = HASH_EXPAND_BUCKETS (Some t) m3"
      using run by simp
    moreover have "expand_fails m t i" if "budget m3 = 0 \<or> max_block m3 < 32 * unat (num_buckets (tbl_at m3 t))"
      using that True fr3 T3 by (simp add: expand_fails_def Let_def T_def)
    moreover have N3: "num_items (tbl_at m3 t) = num_items (tbl_at m t)"
      "tail (tbl_at m3 t) = tail (tbl_at m t)"
      by (simp_all add: T3 T_def)
    ultimately show ?thesis
      using HASH_EXPAND_BUCKETS_correct [OF ok3 wf3, unfolded in3]
      by (elim ssubst safe_mono) (simp, metis relinked_trans [OF rel3] N3)
  next
    case False
    then have "HASH_ADD_TO_BKT (Some t) i (Some a) m = Ok m3" using run by (simp only: if_False)
    then show ?thesis using ok3 in3 rel3 T3
      by (simp only: safe_simps, intro exI [of _ "cs[i := a # cs ! i]"]) (simp add: T_def)
  qed
qed

section \<open>HASH_ADD_TO_TABLE\<close>

text \<open>
  \<open>linked m t zs a cs\<close>: \<open>a\<close> is an element of the list \<open>zs\<close> of table \<open>t\<close>, but it is not yet counted
  and not yet on a bucket chain.
\<close>

definition linked :: "mem \<Rightarrow> addr \<Rightarrow> addr list \<Rightarrow> addr \<Rightarrow> addr list list \<Rightarrow> bool" where
  "linked m t zs a cs \<longleftrightarrow>
     app_ok m t zs \<and> keys_ok m zs \<and> buckets_ok m t cs \<and> a \<in> set zs \<and>
     in_chains cs = set zs - {a} \<and> num_items (tbl_at m t) + 1 = of_nat (length zs) \<and>
     tail (tbl_at m t) = last_opt zs"

definition add_bucket :: "mem \<Rightarrow> addr \<Rightarrow> addr \<Rightarrow> nat" where
  "add_bucket m t a = unat (HASH_TO_BKT (hashv (hh_at m a)) (num_buckets (tbl_at m t)))"

lemma buckets_ok_set_tbl:
  "buckets_ok m t cs \<Longrightarrow> buckets_ok (set_tbl t (\<lambda>T. T\<lparr>num_items := f T\<rparr>) m) t cs"
  by (auto simp: buckets_ok_def set_rules intro!: chains_ok_flows [where m = m])

lemma HASH_ADD_TO_TABLE_correct:
  assumes l: "linked m t zs a cs" and wf: "mem_wf m" and x: "x \<in> set zs"
  shows "safe (\<lambda>c. c = -1 \<and> expand_fails m t (add_bucket m t a))
    (\<lambda>m'. (\<exists>cs'. table_ok m' t zs cs') \<and> relinked (set zs) t m m')
    (HASH_ADD_TO_TABLE (Some x) (hashv (hh_at m a)) (Some a) m)"
proof -
  have app: "app_ok m t zs" and keys: "keys_ok m zs" and ok: "buckets_ok m t cs"
    and inc: "in_chains cs = set zs - {a}" "a \<in> set zs" and num: "num_items (tbl_at m t) + 1 = of_nat (length zs)"
    and tl: "tail (tbl_at m t) = last_opt zs"
    using l by (simp_all add: linked_def)
  have ins: "insert a (in_chains cs) = set zs" using inc by auto
  have xa: "valid m x" "tbl (hh_at m x) = Some t" and va: "valid m a" "tbl (hh_at m a) = Some t"
    "a \<notin> in_chains cs"
    using app x inc by (auto simp: app_ok_def)
  have tv: "tvalid m t" using ok by (simp add: buckets_ok_def)
  define m1 where "m1 = set_tbl t (\<lambda>T. T\<lparr>num_items := num_items T + 1\<rparr>) m"
  have ok1: "buckets_ok m1 t cs" unfolding m1_def by (rule buckets_ok_set_tbl [OF ok])
  have f1: "flows m1 = flows m" and tv1: "tvalid m1 t" by (simp_all add: m1_def set_rules)
  have T1: "tbl_at m1 t = (tbl_at m t)\<lparr>num_items := num_items (tbl_at m t) + 1\<rparr>"
    by (simp add: m1_def set_rules)
  have rel1: "relinked (set zs) t m m1"
    by (rule relinkedI [OF relinks_refl refl f1]) (simp_all add: m1_def)
  have wf1: "mem_wf m1"
    by (rule touches_mem_wf [OF relinked_touches [OF rel1] wf]) (use mem_wf_tfresh [OF wf tv] in \<open>simp add: m1_def\<close>)
  define i where "i = unat (HASH_TO_BKT (hashv (hh_at m1 a)) (num_buckets (tbl_at m1 t)))"
  have ib: "i = add_bucket m t a" by (simp add: i_def add_bucket_def f1 T1)
  have run: "HASH_ADD_TO_TABLE (Some x) (hashv (hh_at m a)) (Some a) m =
      HASH_ADD_TO_BKT (Some t) i (Some a) m1"
    using xa tv tv1 valid_flows [OF f1]
    by (simp add: HASH_ADD_TO_TABLE_def run_simps m1_def [symmetric] f1 i_def T1)
  have fails: "expand_fails m1 t i \<longleftrightarrow> expand_fails m t i"
    by (simp add: expand_fails_def T1 m1_def)
  have "safe (\<lambda>c. c = -1 \<and> expand_fails m1 t i)
    (\<lambda>m'. \<exists>cs'. buckets_ok m' t cs' \<and> in_chains cs' = insert a (in_chains cs) \<and>
       num_items (tbl_at m' t) = num_items (tbl_at m1 t) \<and>
       tail (tbl_at m' t) = tail (tbl_at m1 t) \<and> relinked (insert a (in_chains cs)) t m1 m')
    (HASH_ADD_TO_BKT (Some t) i (Some a) m1)"
    by (rule HASH_ADD_TO_BKT_correct [OF ok1 wf1 _ _ _ i_def])
       (use va f1 valid_flows [OF f1] in auto)
  then show ?thesis unfolding run ib [symmetric]
  proof (rule safe_mono)
    fix m' assume "\<exists>cs'. buckets_ok m' t cs' \<and> in_chains cs' = insert a (in_chains cs) \<and>
       num_items (tbl_at m' t) = num_items (tbl_at m1 t) \<and>
       tail (tbl_at m' t) = tail (tbl_at m1 t) \<and> relinked (insert a (in_chains cs)) t m1 m'"
    then obtain cs' where r: "buckets_ok m' t cs'" "in_chains cs' = set zs"
      "num_items (tbl_at m' t) = of_nat (length zs)" "tail (tbl_at m' t) = last_opt zs"
      "relinked (set zs) t m1 m'"
      by (auto simp: ins T1 num tl)
    have rel: "relinked (set zs) t m m'" by (rule relinked_trans [OF rel1 r(5)])
    have "table_ok m' t zs cs'"
      using r relinked_app_ok [OF rel app] relinked_keys_ok [OF rel keys]
      by (auto simp: table_ok_def buckets_ok_def)
    then show "(\<exists>cs'. table_ok m' t zs cs') \<and> relinked (set zs) t m m'"
      using rel by blast
  qed (simp add: fails)
qed

section \<open>Linking the new element\<close>

lemma app_ok_snoc:
  assumes app: "app_ok m t xs" and a: "a \<notin> set xs"
    and na: "valid m' a" "tbl (hh_at m' a) = Some t" "app_next (hh_at m' a) = None"
      "app_prev (hh_at m' a) = last_opt xs"
    and eq: "\<And>b. b \<in> set xs \<Longrightarrow> valid m' b \<and> tbl (hh_at m' b) = tbl (hh_at m b) \<and>
      app_prev (hh_at m' b) = app_prev (hh_at m b) \<and>
      app_next (hh_at m' b) = (if Some b = last_opt xs then Some a else app_next (hh_at m b))"
  shows "app_ok m' t (xs @ [a])"
proof -
  have d: "distinct (xs @ [a])" using app a by (simp add: app_ok_def)
  have "valid m' b \<and> tbl (hh_at m' b) = Some t \<and> app_next (hh_at m' b) = next_in (xs @ [a]) b \<and>
      app_prev (hh_at m' b) = prev_in (xs @ [a]) b" if b: "b \<in> set (xs @ [a])" for b
  proof (cases "b = a")
    case True
    then show ?thesis using na d by (simp add: link_simps)
  next
    case False
    then have bx: "b \<in> set xs" using b by simp
    have "tbl (hh_at m b) = Some t \<and> app_next (hh_at m b) = next_in xs b \<and>
        app_prev (hh_at m b) = prev_in xs b"
      using app bx unfolding app_ok_def by blast
    then show ?thesis
      using eq [OF bx] False by (simp add: next_in_snoc [OF d] prev_in_snoc [OF d])
  qed
  then show ?thesis using d unfolding app_ok_def by blast
qed

lemma keys_ok_snoc:
  assumes "keys_ok m xs" and "key_at m a \<notin> key_at m ` set xs" and "\<And>b. key_at m' b = key_at m b"
    and "keyptr (hh_at m' a) = Some a" "keylen (hh_at m' a) = 16"
      "hashv (hh_at m' a) = hash_key (key_at m a)"
    and "\<And>b. b \<in> set xs \<Longrightarrow> keyptr (hh_at m' b) = keyptr (hh_at m b) \<and>
      keylen (hh_at m' b) = keylen (hh_at m b) \<and> hashv (hh_at m' b) = hashv (hh_at m b)"
  shows "keys_ok m' (xs @ [a])"
  using assms by (auto simp: keys_ok_def inj_on_def image_iff)

text \<open>The writes of \<open>HASH_ADD_KEYPTR_BYHASHVALUE\<close> and \<open>HASH_APPEND_LIST\<close> to the new element.\<close>

definition new_handle :: "addr \<Rightarrow> u32 \<Rightarrow> ptr \<Rightarrow> ptr \<Rightarrow> UT_hash_handle \<Rightarrow> UT_hash_handle" where
  "new_handle a hv t p h =
     h\<lparr>hashv := hv, keyptr := Some a, keylen := 16, tbl := t, app_next := None, app_prev := p\<rparr>"

definition append_mem :: "addr \<Rightarrow> addr \<Rightarrow> addr \<Rightarrow> u32 \<Rightarrow> mem \<Rightarrow> mem" where
  "append_mem t z a hv m =
     set_tbl t (\<lambda>T. T\<lparr>tail := Some a\<rparr>)
       (set_hh z (\<lambda>h. h\<lparr>app_next := Some a\<rparr>)
         (set_hh a (new_handle a hv (Some t) (Some z)) m))"

lemma HASH_APPEND_LIST_run:
  assumes "valid m a" "valid m x" "valid m z" "x \<noteq> a" "z \<noteq> a" "tbl (hh_at m x) = Some t"
    and "tvalid m t" "tail (tbl_at m t) = Some z"
  shows "seq (upd_hh (Some a) (\<lambda>h. h\<lparr>hashv := hv, keyptr := Some a, keylen := 16\<rparr>) m) (\<lambda>m.
     seq (load_hh (Some x) m) (\<lambda>hd.
     seq (upd_hh (Some a) (\<lambda>h. h\<lparr>tbl := tbl hd\<rparr>) m) (\<lambda>m.
     HASH_APPEND_LIST (Some x) (Some a) m))) = Ok (append_mem t z a hv m)"
proof -
  have nh: "(\<lambda>h. h\<lparr>hashv := hv, keyptr := Some a, keylen := 16, tbl := Some t, app_next := None,
      app_prev := Some z\<rparr>) = new_handle a hv (Some t) (Some z)"
    by (simp add: new_handle_def fun_eq_iff)
  show ?thesis using assms
    by (cases "x = z")
       (simp_all add: HASH_APPEND_LIST_def run_simps set_rules append_mem_def nh [symmetric])
qed

lemma append_mem_linked:
  assumes ok: "table_ok m t xs cs" and xs: "xs \<noteq> []" and a: "valid m a" "a \<notin> set xs"
    and new: "key_at m a \<notin> key_at m ` set xs"
  shows "linked (append_mem t (last xs) a (hash_key (key_at m a)) m) t (xs @ [a]) a cs"
    "touches (insert a (set xs)) {t} m (append_mem t (last xs) a (hash_key (key_at m a)) m)"
proof -
  define z where "z = last xs"
  define hv where "hv = hash_key (key_at m a)"
  define m1 where "m1 = set_hh a (new_handle a hv (Some t) (Some z)) m"
  define m2 where "m2 = set_hh z (\<lambda>h. h\<lparr>app_next := Some a\<rparr>) m1"
  define m3 where "m3 = set_tbl t (\<lambda>T. T\<lparr>tail := Some a\<rparr>) m2"
  have m3: "append_mem t z a hv m = m3" by (simp add: append_mem_def m3_def m2_def m1_def)
  have b: "buckets_ok m t cs" and app: "app_ok m t xs" and keys: "keys_ok m xs"
    and inc: "in_chains cs = set xs" and num: "num_items (tbl_at m t) = of_nat (length xs)"
    using ok by (simp_all add: table_ok_buckets_ok)
  have z: "z \<in> set xs" "z \<noteq> a" "last_opt xs = Some z" using xs a by (auto simp: z_def last_opt_def)
  have zv: "valid m z" using app z by (simp add: app_ok_def)
  have v1: "valid m1 z" "valid m2 a" using a zv by (simp_all add: m1_def m2_def set_rules)
  have t12: "touches (insert a (set xs)) {t} m m3"
    unfolding m3_def m2_def m1_def
    by (intro touches_step_tbl touches_step_hh touches_refl) (use a z zv in \<open>auto simp: set_rules\<close>)
  have f3: "flows m3 = flows m2" by (simp add: m3_def)
  have h: "hh_at m3 b = (if b = a then new_handle a hv (Some t) (Some z) (hh_at m a)
      else if b = z then (hh_at m z)\<lparr>app_next := Some a\<rparr> else hh_at m b)" for b
    using z by (simp add: f3 m2_def m1_def set_rules)
  have T3: "tbl_at m3 t = (tbl_at m t)\<lparr>tail := Some a\<rparr>" by (simp add: m3_def m2_def m1_def set_rules)
  have app3: "app_ok m3 t (xs @ [a])"
    using z a touches_valid [OF t12] app
    by (intro app_ok_snoc [OF app]) (auto simp: h new_handle_def app_ok_def)
  have keys3: "keys_ok m3 (xs @ [a])"
    by (rule keys_ok_snoc [OF keys new touches_key [OF t12]])
       (use a in \<open>auto simp: h new_handle_def hv_def\<close>)
  have "chains_ok m3 (num_buckets (tbl_at m t)) (buckets (tbl_at m t)) cs"
    by (rule chains_ok_cong [where m = m])
       (use b a inc touches_valid [OF t12] in \<open>auto simp: h buckets_ok_def\<close>)
  then have b3: "buckets_ok m3 t cs" using b by (simp add: buckets_ok_def T3) (simp add: m3_def set_rules)
  show "linked (append_mem t (last xs) a (hash_key (key_at m a)) m) t (xs @ [a]) a cs"
    using app3 keys3 b3 inc num a(2) unfolding z_def [symmetric] hv_def [symmetric] m3 linked_def
    by (simp add: T3 add.commute)
  show "touches (insert a (set xs)) {t} m (append_mem t (last xs) a (hash_key (key_at m a)) m)"
    unfolding z_def [symmetric] hv_def [symmetric] m3 by (rule t12)
qed

text \<open>The first element: \<open>HASH_MAKE_TABLE\<close>.\<close>

definition first_table :: "addr \<Rightarrow> UT_hash_table" where
  "first_table a = zero_table\<lparr>buckets := replicate 32 zero_bucket, num_buckets := 32,
     log2_num_buckets := 5, tail := Some a, signature := HASH_SIGNATURE\<rparr>"

definition make_mem :: "addr \<Rightarrow> u32 \<Rightarrow> mem \<Rightarrow> mem" where
  "make_mem a hv m =
     (set_hh a (new_handle a hv (Some (fresh m)) None) m)
       \<lparr>tbls := (tbls m)(fresh m \<mapsto> first_table a), fresh := fresh m + 2, budget := budget m - 2\<rparr>"

lemma HASH_MAKE_TABLE_run:
  assumes "valid m a"
  shows "seq (upd_hh (Some a) (\<lambda>h. h\<lparr>hashv := hv, keyptr := Some a, keylen := 16\<rparr>) m) (\<lambda>m.
     seq (upd_hh (Some a) (\<lambda>h. h\<lparr>app_next := None, app_prev := None\<rparr>) m) (\<lambda>m.
     HASH_MAKE_TABLE (Some a) m)) =
     (if budget m < 2 \<or> max_block m < 512 then Exit (-1) else Ok (make_mem a hv m))"
proof -
  obtain f where f: "flows m a = Some f" using assms by (auto simp: valid_def)
  note defs = HASH_MAKE_TABLE_def alloc_def upd_hh_def upd_flow_def load_hh_def load_flow_def
    load_tbl_def upd_tbl_def load_tbl_of_def upd_tbl_of_def sizeof_UT_hash_table_def
    sizeof_UT_hash_bucket_def HASH_INITIAL_NUM_BUCKETS_def HASH_INITIAL_NUM_BUCKETS_LOG2_def
  consider (none) "budget m = 0 \<or> max_block m < 64"
    | (one) "budget m > 0" "max_block m \<ge> 64" "budget m < 2 \<or> max_block m < 512"
    | (two) "budget m \<ge> 2" "max_block m \<ge> 512"
    by linarith
  then show ?thesis
  proof cases
    case none
    then show ?thesis by (auto simp: defs f)
  next
    case one
    then have "budget m \<noteq> 0" "\<not> max_block m < 64" "budget m = 1 \<or> max_block m < 512" by auto
    then show ?thesis by (simp add: defs f) (elim disjE; simp)
  next
    case two
    then have "budget m \<noteq> 0" "budget m \<noteq> 1" "\<not> budget m < 2" "\<not> max_block m < 64" "\<not> max_block m < 512"
      "budget m - Suc 0 \<noteq> 0" by auto
    then show ?thesis
      by (simp add: defs f make_mem_def set_hh_def set_flow_def new_handle_def first_table_def zero_table_def)
         (cases m; cases "hh f"; simp add: numeral_2_eq_2 [symmetric])
  qed
qed

lemma make_mem_linked:
  assumes wf: "mem_wf m" and a: "valid m a"
  shows "linked (make_mem a (hash_key (key_at m a)) m) (fresh m) [a] a (replicate 32 [])"
    "touches {a} {fresh m} m (make_mem a (hash_key (key_at m a)) m)"
    "add_bucket (make_mem a hv m) (fresh m) b < 32"
    "i < 32 \<Longrightarrow> \<not> expand_fails (make_mem a hv m) (fresh m) i"
proof -
  have fl: "flows (make_mem a h m) = flows (set_hh a (new_handle a h (Some (fresh m)) None) m)"
    and T: "tbls (make_mem a h m) = (tbls m)(fresh m \<mapsto> first_table a)" for h
    by (simp_all add: make_mem_def)
  have b: "num_buckets (first_table a) = 32" "log2_num_buckets (first_table a) = 5"
    "buckets (first_table a) = replicate 32 zero_bucket"
    by (simp_all add: first_table_def)
  let ?m = "make_mem a (hash_key (key_at m a)) m"
  have "buckets_ok ?m (fresh m) (replicate 32 [])"
    unfolding buckets_ok_def using chains_ok_replicate [of ?m 32 32]
    by (auto simp: T b tvalid_def intro!: exI [of _ 5])
  moreover have v: "valid ?m c \<longleftrightarrow> valid m c" for c
    using a by (auto simp: valid_def fl set_hh_def set_flow_def)
  moreover have k: "key_at ?m c = key_at m c" for c by (simp add: fl)
  moreover have h: "hh_at ?m a = new_handle a (hash_key (key_at m a)) (Some (fresh m)) None (hh_at m a)"
    by (simp add: fl set_rules)
  ultimately show "linked ?m (fresh m) [a] a (replicate 32 [])"
    using a by (simp add: linked_def app_ok_def keys_ok_def T new_handle_def) (simp add: first_table_def zero_table_def last_opt_def)
  have "stats_of (flow_at ?m c) = stats_of (flow_at m c)" for c by (simp add: fl)
  then show "touches {a} {fresh m} m ?m"
    using v by (simp add: touches_def) (simp add: T fl, simp add: make_mem_def)
  have "unat (HASH_TO_BKT x (2 ^ 5)) < 2 ^ 5" for x by (rule HASH_TO_BKT_less) simp
  then show "add_bucket (make_mem a hv m) (fresh m) b < 32"
    by (simp add: add_bucket_def T b)
  assume "i < 32"
  then show "\<not> expand_fails (make_mem a hv m) (fresh m) i"
    by (simp add: expand_fails_def T b zero_bucket_def HASH_BKT_CAPACITY_THRESH_def word_le_nat_alt)
qed

section \<open>HASH_ADD\<close>

lemma seq_assoc: "seq (seq r f) g = seq r (\<lambda>x. seq (f x) g)"
  by (cases r) auto

text \<open>Running out of memory while adding to the table \<open>tp\<close>.\<close>

definition add_oom :: "mem \<Rightarrow> ptr \<Rightarrow> bool" where
  "add_oom m tp =
     (case tp of None \<Rightarrow> budget m < 2 \<or> max_block m < 512
      | Some t \<Rightarrow> budget m = 0 \<or> max_block m < 32 * unat (num_buckets (tbl_at m t)))"

definition add_tbl :: "mem \<Rightarrow> ptr \<Rightarrow> addr" where
  "add_tbl m tp = (case tp of None \<Rightarrow> fresh m | Some t \<Rightarrow> t)"

lemma linked_add:
  assumes l: "linked m1 t zs a cs" and wf: "mem_wf m" and t: "t < fresh m1"
    and tch: "touches (set zs) {t} m m1" and x: "hd_opt zs = Some x"
    and E: "expand_fails m1 t (add_bucket m1 t a) \<Longrightarrow> E (-1)"
  shows "safe E
    (\<lambda>(head', m'). hash_rep m' head' (Some t) (zs) \<and> mem_wf m' \<and>
       touches (set zs) {t} m m')
    (seq (HASH_ADD_TO_TABLE (Some x) (hash_key (key_at m a)) (Some a) m1) (\<lambda>m. Ok (Some x, m)))"
proof -
  have wf1: "mem_wf m1" by (rule touches_mem_wf [OF tch wf]) (use t in simp)
  have hv: "hashv (hh_at m1 a) = hash_key (key_at m a)"
    using l touches_key [OF tch] by (simp add: linked_def keys_ok_def)
  have "safe E (\<lambda>m'. (\<exists>cs'. table_ok m' t zs cs') \<and> relinked (set zs) t m1 m')
      (HASH_ADD_TO_TABLE (Some x) (hash_key (key_at m a)) (Some a) m1)"
    by (rule safe_mono [OF HASH_ADD_TO_TABLE_correct [OF l wf1 hd_opt_in_set [OF x], unfolded hv]])
       (use E in auto)
  then show ?thesis
  proof (rule safe_seq)
    fix m' assume r: "(\<exists>cs'. table_ok m' t zs cs') \<and> relinked (set zs) t m1 m'"
    then have t1: "touches (set zs) {t} m1 m'" using relinked_touches by blast
    have "mem_wf m'"
      by (rule touches_mem_wf [OF t1 wf1]) (use t r in \<open>auto simp: relinked_def\<close>)
    then show "safe E (\<lambda>(head', m'). hash_rep m' head' (Some t) (zs) \<and> mem_wf m' \<and>
       touches (set zs) {t} m m') (Ok (Some x, m'))"
      using r x touches_trans [OF tch t1] by (auto simp: hash_rep_def)
  qed
qed

lemma HASH_ADD_correct:
  assumes rep: "hash_rep m head tp xs" and wf: "mem_wf m" and a: "valid m a" "a \<notin> set xs"
    and new: "key_at m a \<notin> key_at m ` set xs"
  shows "safe (\<lambda>c. c = -1 \<and> add_oom m tp)
    (\<lambda>(head', m'). hash_rep m' head' (Some (add_tbl m tp)) (xs @ [a]) \<and> mem_wf m' \<and>
       touches (insert a (set xs)) {add_tbl m tp} m m')
    (HASH_ADD head (Some a) m)"
proof (cases xs)
  case Nil
  then have head: "head = None" "tp = None" using rep by simp_all
  define m1 where "m1 = make_mem a (hash_key (key_at m a)) m"
  have "HASH_ADD head (Some a) m =
      seq (if budget m < 2 \<or> max_block m < 512 then Exit (-1) else Ok m1)
        (\<lambda>m'. seq (HASH_ADD_TO_TABLE (Some a) (hash_key (key_at m a)) (Some a) m') (\<lambda>m. Ok (Some a, m)))"
    unfolding m1_def HASH_MAKE_TABLE_run [OF a(1), symmetric]
    using a head
    by (simp add: HASH_ADD_def HASH_ADD_KEYPTR_def HASH_ADD_KEYPTR_BYHASHVALUE_def
        sizeof_flow_key_t_def hash_key_def seq_assoc load_flow_valid)
  then have run: "HASH_ADD head (Some a) m =
      (if budget m < 2 \<or> max_block m < 512 then Exit (-1)
       else seq (HASH_ADD_TO_TABLE (Some a) (hash_key (key_at m a)) (Some a) m1) (\<lambda>m. Ok (Some a, m)))"
    by simp
  have "safe (\<lambda>c. c = -1 \<and> add_oom m tp)
    (\<lambda>(head', m'). hash_rep m' head' (Some (fresh m)) [a] \<and> mem_wf m' \<and>
       touches (set [a]) {fresh m} m m')
    (seq (HASH_ADD_TO_TABLE (Some a) (hash_key (key_at m a)) (Some a) m1) (\<lambda>m. Ok (Some a, m)))"
    unfolding m1_def
    by (rule linked_add [OF make_mem_linked(1) [OF wf a(1)] wf])
       (use make_mem_linked [OF wf a(1)] in \<open>auto simp: make_mem_def\<close>)
  then show ?thesis unfolding run using head Nil by (auto simp: add_oom_def add_tbl_def)
next
  case (Cons x ys)
  then obtain t cs where head: "head = Some x" "tp = Some t" and ok: "table_ok m t xs cs"
    using rep by (auto simp: hash_rep_def)
  define m1 where "m1 = append_mem t (last xs) a (hash_key (key_at m a)) m"
  note l = append_mem_linked [OF ok _ a new, folded m1_def]
  have x: "x \<in> set xs" "x \<noteq> a" "last xs \<in> set xs" "last xs \<noteq> a" "last_opt xs = Some (last xs)"
    using Cons a by (auto simp: last_opt_def)
  then have v: "valid m x" "valid m (last xs)" "tbl (hh_at m x) = Some t" "tvalid m t"
    "tail (tbl_at m t) = Some (last xs)"
    using ok by (auto simp: table_ok_def app_ok_def)
  have "HASH_ADD head (Some a) m =
      seq (Ok m1)
        (\<lambda>m'. seq (HASH_ADD_TO_TABLE (Some x) (hash_key (key_at m a)) (Some a) m') (\<lambda>m. Ok (Some x, m)))"
    unfolding m1_def HASH_APPEND_LIST_run [OF a(1) v(1,2) x(2,4) v(3-5), symmetric]
    using a head
    by (simp add: HASH_ADD_def HASH_ADD_KEYPTR_def HASH_ADD_KEYPTR_BYHASHVALUE_def
        sizeof_flow_key_t_def hash_key_def seq_assoc load_flow_valid)
  then have run: "HASH_ADD head (Some a) m =
      seq (HASH_ADD_TO_TABLE (Some x) (hash_key (key_at m a)) (Some a) m1) (\<lambda>m. Ok (Some x, m))"
    by simp
  have f1: "fresh m1 = fresh m" "budget m1 = budget m" "max_block m1 = max_block m"
    "num_buckets (tbl_at m1 t) = num_buckets (tbl_at m t)"
    by (simp_all add: m1_def append_mem_def set_rules)
  have "safe (\<lambda>c. c = -1 \<and> add_oom m tp)
    (\<lambda>(head', m'). hash_rep m' head' (Some t) (xs @ [a]) \<and> mem_wf m' \<and>
       touches (set (xs @ [a])) {t} m m')
    (seq (HASH_ADD_TO_TABLE (Some x) (hash_key (key_at m a)) (Some a) m1) (\<lambda>m. Ok (Some x, m)))"
    by (rule linked_add [OF l(1) wf])
       (use l Cons mem_wf_tfresh [OF wf v(4)] in
         \<open>auto simp: add_oom_def head expand_fails_def f1 insert_commute\<close>)
  then show ?thesis unfolding run using head by (simp add: add_tbl_def)
qed

end
