(* ===== verification/Uthash_Del.thy ===== *)
theory Uthash_Del
  imports Uthash_Add
begin

text \<open>
  \<open>HASH_DEL\<close>: the element leaves its bucket chain and the list in insertion order, and the
  table object is freed with the last element.  \<open>HASH_FSCK\<close>, the integrity check of
  debug builds, accepts every represented table.
\<close>

section \<open>HASH_DEL_IN_BKT\<close>

lemma chain_remove:
  assumes c: "chain_ok m n i b c" and a: "a \<in> set c"
    and b': "hh_head b' = (if hd_opt c = Some a then next_in c a else hd_opt c)"
      "bkt_count b' = bkt_count b - 1"
    and eq: "\<And>x. x \<in> set c \<Longrightarrow> x \<noteq> a \<Longrightarrow> valid m' x \<and> hashv (hh_at m' x) = hashv (hh_at m x) \<and>
      hh_next (hh_at m' x) = (if prev_in c a = Some x then next_in c a else hh_next (hh_at m x)) \<and>
      hh_prev (hh_at m' x) = (if next_in c a = Some x then prev_in c a else hh_prev (hh_at m x))"
  shows "chain_ok m' n i b' (remove1 a c)"
proof -
  have d: "distinct c" and cnt: "bkt_count b = of_nat (length c)" using c by (simp_all add: chain_ok_def)
  have "valid m' x \<and> hh_next (hh_at m' x) = next_in (remove1 a c) x \<and>
      hh_prev (hh_at m' x) = prev_in (remove1 a c) x \<and> unat (HASH_TO_BKT (hashv (hh_at m' x)) n) = i"
    if x: "x \<in> set (remove1 a c)" for x
  proof -
    have xc: "x \<in> set c" "x \<noteq> a" using x d by auto
    have "valid m x \<and> hh_next (hh_at m x) = next_in c x \<and> hh_prev (hh_at m x) = prev_in c x \<and>
        unat (HASH_TO_BKT (hashv (hh_at m x)) n) = i"
      using c xc unfolding chain_ok_def by blast
    then show ?thesis
      using eq [OF xc] by (simp add: next_in_remove [OF d a xc(2)] prev_in_remove [OF d a xc(2)])
  qed
  moreover have "bkt_count b' = of_nat (length (remove1 a c))"
    using a length_pos_if_in_set [OF a]
    by (cases "length c") (simp_all add: b' cnt length_remove1)
  moreover have "hh_head b' = hd_opt (remove1 a c)" using d a by (simp add: b' hd_opt_remove)
  ultimately show ?thesis using d unfolding chain_ok_def by (simp add: distinct_remove1)
qed

lemma in_chains_remove:
  assumes ok: "chains_ok m n bs cs" and i: "i < length cs" and a: "a \<in> set (cs ! i)"
  shows "in_chains (cs[i := remove1 a (cs ! i)]) = in_chains cs - {a}"
proof -
  have d: "distinct (cs ! i)" using ok i by (simp add: chains_ok_def chain_ok_def)
  have "a \<notin> set (cs ! j)" if "j < length cs" "j \<noteq> i" for j
    using chains_disjoint [OF ok that(1) i that(2)] a by blast
  then have "x \<in> set (cs[i := remove1 a (cs ! i)] ! j) \<longleftrightarrow> x \<in> set (cs ! j) \<and> x \<noteq> a"
    if "j < length cs" for x j
    using that d by (cases "j = i") auto
  then show ?thesis by (auto simp: in_chains_nth)
qed

lemma chains_remove:
  assumes ok: "chains_ok m n bs cs" and i: "i < length cs" and a: "a \<in> set (cs ! i)"
    and b': "hh_head b' = (if hd_opt (cs ! i) = Some a then next_in (cs ! i) a else hd_opt (cs ! i))"
      "bkt_count b' = bkt_count (bs ! i) - 1"
    and eq: "\<And>x. x \<in> in_chains cs \<Longrightarrow> x \<noteq> a \<Longrightarrow> valid m' x \<and> hashv (hh_at m' x) = hashv (hh_at m x) \<and>
      hh_next (hh_at m' x) = (if prev_in (cs ! i) a = Some x then next_in (cs ! i) a else hh_next (hh_at m x)) \<and>
      hh_prev (hh_at m' x) = (if next_in (cs ! i) a = Some x then prev_in (cs ! i) a else hh_prev (hh_at m x))"
  shows "chains_ok m' n (bs[i := b']) (cs[i := remove1 a (cs ! i)])"
  unfolding chains_ok_def
proof (intro conjI allI impI)
  show "length (bs[i := b']) = length (cs[i := remove1 a (cs ! i)])" using ok by (simp add: chains_ok_def)
  fix j assume "j < length (cs[i := remove1 a (cs ! i)])"
  then have j: "j < length cs" by simp
  have c: "chain_ok m n j (bs ! j) (cs ! j)" using ok j by (simp add: chains_ok_def)
  have inc: "x \<in> in_chains cs" if "x \<in> set (cs ! j)" for x
    using that nth_mem [OF j] by (auto simp: in_chains_def)
  show "chain_ok m' n j (bs[i := b'] ! j) (cs[i := remove1 a (cs ! i)] ! j)"
  proof (cases "j = i")
    case True
    have "chain_ok m' n i b' (remove1 a (cs ! i))"
      using c a inc eq b' unfolding True by (intro chain_remove [where m = m and b = "bs ! i"]) auto
    then show ?thesis using True i ok by (simp add: chains_ok_def)
  next
    case False
    have "x \<notin> set (cs ! i)" if "x \<in> set (cs ! j)" for x
      using chains_disjoint [OF ok i j] False that by blast
    then have "prev_in (cs ! i) a \<noteq> Some x" "next_in (cs ! i) a \<noteq> Some x" "x \<noteq> a"
      if "x \<in> set (cs ! j)" for x
      using that a prev_in_set next_in_set by metis+
    then have "chain_ok m' n j (bs ! j) (cs ! j)"
      by (intro chain_ok_cong [OF _ c]) (use eq inc in auto)
    then show ?thesis using False by simp
  qed
qed

text \<open>The two bucket links around a removed node.\<close>

definition unlink_bkt :: "ptr \<Rightarrow> ptr \<Rightarrow> mem \<Rightarrow> mem" where
  "unlink_bkt p nx m =
     (let m = (case p of None \<Rightarrow> m | Some x \<Rightarrow> set_hh x (\<lambda>h. h\<lparr>hh_next := nx\<rparr>) m) in
      case nx of None \<Rightarrow> m | Some y \<Rightarrow> set_hh y (\<lambda>h. h\<lparr>hh_prev := p\<rparr>) m)"

lemma unlink_bkt_simps [simp]:
  "tbls (unlink_bkt p nx m) = tbls m" "fresh (unlink_bkt p nx m) = fresh m"
  "budget (unlink_bkt p nx m) = budget m" "max_block (unlink_bkt p nx m) = max_block m"
  "tvalid (unlink_bkt p nx m) = tvalid m"
  by (simp_all add: unlink_bkt_def Let_def split: option.split)

lemma unlink_bkt_handle:
  "hh_next (hh_at (unlink_bkt p nx m) x) = (if p = Some x then nx else hh_next (hh_at m x))"
  "hh_prev (hh_at (unlink_bkt p nx m) x) = (if nx = Some x then p else hh_prev (hh_at m x))"
  by (auto simp: unlink_bkt_def set_rules Let_def split: option.split)

lemma relinks_unlink_bkt:
  assumes "\<And>x. p = Some x \<Longrightarrow> valid m x" and "\<And>x. nx = Some x \<Longrightarrow> valid m x"
  shows "relinks (set_option p \<union> set_option nx) m (unlink_bkt p nx m)"
proof -
  define m1 where "m1 = (case p of None \<Rightarrow> m | Some x \<Rightarrow> set_hh x (\<lambda>h. h\<lparr>hh_next := nx\<rparr>) m)"
  have r: "relinks (set_option p) m m1"
    unfolding m1_def using assms
    by (auto split: option.split intro!: relinks_set_hh simp: forget_links_def)
  have "relinks (set_option nx) m1 (unlink_bkt p nx m)"
    unfolding unlink_bkt_def m1_def [symmetric] Let_def
    by (auto split: option.split intro!: relinks_set_hh
        simp: forget_links_def relinks_valid [OF r] assms)
  from relinks_trans [OF r this] show ?thesis .
qed

lemma HASH_DEL_IN_BKT_correct:
  assumes ok: "buckets_ok m t cs" and a: "a \<in> in_chains cs"
    and i: "i = unat (HASH_TO_BKT (hashv (hh_at m a)) (num_buckets (tbl_at m t)))"
  shows "\<exists>m' cs'. HASH_DEL_IN_BKT (Some t) i (Some a) m = Ok m' \<and> buckets_ok m' t cs' \<and>
    in_chains cs' = in_chains cs - {a} \<and> num_items (tbl_at m' t) = num_items (tbl_at m t) \<and>
    tail (tbl_at m' t) = tail (tbl_at m t) \<and> relinked (in_chains cs) t m m'"
proof -
  define T where "T = tbl_at m t"
  define n where "n = num_buckets T"
  obtain k where k: "k < 32" "n = 2 ^ k" "length cs = 2 ^ k"
    and tv: "tvalid m t" and ch: "chains_ok m n (buckets T) cs"
    using ok by (auto simp: buckets_ok_def n_def T_def)
  define c where "c = cs ! i"
  have il: "i < length cs" "i < length (buckets T)" and ac: "a \<in> set c"
    using in_chains_bucket [OF ch a] ch by (auto simp: i n_def T_def c_def chains_ok_def)
  have c: "chain_ok m n i (buckets T ! i) c" using ch il by (simp add: chains_ok_def c_def)
  then have hd: "hh_head (buckets T ! i) = hd_opt c" and d: "distinct c"
    and va: "valid m a" "hh_next (hh_at m a) = next_in c a" "hh_prev (hh_at m a) = prev_in c a"
    using ac by (simp_all add: chain_ok_def)
  have inc: "x \<in> in_chains cs \<and> valid m x" if "x \<in> set c" for x
    using that c nth_mem [OF il(1)] by (auto simp: chain_ok_def in_chains_def c_def)
  define p where "p = prev_in c a"
  define nx where "nx = next_in c a"
  have pn: "p = Some x \<Longrightarrow> x \<in> set c" "nx = Some x \<Longrightarrow> x \<in> set c" for x
    by (auto simp: p_def nx_def dest: prev_in_set next_in_set)
  have pa: "p \<noteq> Some a" "nx \<noteq> Some a"
    using d next_in_neq [OF d, of a] prev_from_neq [OF d, of None a] by (auto simp: p_def nx_def)
  define b' where "b' = (buckets T ! i)\<lparr>bkt_count := bkt_count (buckets T ! i) - 1,
    hh_head := (if hd_opt c = Some a then nx else hd_opt c)\<rparr>"
  define m1 where "m1 = set_tbl t (\<lambda>T. T\<lparr>buckets := (buckets T)[i := b']\<rparr>) m"
  define m2 where "m2 = unlink_bkt p nx m1"
  have f1: "flows m1 = flows m" and v1: "valid m1 = valid m" by (simp_all add: m1_def)
  have rel12: "relinks (in_chains cs) m1 m2"
    unfolding m2_def
    by (rule relinks_mono [OF relinks_unlink_bkt]) (use pn inc v1 in auto)
  have T2: "tvalid m2 t" "tbl_at m2 t = T\<lparr>buckets := (buckets T)[i := b']\<rparr>"
    by (simp_all add: m2_def m1_def set_rules T_def)
  have rel: "relinked (in_chains cs) t m m2"
    by (rule relinkedI [OF rel12 f1 refl]) (simp_all add: m2_def m1_def)
  have "chains_ok m2 n ((buckets T)[i := b']) (cs[i := remove1 a (cs ! i)])"
  proof (rule chains_remove [OF ch il(1)])
    fix x assume x: "x \<in> in_chains cs" "x \<noteq> a"
    have "valid m x" using in_chains_bucket [OF ch x(1)] ch by (auto simp: chains_ok_def chain_ok_def)
    then show "valid m2 x \<and> hashv (hh_at m2 x) = hashv (hh_at m x) \<and>
      hh_next (hh_at m2 x) = (if prev_in (cs ! i) a = Some x then next_in (cs ! i) a else hh_next (hh_at m x)) \<and>
      hh_prev (hh_at m2 x) = (if next_in (cs ! i) a = Some x then prev_in (cs ! i) a else hh_prev (hh_at m x))"
      using relinks_valid [OF rel12] relinks_hashv [OF rel12]
      by (simp add: v1 f1 m2_def unlink_bkt_handle p_def nx_def c_def)
  qed (use ac in \<open>simp_all add: c_def b'_def nx_def\<close>)
  then have "buckets_ok m2 t (cs[i := remove1 a (cs ! i)])"
    using k T2 ok by (auto simp: buckets_ok_def n_def T_def)
  moreover have "in_chains (cs[i := remove1 a (cs ! i)]) = in_chains cs - {a}"
    using ac by (intro in_chains_remove [OF ch il(1)]) (simp add: c_def)
  moreover have "HASH_DEL_IN_BKT (Some t) i (Some a) m = Ok m2"
  proof -
    define m0 where "m0 = set_bucket t i (\<lambda>b. b\<lparr>bkt_count := bkt_count b - 1\<rparr>) m"
    have v0: "tvalid m0 t" "valid m0 = valid m" "flows m0 = flows m"
      by (simp_all add: m0_def tvalid_set_bucket)
    have b0: "buckets (tbl_at m0 t) ! i = (buckets T ! i)\<lparr>bkt_count := bkt_count (buckets T ! i) - 1\<rparr>"
      "length (buckets (tbl_at m0 t)) = length (buckets T)"
      using il by (simp_all add: m0_def tbl_at_set_bucket T_def)
    have st1: "upd_bucket_of (Some t) i (\<lambda>b. b\<lparr>bkt_count := bkt_count b - 1\<rparr>) m = Ok m0"
      using tv il by (simp add: run_simps m0_def T_def)
    have st2: "load_bucket_of (Some t) i m0 = Ok (buckets (tbl_at m0 t) ! i)"
      using v0 b0 il by (simp add: run_simps)
    have st3: "(if hh_head (buckets (tbl_at m0 t) ! i) = Some a
        then upd_bucket_of (Some t) i (\<lambda>b. b\<lparr>hh_head := nx\<rparr>) m0 else Ok m0) = Ok m1"
      using v0 b0 il hd
      by (simp add: run_simps)
         (cases "buckets T ! i"; simp add: m1_def m0_def set_bucket_def set_tbl_def b'_def T_def)
    have h1: "hh_next (hh_at m1 a) = nx" "hh_prev (hh_at m1 a) = p" "hh_at m0 a = hh_at m1 a"
      using va by (simp_all add: f1 v0 p_def nx_def)
    have st4: "seq (if p \<noteq> None then upd_hh p (\<lambda>h. h\<lparr>hh_next := nx\<rparr>) m1 else Ok m1) (\<lambda>m.
        seq (load_hh (Some a) m) (\<lambda>d.
        if hh_next d \<noteq> None then upd_hh (hh_next d) (\<lambda>h. h\<lparr>hh_prev := hh_prev d\<rparr>) m else Ok m)) = Ok m2"
      using pn inc v1 pa h1 va(1)
      by (cases p; cases nx) (simp_all add: run_simps set_rules m2_def unlink_bkt_def)
    show ?thesis
      unfolding HASH_DEL_IN_BKT_def st1
      by (simp only: st2 load_hh_valid v0(2) va(1) h1 st3 st4 seq.simps)
  qed
  ultimately show ?thesis using rel T2 by (intro exI [of _ m2] exI) (auto simp: T_def)
qed

section \<open>The list in insertion order\<close>

definition unlink_app :: "ptr \<Rightarrow> ptr \<Rightarrow> mem \<Rightarrow> mem" where
  "unlink_app p nx m =
     (let m = (case p of None \<Rightarrow> m | Some x \<Rightarrow> set_hh x (\<lambda>h. h\<lparr>app_next := nx\<rparr>) m) in
      case nx of None \<Rightarrow> m | Some y \<Rightarrow> set_hh y (\<lambda>h. h\<lparr>app_prev := p\<rparr>) m)"

lemma unlink_app_simps [simp]:
  "tbls (unlink_app p nx m) = tbls m" "fresh (unlink_app p nx m) = fresh m"
  "budget (unlink_app p nx m) = budget m" "max_block (unlink_app p nx m) = max_block m"
  "tvalid (unlink_app p nx m) = tvalid m"
  by (simp_all add: unlink_app_def Let_def split: option.split)

lemma unlink_app_handle:
  "app_next (hh_at (unlink_app p nx m) x) = (if p = Some x then nx else app_next (hh_at m x))"
  "app_prev (hh_at (unlink_app p nx m) x) = (if nx = Some x then p else app_prev (hh_at m x))"
  "hh_next (hh_at (unlink_app p nx m) x) = hh_next (hh_at m x)"
  "hh_prev (hh_at (unlink_app p nx m) x) = hh_prev (hh_at m x)"
  "tbl (hh_at (unlink_app p nx m) x) = tbl (hh_at m x)"
  "keyptr (hh_at (unlink_app p nx m) x) = keyptr (hh_at m x)"
  "keylen (hh_at (unlink_app p nx m) x) = keylen (hh_at m x)"
  "hashv (hh_at (unlink_app p nx m) x) = hashv (hh_at m x)"
  by (auto simp: unlink_app_def set_rules Let_def split: option.split)

lemma touches_unlink_app:
  assumes "\<And>x. p = Some x \<Longrightarrow> valid m x \<and> x \<in> A" and "\<And>x. nx = Some x \<Longrightarrow> valid m x \<and> x \<in> A"
  shows "touches A S m (unlink_app p nx m)"
  using assms unfolding unlink_app_def Let_def
  by (auto split: option.split simp: set_rules intro!: touches_step_hh touches_set_hh)

lemma app_ok_remove:
  assumes app: "app_ok m t xs" and a: "a \<in> set xs"
    and eq: "\<And>x. x \<in> set xs \<Longrightarrow> x \<noteq> a \<Longrightarrow> valid m' x \<and> tbl (hh_at m' x) = tbl (hh_at m x) \<and>
      app_next (hh_at m' x) = (if prev_in xs a = Some x then next_in xs a else app_next (hh_at m x)) \<and>
      app_prev (hh_at m' x) = (if next_in xs a = Some x then prev_in xs a else app_prev (hh_at m x))"
  shows "app_ok m' t (remove1 a xs)"
proof -
  have d: "distinct xs" using app by (simp add: app_ok_def)
  have "valid m' x \<and> tbl (hh_at m' x) = Some t \<and> app_next (hh_at m' x) = next_in (remove1 a xs) x \<and>
      app_prev (hh_at m' x) = prev_in (remove1 a xs) x" if x: "x \<in> set (remove1 a xs)" for x
  proof -
    have xs: "x \<in> set xs" "x \<noteq> a" using x d by auto
    have "tbl (hh_at m x) = Some t \<and> app_next (hh_at m x) = next_in xs x \<and>
        app_prev (hh_at m x) = prev_in xs x"
      using app xs unfolding app_ok_def by blast
    then show ?thesis
      using eq [OF xs] by (simp add: next_in_remove [OF d a xs(2)] prev_in_remove [OF d a xs(2)])
  qed
  then show ?thesis using d unfolding app_ok_def by (simp add: distinct_remove1)
qed

lemma keys_ok_subset: "keys_ok m xs \<Longrightarrow> set ys \<subseteq> set xs \<Longrightarrow> keys_ok m ys"
  unfolding keys_ok_def by (meson inj_on_subset subsetD)

section \<open>HASH_DEL\<close>

text \<open>The list part of \<open>HASH_DELETE_HH\<close>: the links around the element and the tail pointer.\<close>

definition unlinked_mem :: "addr \<Rightarrow> ptr \<Rightarrow> ptr \<Rightarrow> mem \<Rightarrow> mem" where
  "unlinked_mem t p nx m =
     unlink_app p nx (if nx = None then set_tbl t (\<lambda>T. T\<lparr>tail := p\<rparr>) m else m)"

lemma unlinked_mem_ok:
  assumes ok: "table_ok m t xs cs" and a: "a \<in> set xs"
  defines "m' \<equiv> unlinked_mem t (prev_in xs a) (next_in xs a) m"
  shows "app_ok m' t (remove1 a xs)" "keys_ok m' xs" "buckets_ok m' t cs"
    "num_items (tbl_at m' t) = of_nat (length xs)" "num_buckets (tbl_at m' t) = num_buckets (tbl_at m t)"
    "tail (tbl_at m' t) = last_opt (remove1 a xs)" "touches (set xs) {t} m m'"
    "tbl (hh_at m' x) = tbl (hh_at m x)" "hashv (hh_at m' x) = hashv (hh_at m x)"
    "fresh m' = fresh m"
proof -
  have app: "app_ok m t xs" and keys: "keys_ok m xs" and b: "buckets_ok m t cs"
    and num: "num_items (tbl_at m t) = of_nat (length xs)" and tl: "tail (tbl_at m t) = last_opt xs"
    using ok by (simp_all add: table_ok_buckets_ok)
  have d: "distinct xs" and vx: "x \<in> set xs \<Longrightarrow> valid m x" for x using app by (auto simp: app_ok_def)
  have pn: "prev_in xs a = Some x \<Longrightarrow> x \<in> set xs" "next_in xs a = Some x \<Longrightarrow> x \<in> set xs" for x
    by (auto dest: prev_in_set next_in_set)
  define m1 where "m1 = (if next_in xs a = None then set_tbl t (\<lambda>T. T\<lparr>tail := prev_in xs a\<rparr>) m else m)"
  have t1: "touches (set xs) {t} m m1" unfolding m1_def by (simp add: touches_set_tbl)
  have "touches (set xs) {t} m1 (unlink_app (prev_in xs a) (next_in xs a) m1)"
    by (rule touches_unlink_app) (metis pn vx touches_valid [OF t1])+
  from touches_trans [OF t1 this] have tch: "touches (set xs) {t} m m'"
    by (simp only: m'_def unlinked_mem_def m1_def)
  then show "touches (set xs) {t} m m'" .
  have h: "hh_at (if nx = None then set_tbl t (\<lambda>T. T\<lparr>tail := p\<rparr>) m else m) x = hh_at m x" for nx :: ptr and p x
    by simp
  note hs = unlink_app_handle h m'_def unlinked_mem_def
  show "tbl (hh_at m' x) = tbl (hh_at m x)" "hashv (hh_at m' x) = hashv (hh_at m x)"
    by (simp_all add: hs)
  have T: "tbl_at m' t = (tbl_at m t)\<lparr>tail := if next_in xs a = None then prev_in xs a else tail (tbl_at m t)\<rparr>"
    by (simp add: m'_def unlinked_mem_def set_rules)
  show "app_ok m' t (remove1 a xs)"
    by (rule app_ok_remove [OF app a]) (use touches_valid [OF tch] vx in \<open>simp add: hs\<close>)
  show "keys_ok m' xs"
    by (rule keys_ok_cong [OF _ keys]) (simp add: touches_key [OF tch], simp add: hs)
  have "chains_ok m' (num_buckets (tbl_at m t)) (buckets (tbl_at m t)) cs"
    by (rule chains_ok_cong [where m = m])
       (use b touches_valid [OF tch] in \<open>auto simp: hs buckets_ok_def\<close>)
  then show "buckets_ok m' t cs" using b
    by (simp add: buckets_ok_def T) (simp add: m'_def unlinked_mem_def set_rules)
  show "num_items (tbl_at m' t) = of_nat (length xs)" "num_buckets (tbl_at m' t) = num_buckets (tbl_at m t)"
    by (simp_all add: T num)
  show "tail (tbl_at m' t) = last_opt (remove1 a xs)"
    using next_in_None_iff [OF d a] by (simp add: T tl last_opt_remove [OF d a])
  show "fresh m' = fresh m" by (simp add: m'_def unlinked_mem_def)
qed

lemma HASH_DELETE_HH_unlink:
  assumes ok: "table_ok m t xs cs" and a: "a \<in> set xs" and ne: "xs \<noteq> [a]"
    and y: "hd_opt (remove1 a xs) = Some y"
  defines "m1 \<equiv> unlinked_mem t (prev_in xs a) (next_in xs a) m"
  shows "HASH_DELETE_HH (hd_opt xs) (Some a) m =
    seq (load_hh (Some y) m1) (\<lambda>h.
    seq (load_tbl (tbl h) m1) (\<lambda>T.
    seq (HASH_DEL_IN_BKT (tbl h) (unat (HASH_TO_BKT (hashv (hh_at m a)) (num_buckets T))) (Some a) m1) (\<lambda>m.
    seq (upd_tbl_of (Some y) (\<lambda>T. T\<lparr>num_items := num_items T - 1\<rparr>) m) (\<lambda>m. Ok (Some y, m)))))"
proof -
  have app: "app_ok m t xs" and tv: "tvalid m t" and tl: "tail (tbl_at m t) = last_opt xs"
    using ok by (simp_all add: table_ok_def)
  have d: "distinct xs" and vx: "x \<in> set xs \<Longrightarrow> valid m x \<and> tbl (hh_at m x) = Some t" for x
    using app by (auto simp: app_ok_def)
  define p where "p = prev_in xs a"
  define nx where "nx = next_in xs a"
  have va: "valid m a" "app_prev (hh_at m a) = p" "app_next (hh_at m a) = nx" "tbl (hh_at m a) = Some t"
    using app a by (simp_all add: app_ok_def p_def nx_def)
  have pn: "p = Some x \<Longrightarrow> x \<in> set xs" "nx = Some x \<Longrightarrow> x \<in> set xs" for x
    by (auto simp: p_def nx_def dest: prev_in_set next_in_set)
  have pa: "p \<noteq> Some a" "nx \<noteq> Some a"
    using d next_in_neq [OF d, of a] prev_from_neq [OF d, of None a] by (auto simp: p_def nx_def)
  obtain x where x: "hd_opt xs = Some x" "x \<in> set xs" using a by (cases xs) auto
  have hd: "Some y = (if p = None then nx else Some x)"
    using y prev_in_None_iff [OF d a] x
    by (simp add: hd_opt_remove [OF d a] p_def nx_def split: if_splits)
  have tail: "last_opt xs = Some a \<longleftrightarrow> nx = None"
    using next_in_None_iff [OF d a] by (simp add: nx_def)
  have np: "\<not> (p = None \<and> nx = None)" using hd by auto
  define m0 where "m0 = (if nx = None then set_tbl t (\<lambda>T. T\<lparr>tail := p\<rparr>) m else m)"
  have m1: "m1 = unlink_app p nx m0" by (simp add: m1_def unlinked_mem_def m0_def p_def nx_def)
  have v0: "valid m0 = valid m" "flows m0 = flows m" by (simp_all add: m0_def)
  have st1: "(if Some a = tail (tbl_at m t) then upd_tbl_of (Some x) (\<lambda>T. T\<lparr>tail := p\<rparr>) m else Ok m) = Ok m0"
    using vx [OF x(2)] tv tl tail by (auto simp: run_simps m0_def)
  have st2: "seq (if p \<noteq> None
            then seq (upd_hh p (\<lambda>h. h\<lparr>app_next := nx\<rparr>) m0) (\<lambda>m. Ok (Some x, m))
            else Ok (nx, m0)) (\<lambda>(head, m).
       seq (load_hh (Some a) m) (\<lambda>d.
       seq (if app_next d \<noteq> None
            then upd_hh (app_next d) (\<lambda>h. h\<lparr>app_prev := app_prev d\<rparr>) m else Ok m) (\<lambda>m. K head d m))) =
     K (Some y) (hh_at m a) m1" for K :: "ptr \<Rightarrow> UT_hash_handle \<Rightarrow> mem \<Rightarrow> (ptr \<times> mem) outcome"
    using pn vx v0 pa va hd
    by (cases p; cases nx) (auto simp add: run_simps set_rules m1 unlink_app_def)
  have st0: "load_hh (Some a) m = Ok (hh_at m a)" "load_tbl_of (Some x) m = Ok (tbl_at m t)"
    using va vx [OF x(2)] tv by (simp_all add: run_simps)
  have np': "(p = None \<and> nx = None) = False" using np by auto
  show ?thesis
    unfolding HASH_DELETE_HH_def x(1)
    by (simp only: st0 seq.simps va(2,3) np' if_False st1 st2)
qed

lemma HASH_DEL_correct:
  assumes rep: "hash_rep m head tp xs" and wf: "mem_wf m" and a: "a \<in> set xs"
  shows "\<exists>head' m'. HASH_DEL head (Some a) m = Ok (head', m') \<and>
    hash_rep m' head' (if xs = [a] then None else tp) (remove1 a xs) \<and> mem_wf m' \<and>
    touches (set xs) (set_option tp) m m' \<and>
    (xs = [a] \<longrightarrow> flows m' = flows m \<and> tbls m' = (tbls m)(the tp := None))"
proof -
  obtain t cs where tp: "tp = Some t" and ok: "table_ok m t xs cs" and head: "head = hd_opt xs"
    using rep a by (cases xs) (auto simp: hash_rep_def)
  have tv: "tvalid m t" and app: "app_ok m t xs" using ok by (simp_all add: table_ok_def)
  show ?thesis
  proof (cases "xs = [a]")
    case True
    define m' where "m' = m\<lparr>tbls := (tbls m)(t := None)\<rparr>"
    have "valid m a" "tbl (hh_at m a) = Some t" "app_prev (hh_at m a) = None" "app_next (hh_at m a) = None"
      using app True by (simp_all add: app_ok_def)
    then have "HASH_DEL head (Some a) m = Ok (None, m')"
      using tv head True
      by (auto simp: HASH_DEL_def HASH_DELETE_def HASH_DELETE_HH_def run_simps free_tbl_def tvalid_def m'_def)
    moreover have "touches (set xs) (set_option tp) m m'"
      by (simp add: touches_def m'_def tp valid_def)
    moreover have "mem_wf m'" using wf by (simp add: mem_wf_def m'_def)
    ultimately show ?thesis using True tp by (intro exI [of _ None] exI [of _ m']) (simp add: m'_def)
  next
    case False
    have d: "distinct xs" using app by (simp add: app_ok_def)
    have ne: "remove1 a xs \<noteq> []" using False a d by (cases xs) (auto split: if_splits)
    then obtain y where y: "hd_opt (remove1 a xs) = Some y" "y \<in> set xs" "y \<noteq> a"
      using d by (cases "remove1 a xs") (auto, metis distinct_remove1 list.set_intros(1) set_remove1_eq DiffE singletonI)
    define m1 where "m1 = unlinked_mem t (prev_in xs a) (next_in xs a) m"
    note u = unlinked_mem_ok [OF ok a, folded m1_def]
    have inc: "in_chains cs = set xs" using ok by (simp add: table_ok_def)
    define i where "i = unat (HASH_TO_BKT (hashv (hh_at m1 a)) (num_buckets (tbl_at m1 t)))"
    obtain m2 cs' where r2: "HASH_DEL_IN_BKT (Some t) i (Some a) m1 = Ok m2" "buckets_ok m2 t cs'"
      "in_chains cs' = set xs - {a}" "num_items (tbl_at m2 t) = of_nat (length xs)"
      "tail (tbl_at m2 t) = last_opt (remove1 a xs)" and rel: "relinked (set xs) t m1 m2"
      using HASH_DEL_IN_BKT_correct [OF u(3) _ i_def] a u(4,6) unfolding inc by auto
    define m3 where "m3 = set_tbl t (\<lambda>T. T\<lparr>num_items := num_items T - 1\<rparr>) m2"
    have f3: "flows m3 = flows m2" by (simp add: m3_def)
    have vy: "valid m y" "tbl (hh_at m y) = Some t" using app y by (simp_all add: app_ok_def)
    have v1: "valid m1 y" "tvalid m1 t" "valid m2 y" "tvalid m2 t" "tbl (hh_at m2 y) = Some t"
      using vy u(3) r2(2) touches_valid [OF u(7)] touches_valid [OF relinked_touches [OF rel]]
      by (simp_all add: buckets_ok_def relinked_handle [OF rel] u(8))
    have run: "HASH_DEL head (Some a) m = Ok (Some y, m3)"
      unfolding HASH_DEL_def HASH_DELETE_def head
        HASH_DELETE_HH_unlink [OF ok a False y(1), folded m1_def]
      using v1 vy r2(1) by (simp add: run_simps u(8) i_def u(9) m3_def)
    have tch: "touches (set xs) {t} m m3"
      using touches_trans [OF u(7) relinked_touches [OF rel]]
      unfolding m3_def by (rule touches_step_tbl) simp
    have "mem_wf m3"
      by (rule touches_mem_wf [OF tch wf])
         (use mem_wf_tfresh [OF wf tv] rel u(10) in \<open>auto simp: m3_def relinked_def\<close>)
    moreover have "table_ok m3 t (remove1 a xs) cs'"
      unfolding table_ok_buckets_ok
    proof (intro conjI)
      show "buckets_ok m3 t cs'" unfolding m3_def by (rule buckets_ok_set_tbl [OF r2(2)])
      show "num_items (tbl_at m3 t) = of_nat (length (remove1 a xs))"
        using length_pos_if_in_set [OF a] a r2(4)
        by (cases "length xs") (simp_all add: m3_def length_remove1)
      show "tail (tbl_at m3 t) = last_opt (remove1 a xs)" using r2(5) by (simp add: m3_def)
      show "app_ok m3 t (remove1 a xs)"
        by (rule app_ok_cong [OF _ relinked_app_ok [OF rel u(1)]]) (simp add: f3 valid_flows [OF f3])
      show "in_chains cs' = set (remove1 a xs)" using r2(3) d by simp
      show "keys_ok m3 (remove1 a xs)"
        by (rule keys_ok_subset [OF keys_ok_cong [OF _ relinked_keys_ok [OF rel u(2)]]])
           (simp_all add: f3 set_remove1_subset)
    qed
    ultimately show ?thesis
      using run tch False y(1) ne tp
      by (intro exI [of _ "Some y"] exI [of _ m3]) (auto simp: hash_rep_def)
  qed
qed

section \<open>HASH_FSCK\<close>

lemma fsck_chain_ok:
  assumes "c = pre @ suf" and "distinct c" and "length suf \<le> n"
    and "\<forall>a \<in> set c. valid m a \<and> hh_next (hh_at m a) = next_in c a \<and> hh_prev (hh_at m a) = prev_in c a"
  shows "fsck_chain n (last_opt pre) (hd_opt suf) k m = Ok (k + of_nat (length suf))"
  using assms
proof (induction suf arbitrary: pre n k)
  case Nil
  then show ?case by simp
next
  case (Cons a suf)
  obtain n' where n: "n = Suc n'" using Cons.prems by (cases n) auto
  have ap: "a \<notin> set pre" using Cons.prems(1,2) by auto
  have a: "valid m a" "hh_next (hh_at m a) = hd_opt suf" "hh_prev (hh_at m a) = last_opt pre"
    using Cons.prems(1,4) ap by (simp_all add: next_in_split prev_in_split)
  have "fsck_chain n' (last_opt (pre @ [a])) (hd_opt suf) (k + 1) m = Ok (k + 1 + of_nat (length suf))"
    using Cons.prems n by (intro Cons.IH) simp_all
  then show ?case by (simp add: n run_simps a add.assoc)
qed

lemma fsck_list_ok:
  assumes "c = pre @ suf" and "length suf \<le> n" and "app_ok m t c"
  shows "fsck_list n (last_opt pre) (hd_opt suf) k m = Ok (k + of_nat (length suf))"
  using assms
proof (induction suf arbitrary: pre n k)
  case Nil
  then show ?case by simp
next
  case (Cons a suf)
  obtain n' where n: "n = Suc n'" using Cons.prems by (cases n) auto
  have ap: "a \<notin> set pre" using Cons.prems(1,3) by (auto simp: app_ok_def)
  have a: "valid m a" "app_next (hh_at m a) = hd_opt suf" "app_prev (hh_at m a) = last_opt pre"
    using Cons.prems(1,3) ap by (simp_all add: next_in_split prev_in_split app_ok_def)
  have "fsck_list n' (last_opt (pre @ [a])) (hd_opt suf) (k + 1) m = Ok (k + 1 + of_nat (length suf))"
    using Cons.prems n by (intro Cons.IH) simp_all
  then show ?case by (simp add: n run_simps a add.assoc)
qed

lemma fsck_buckets_ok:
  assumes "chains_ok m n bs cs" and "mem_wf m" and "\<forall>i \<in> set is. i < length cs"
  shows "fsck_buckets bs is k m = Ok (k + of_nat (\<Sum>i\<leftarrow>is. length (cs ! i)))"
  using assms(3)
proof (induction "is" arbitrary: k)
  case Nil
  then show ?case by simp
next
  case (Cons i js)
  have i: "i < length bs" "chain_ok m n i (bs ! i) (cs ! i)"
    using assms(1) Cons.prems by (auto simp: chains_ok_def)
  have "length (cs ! i) \<le> fresh m"
    using i(2) by (intro length_le_fresh [OF assms(2)]) (auto simp: chain_ok_def)
  then have "fsck_chain (fresh m) None (hd_opt (cs ! i)) 0 m = Ok (of_nat (length (cs ! i)))"
    using fsck_chain_ok [of "cs ! i" "[]" "cs ! i" "fresh m" m 0] i(2) by (auto simp: chain_ok_def)
  then show ?case using i Cons by (simp add: run_simps chain_ok_def add.assoc)
qed

lemma chains_total:
  assumes "chains_ok m n bs cs" and "distinct xs" and "in_chains cs = set xs"
  shows "(\<Sum>i\<leftarrow>[0..<length cs]. length (cs ! i)) = length xs"
proof -
  have "length xs = card (\<Union>i \<in> {..<length cs}. set (cs ! i))"
    using assms(2,3) by (simp add: in_chains_nth distinct_card [symmetric])
  also have "\<dots> = (\<Sum>i<length cs. card (set (cs ! i)))"
    by (rule card_UN_disjoint) (use chains_disjoint [OF assms(1)] in auto)
  also have "\<dots> = (\<Sum>i<length cs. length (cs ! i))"
    using assms(1) by (intro sum.cong) (auto simp: chains_ok_def chain_ok_def distinct_card)
  finally show ?thesis by (simp add: interv_sum_list_conv_sum_set_nat atLeast0LessThan)
qed

lemma HASH_FSCK_correct:
  assumes rep: "hash_rep m head tp xs" and wf: "mem_wf m"
  shows "HASH_FSCK head m = Ok ()"
proof (cases xs)
  case Nil
  then show ?thesis using rep by (simp add: HASH_FSCK_def)
next
  case (Cons x ys)
  then obtain t cs where head: "head = Some x" and ok: "table_ok m t xs cs"
    using rep by (auto simp: hash_rep_def)
  define T where "T = tbl_at m t"
  obtain k where k: "k < 32" "num_buckets T = 2 ^ k" "length cs = 2 ^ k"
    and T: "tvalid m t" "num_items T = of_nat (length xs)" "app_ok m t xs"
      "chains_ok m (num_buckets T) (buckets T) cs" "in_chains cs = set xs"
    using ok by (auto simp: table_ok_def T_def)
  have x: "valid m x" "tbl (hh_at m x) = Some t" and d: "distinct xs" "\<forall>a \<in> set xs. valid m a"
    using T(3) Cons by (auto simp: app_ok_def)
  have st1: "load_tbl_of (Some x) m = Ok T" using x T(1) by (simp add: run_simps T_def)
  have un: "unat (num_buckets T) = length cs" using k by (simp add: unat_pow2)
  have st2: "fsck_buckets (buckets T) [0..<unat (num_buckets T)] 0 m = Ok (of_nat (length xs))"
    using fsck_buckets_ok [OF T(4) wf, of "[0..<length cs]" 0] chains_total [OF T(4) d(1) T(5)] un
    by simp
  have st3: "fsck_list (fresh m) None (Some x) 0 m = Ok (of_nat (length xs))"
    using fsck_list_ok [of xs "[]" xs "fresh m" m t 0] length_le_fresh [OF wf d] T(3) Cons by simp
  show ?thesis by (simp add: HASH_FSCK_def head st1 st2 st3 T(2))
qed

end
