(* ===== verification/Keyed_Table.thy ===== *)
theory Keyed_Table
  imports Prelude
begin

text \<open>
  The interface between the flow table and its clients: a table in memory holds nodes with
  pairwise different keys, in insertion order.  The laws say what \<open>find\<close>, \<open>add\<close>, \<open>del\<close> and
  \<open>count\<close> return and keep; \<open>oom\<close> is the only reason for \<open>add\<close> to end the process.
\<close>

locale keyed_table =
  fixes rep :: "'m \<Rightarrow> 'h \<Rightarrow> 'p list \<Rightarrow> bool"
    and wf :: "'m \<Rightarrow> bool"
    and live :: "'m \<Rightarrow> 'p \<Rightarrow> bool"
    and key_of :: "'m \<Rightarrow> 'p \<Rightarrow> 'k"
    and oom :: "'m \<Rightarrow> 'h \<Rightarrow> bool"
    and find :: "'h \<Rightarrow> 'k \<Rightarrow> 'm \<Rightarrow> 'p option outcome"
    and add :: "'h \<Rightarrow> 'p \<Rightarrow> 'm \<Rightarrow> ('h \<times> 'm) outcome"
    and del :: "'h \<Rightarrow> 'p \<Rightarrow> 'm \<Rightarrow> ('h \<times> 'm) outcome"
    and count :: "'h \<Rightarrow> 'm \<Rightarrow> 'n outcome"
    and num :: "nat \<Rightarrow> 'n"
  assumes rep_distinct: "rep m h xs \<Longrightarrow> distinct xs"
    and rep_inj: "rep m h xs \<Longrightarrow> inj_on (key_of m) (set xs)"
    and rep_live: "rep m h xs \<Longrightarrow> p \<in> set xs \<Longrightarrow> live m p"
    and find_law: "rep m h xs \<Longrightarrow> wf m \<Longrightarrow> find h k m = Ok (List.find (\<lambda>p. key_of m p = k) xs)"
    and add_law: "rep m h xs \<Longrightarrow> wf m \<Longrightarrow> live m p \<Longrightarrow> p \<notin> set xs \<Longrightarrow>
      key_of m p \<notin> key_of m ` set xs \<Longrightarrow>
      safe (\<lambda>c. c = -1 \<and> oom m h)
        (\<lambda>(h', m'). rep m' h' (xs @ [p]) \<and> wf m' \<and> key_of m' = key_of m \<and> live m' = live m)
        (add h p m)"
    and del_law: "rep m h xs \<Longrightarrow> wf m \<Longrightarrow> p \<in> set xs \<Longrightarrow>
      \<exists>h' m'. del h p m = Ok (h', m') \<and> rep m' h' (remove1 p xs) \<and> wf m' \<and>
        key_of m' = key_of m \<and> live m' = live m"
    and count_law: "rep m h xs \<Longrightarrow> count h m = Ok (num (length xs))"
begin

lemma find_Some_iff_in:
  assumes "rep m h xs" and "wf m"
  shows "find h k m = Ok (Some p) \<longleftrightarrow> p \<in> set xs \<and> key_of m p = k"
proof
  assume "find h k m = Ok (Some p)"
  then show "p \<in> set xs \<and> key_of m p = k"
    using find_law [OF assms] by (auto simp: find_Some_iff)
next
  assume p: "p \<in> set xs \<and> key_of m p = k"
  then obtain q where q: "List.find (\<lambda>p. key_of m p = k) xs = Some q"
    by (metis (mono_tags, lifting) find_None_iff not_None_eq)
  then have "q \<in> set xs" "key_of m q = k" by (auto simp: find_Some_iff)
  then have "q = p" using p rep_inj [OF assms(1)] by (auto dest: inj_onD)
  then show "find h k m = Ok (Some p)" using q find_law [OF assms] by simp
qed

lemma find_None_iff_absent:
  assumes "rep m h xs" and "wf m"
  shows "find h k m = Ok None \<longleftrightarrow> k \<notin> key_of m ` set xs"
  using find_law [OF assms] by (auto simp: find_None_iff)

lemma find_snoc:
  "List.find P (xs @ [p]) = (case List.find P xs of None \<Rightarrow> if P p then Some p else None | Some q \<Rightarrow> Some q)"
  by (induction xs) auto

text \<open>A lookup after an insertion: the new node under its key, the old result elsewhere.\<close>

lemma find_after_add:
  assumes r: "rep m h xs" "wf m" and p: "live m p" "p \<notin> set xs"
    and absent: "find h (key_of m p) m = Ok None"
  shows "safe (\<lambda>c. c = -1 \<and> oom m h)
    (\<lambda>(h', m'). \<forall>k. find h' k m' = (if k = key_of m p then Ok (Some p) else find h k m))
    (add h p m)"
proof -
  have "key_of m p \<notin> key_of m ` set xs" using absent find_None_iff_absent [OF r] by simp
  from add_law [OF r p this] show ?thesis
    by (rule safe_mono)
       (use absent in \<open>auto simp: find_law [OF r] find_law find_snoc split: option.split\<close>)
qed

text \<open>A lookup after a removal: nothing under the removed key, the old result elsewhere.\<close>

lemma find_after_del:
  assumes r: "rep m h xs" "wf m" and p: "p \<in> set xs"
  shows "\<exists>h' m'. del h p m = Ok (h', m') \<and>
    (\<forall>k. find h' k m' = (if k = key_of m p then Ok None else find h k m))"
proof -
  obtain h' m' where d: "del h p m = Ok (h', m')" "rep m' h' (remove1 p xs)" "wf m'"
    "key_of m' = key_of m"
    using del_law [OF r p] by blast
  have set': "set (remove1 p xs) = set xs - {p}" using rep_distinct [OF r(1)] by simp
  have "find h' k m' = (if k = key_of m p then Ok None else find h k m)" for k
  proof (cases "\<exists>q \<in> set xs. key_of m q = k \<and> q \<noteq> p")
    case True
    then obtain q where q: "q \<in> set xs" "key_of m q = k" "q \<noteq> p" by blast
    then have "key_of m p \<noteq> k" using rep_inj [OF r(1)] p by (auto dest: inj_onD)
    moreover have "find h' k m' = Ok (Some q)" "find h k m = Ok (Some q)"
      using q find_Some_iff_in [OF d(2,3)] find_Some_iff_in [OF r] by (auto simp: d(4) set')
    ultimately show ?thesis by simp
  next
    case False
    then have "find h' k m' = Ok None" using find_None_iff_absent [OF d(2,3)] by (auto simp: d(4) set')
    moreover have "k \<noteq> key_of m p \<Longrightarrow> find h k m = Ok None"
      using False find_None_iff_absent [OF r] by auto
    ultimately show ?thesis by simp
  qed
  then show ?thesis using d(1) by blast
qed

text \<open>Adding and removing the same node gives the table back.\<close>

lemma del_after_add:
  assumes r: "rep m h xs" "wf m" and p: "live m p" "p \<notin> set xs" "key_of m p \<notin> key_of m ` set xs"
  shows "safe (\<lambda>c. c = -1 \<and> oom m h) (\<lambda>(h', m'). rep m' h' xs \<and> wf m')
    (seq (add h p m) (\<lambda>(h', m'). del h' p m'))"
proof (rule safe_seq [OF add_law [OF r p]], clarify)
  fix h' m' assume a: "rep m' h' (xs @ [p])" "wf m'"
  from del_law [OF a, of p] obtain h'' m'' where
    "del h' p m' = Ok (h'', m'')" "rep m'' h'' (remove1 p (xs @ [p]))" "wf m''" by auto
  then show "safe (\<lambda>c. c = -1 \<and> oom m h) (\<lambda>(h', m'). rep m' h' xs \<and> wf m') (del h' p m')"
    using p(2) by (simp add: remove1_append)
qed

end

end
