(* ===== verification/Uthash_Table.thy ===== *)
theory Uthash_Table
  imports Uthash_Del Keyed_Table
begin

text \<open>
  uthash provides the keyed-table interface, and the properties of its operations that
  follow from it.
\<close>

text \<open>Out of memory, as the head pointer determines it.\<close>

definition head_oom :: "mem \<Rightarrow> ptr \<Rightarrow> bool" where
  "head_oom m head \<longleftrightarrow> add_oom m (case head of None \<Rightarrow> None | Some x \<Rightarrow> tbl (hh_at m x))"

lemma head_oom: "hash_rep m head tp xs \<Longrightarrow> head_oom m head = add_oom m tp"
  by (cases xs) (auto simp: head_oom_def hash_rep_def table_ok_def app_ok_def)

definition table_rep :: "mem \<Rightarrow> ptr \<Rightarrow> addr list \<Rightarrow> bool" where
  "table_rep m head xs \<longleftrightarrow> (\<exists>tp. hash_rep m head tp xs)"

interpretation ut: keyed_table table_rep mem_wf valid key_at head_oom
  "\<lambda>head k m. HASH_FIND head (key_bytes k) m" "\<lambda>head p m. HASH_ADD head (Some p) m"
  "\<lambda>head p m. HASH_DEL head (Some p) m" HASH_COUNT of_nat
proof unfold_locales
  fix m head xs p assume rep: "table_rep m head xs" and wf: "mem_wf m"
    and p: "valid m p" "p \<notin> set xs" "key_at m p \<notin> key_at m ` set xs"
  from rep obtain tp where r: "hash_rep m head tp xs" by (auto simp: table_rep_def)
  show "safe (\<lambda>c. c = -1 \<and> head_oom m head)
     (\<lambda>(h', m'). table_rep m' h' (xs @ [p]) \<and> mem_wf m' \<and> key_at m' = key_at m \<and> valid m' = valid m)
     (HASH_ADD head (Some p) m)"
    by (rule safe_mono [OF HASH_ADD_correct [OF r wf p]])
       (auto simp: head_oom [OF r] table_rep_def fun_eq_iff touches_key touches_valid)
next
  fix m head xs p assume rep: "table_rep m head xs" and wf: "mem_wf m" and p: "p \<in> set xs"
  from rep obtain tp where r: "hash_rep m head tp xs" by (auto simp: table_rep_def)
  from HASH_DEL_correct [OF r wf p] obtain h' m' where
    "HASH_DEL head (Some p) m = Ok (h', m')" "hash_rep m' h' (if xs = [p] then None else tp) (remove1 p xs)"
    "mem_wf m'" and t: "touches (set xs) (set_option tp) m m'"
    by blast
  moreover have "key_at m' = key_at m" "valid m' = valid m"
    by (simp_all add: fun_eq_iff touches_key [OF t] touches_valid [OF t])
  ultimately show "\<exists>h' m'. HASH_DEL head (Some p) m = Ok (h', m') \<and> table_rep m' h' (remove1 p xs) \<and>
      mem_wf m' \<and> key_at m' = key_at m \<and> valid m' = valid m"
    unfolding table_rep_def by blast
qed (auto simp: table_rep_def HASH_FIND_correct HASH_COUNT_correct hash_rep_distinct hash_rep_inj hash_rep_valid)

section \<open>A concrete heap\<close>

text \<open>Two allocated nodes with different keys, neither of them in a table yet.\<close>

definition example_key :: "nat \<Rightarrow> flow_key_t" where
  "example_key i = zero_key\<lparr>src_ip := 0x0100000A, dst_ip := 0x0200000A, src_port := of_nat i, protocol := 6\<rparr>"

definition example_mem :: mem where
  "example_mem =
     \<lparr>flows = [0 \<mapsto> zero_flow\<lparr>key := example_key 0\<rparr>, 1 \<mapsto> zero_flow\<lparr>key := example_key 1\<rparr>],
      tbls = Map.empty, fresh = 2, budget = 100, max_block = 1048576\<rparr>"

lemma example_mem_facts:
  "mem_wf example_mem" "valid example_mem 0" "valid example_mem 1"
  "key_at example_mem 0 = example_key 0" "key_at example_mem 1 = example_key 1"
  "table_rep example_mem None []" "\<not> head_oom example_mem None" "example_key 0 \<noteq> example_key 1"
  by (simp_all add: example_mem_def mem_wf_def valid_def table_rep_def head_oom_def add_oom_def
      example_key_def zero_key_def)

lemma example_table:
  "\<exists>head m. HASH_ADD None (Some 0) example_mem = Ok (head, m) \<and> table_rep m head [0] \<and> mem_wf m \<and>
     key_at m 0 = example_key 0 \<and> valid m 1 \<and> key_at m 1 = example_key 1"
proof -
  have "safe (\<lambda>c. False)
      (\<lambda>(h', m'). table_rep m' h' ([] @ [0]) \<and> mem_wf m' \<and> key_at m' = key_at example_mem \<and>
         valid m' = valid example_mem) (HASH_ADD None (Some 0) example_mem)"
    by (rule safe_mono [OF ut.add_law]) (use example_mem_facts in auto)
  from safe_returns [OF this] obtain head m where
    "HASH_ADD None (Some 0) example_mem = Ok (head, m)" "table_rep m head [0]" "mem_wf m"
    and eq: "key_at m = key_at example_mem" "valid m = valid example_mem"
    by auto
  moreover have "key_at m 0 = example_key 0" "key_at m 1 = example_key 1" "valid m 1"
    using fun_cong [OF eq(1)] example_mem_facts by (simp_all add: eq(2))
  ultimately show ?thesis by blast
qed

section \<open>Properties\<close>

text \<open>
  \<open>HASH_FIND\<close> on the bytes of a key returns the element of the table with that key, and
  only that one; it returns \<open>NULL\<close> exactly when no element has the key.
\<close>

theorem HASH_FIND_finds:
  assumes "table_rep m head xs" and "mem_wf m"
  shows "(HASH_FIND head (key_bytes k) m = Ok (Some a) \<longleftrightarrow> a \<in> set xs \<and> key_at m a = k) \<and>
    (HASH_FIND head (key_bytes k) m = Ok None \<longleftrightarrow> (\<forall>b \<in> set xs. key_at m b \<noteq> k))"
  using ut.find_Some_iff_in [OF assms] ut.find_None_iff_absent [OF assms] by auto

theorem HASH_FIND_finds_witness:
  "\<exists>head m. HASH_FIND head (key_bytes (example_key 0)) m = Ok (Some 0) \<and>
     HASH_FIND head (key_bytes (example_key 1)) m = Ok None"
proof -
  obtain head m where t: "table_rep m head [0]" "mem_wf m" "key_at m 0 = example_key 0"
    using example_table by blast
  show ?thesis
    using HASH_FIND_finds [OF t(1,2), of "example_key 0" 0] HASH_FIND_finds [OF t(1,2), of "example_key 1" 0]
      t(3) example_mem_facts(8) by auto
qed

text \<open>
  C4: \<open>HASH_ADD\<close> of an element with a new key appends it to the table in insertion order
  and keeps the table well formed, through the creation of the table, the bucket insertion and
  the expansion of the bucket array.  It never faults, and it ends the process only when an
  allocation fails.  Nothing outside the table changes: no other node, no other table object.
\<close>

theorem HASH_ADD_appends:
  assumes "hash_rep m head tp xs" and "mem_wf m" and "valid m a" and "a \<notin> set xs"
    and "key_at m a \<notin> key_at m ` set xs"
  shows "safe (\<lambda>c. c = -1 \<and> add_oom m tp)
    (\<lambda>(head', m'). hash_rep m' head' (Some (add_tbl m tp)) (xs @ [a]) \<and> mem_wf m' \<and>
       touches (insert a (set xs)) {add_tbl m tp} m m')
    (HASH_ADD head (Some a) m)"
  by (rule HASH_ADD_correct [OF assms])

theorem HASH_ADD_appends_witness:
  "safe (\<lambda>c. c = -1 \<and> add_oom example_mem None)
    (\<lambda>(head', m'). hash_rep m' head' (Some (add_tbl example_mem None)) ([] @ [0]) \<and> mem_wf m' \<and>
       touches (insert 0 (set [])) {add_tbl example_mem None} example_mem m')
    (HASH_ADD None (Some 0) example_mem) \<and> \<not> add_oom example_mem None"
  using HASH_ADD_appends [of example_mem None None "[]" 0] example_mem_facts
  by (simp add: head_oom_def)

text \<open>
  After \<open>HASH_ADD\<close> a lookup returns the new element under its key and what it returned
  before under every other key.
\<close>

theorem HASH_FIND_after_HASH_ADD:
  assumes "table_rep m head xs" and "mem_wf m" and "valid m a" and "a \<notin> set xs"
    and "HASH_FIND head (key_bytes (key_at m a)) m = Ok None"
  shows "safe (\<lambda>c. c = -1 \<and> head_oom m head)
    (\<lambda>(head', m'). \<forall>k. HASH_FIND head' (key_bytes k) m' =
       (if k = key_at m a then Ok (Some a) else HASH_FIND head (key_bytes k) m))
    (HASH_ADD head (Some a) m)"
  by (rule ut.find_after_add [OF assms])

theorem HASH_FIND_after_HASH_ADD_witness:
  "\<exists>head m head' m'. HASH_FIND head (key_bytes (example_key 0)) m = Ok None \<and>
     HASH_ADD head (Some 0) m = Ok (head', m') \<and>
     HASH_FIND head' (key_bytes (example_key 0)) m' = Ok (Some 0)"
proof -
  have none: "HASH_FIND None (key_bytes (example_key 0)) example_mem = Ok None"
    by (simp add: HASH_FIND_def)
  obtain head m where "HASH_ADD None (Some 0) example_mem = Ok (head, m)" using example_table by blast
  then show ?thesis
    using HASH_FIND_after_HASH_ADD [of example_mem None "[]" 0] example_mem_facts none
    by (intro exI [of _ None] exI [of _ example_mem] exI [of _ head] exI [of _ m]) simp
qed

text \<open>
  C24: \<open>HASH_DEL\<close> of an element of the table succeeds, removes it from the list and from its
  bucket, keeps the order of the others and the well-formedness of the table, and frees the
  table object with the last element.
\<close>

theorem HASH_DEL_removes:
  assumes "hash_rep m head tp xs" and "mem_wf m" and "a \<in> set xs"
  shows "\<exists>head' m'. HASH_DEL head (Some a) m = Ok (head', m') \<and>
    hash_rep m' head' (if xs = [a] then None else tp) (remove1 a xs) \<and> mem_wf m' \<and>
    touches (set xs) (set_option tp) m m' \<and>
    (xs = [a] \<longrightarrow> flows m' = flows m \<and> tbls m' = (tbls m)(the tp := None))"
  by (rule HASH_DEL_correct [OF assms])

theorem HASH_DEL_removes_witness:
  "\<exists>head m head' m'. HASH_ADD None (Some 0) example_mem = Ok (head, m) \<and>
     HASH_DEL head (Some 0) m = Ok (head', m') \<and> hash_rep m' head' None []"
proof -
  obtain head m where t: "HASH_ADD None (Some 0) example_mem = Ok (head, m)" "table_rep m head [0]" "mem_wf m"
    using example_table by blast
  then obtain tp where "hash_rep m head tp [0]" by (auto simp: table_rep_def)
  from HASH_DEL_removes [OF this t(3), of 0] t(1) show ?thesis by auto
qed

text \<open>
  After \<open>HASH_DEL\<close> a lookup finds nothing under the removed key and what it found before
  under every other key.
\<close>

theorem HASH_FIND_after_HASH_DEL:
  assumes "table_rep m head xs" and "mem_wf m" and "a \<in> set xs"
  shows "\<exists>head' m'. HASH_DEL head (Some a) m = Ok (head', m') \<and>
    (\<forall>k. HASH_FIND head' (key_bytes k) m' =
       (if k = key_at m a then Ok None else HASH_FIND head (key_bytes k) m))"
  by (rule ut.find_after_del [OF assms])

theorem HASH_FIND_after_HASH_DEL_witness:
  "\<exists>head m head' m'. HASH_ADD None (Some 0) example_mem = Ok (head, m) \<and>
     HASH_DEL head (Some 0) m = Ok (head', m') \<and>
     HASH_FIND head' (key_bytes (example_key 0)) m' = Ok None"
proof -
  obtain head m where t: "HASH_ADD None (Some 0) example_mem = Ok (head, m)" "table_rep m head [0]" "mem_wf m"
    "key_at m 0 = example_key 0"
    using example_table by blast
  from HASH_FIND_after_HASH_DEL [OF t(2,3), of 0] t(1,4) show ?thesis by auto
qed

text \<open>
  C22: \<open>HASH_EXPAND_BUCKETS\<close> doubles the bucket array and moves every element to the chain of
  its new bucket: the table keeps its elements and their order, and every lookup its result.
  It fails only when the new array cannot be allocated.
\<close>

theorem HASH_EXPAND_BUCKETS_keeps_table:
  assumes "table_ok m t xs cs" and "mem_wf m" and "head = hd_opt xs"
  shows "safe (\<lambda>c. c = -1 \<and> (budget m = 0 \<or> max_block m < 32 * unat (num_buckets (tbl_at m t))))
    (\<lambda>m'. (\<exists>cs'. table_ok m' t xs cs') \<and> num_buckets (tbl_at m' t) = num_buckets (tbl_at m t) * 2 \<and>
       (\<forall>k. HASH_FIND head (key_bytes k) m' = HASH_FIND head (key_bytes k) m))
    (HASH_EXPAND_BUCKETS (Some t) m)"
proof (rule safe_mono [OF HASH_EXPAND_BUCKETS_correct])
  show "buckets_ok m t cs" using assms(1) by (simp add: table_ok_buckets_ok)
  have inc: "in_chains cs = set xs" using assms(1) by (simp add: table_ok_def)
  fix m' assume "\<exists>cs'. buckets_ok m' t cs' \<and> in_chains cs' = in_chains cs \<and>
       num_items (tbl_at m' t) = num_items (tbl_at m t) \<and>
       tail (tbl_at m' t) = tail (tbl_at m t) \<and> relinked (in_chains cs) t m m' \<and>
       num_buckets (tbl_at m' t) = num_buckets (tbl_at m t) * 2"
  then obtain cs' where ok: "table_ok m' t xs cs'" and rel: "relinked (set xs) t m m'"
    and n: "num_buckets (tbl_at m' t) = num_buckets (tbl_at m t) * 2"
    using assms(1) relinked_app_ok relinked_keys_ok by (auto simp: table_ok_buckets_ok inc)
  have "t < fresh m'"
    using rel assms(1,2) mem_wf_tfresh [of m t] by (simp add: relinked_def table_ok_def)
  then have wf': "mem_wf m'"
    by (intro touches_mem_wf [OF relinked_touches [OF rel] assms(2)]) simp
  have rep: "\<exists>tp. hash_rep m head tp xs" "\<exists>tp. hash_rep m' head tp xs"
    using assms(1,3) ok by (cases xs; auto simp: hash_rep_def)+
  have "HASH_FIND head (key_bytes k) m' = HASH_FIND head (key_bytes k) m" for k
    using rep HASH_FIND_correct [OF _ wf'] HASH_FIND_correct [OF _ assms(2)]
      touches_key [OF relinked_touches [OF rel]] by auto
  then show "(\<exists>cs'. table_ok m' t xs cs') \<and> num_buckets (tbl_at m' t) = num_buckets (tbl_at m t) * 2 \<and>
       (\<forall>k. HASH_FIND head (key_bytes k) m' = HASH_FIND head (key_bytes k) m)"
    using ok n by blast
qed (use assms in auto)

theorem HASH_EXPAND_BUCKETS_keeps_table_witness:
  "\<exists>m t xs cs. xs \<noteq> [] \<and> safe (\<lambda>c. c = -1 \<and> (budget m = 0 \<or> max_block m < 32 * unat (num_buckets (tbl_at m t))))
    (\<lambda>m'. (\<exists>cs'. table_ok m' t xs cs') \<and> num_buckets (tbl_at m' t) = num_buckets (tbl_at m t) * 2 \<and>
       (\<forall>k. HASH_FIND (hd_opt xs) (key_bytes k) m' = HASH_FIND (hd_opt xs) (key_bytes k) m))
    (HASH_EXPAND_BUCKETS (Some t) m)"
proof -
  obtain head m where t: "table_rep m head [0]" "mem_wf m" using example_table by blast
  then obtain t cs where "table_ok m t [0] cs" by (auto simp: table_rep_def hash_rep_def)
  from HASH_EXPAND_BUCKETS_keeps_table [OF this t(2) refl] show ?thesis by blast
qed

text \<open>
  The integrity check \<open>HASH_FSCK\<close> of uthash's debug builds accepts every table the
  development calls well formed: bucket counts, the previous pointers of the chains and of the
  list, and the item count agree, and no walk leaves the table.
\<close>

theorem HASH_FSCK_accepts:
  assumes "hash_rep m head tp xs" and "mem_wf m"
  shows "HASH_FSCK head m = Ok ()"
  by (rule HASH_FSCK_correct [OF assms])

theorem HASH_FSCK_accepts_witness:
  "\<exists>head m. HASH_ADD None (Some 0) example_mem = Ok (head, m) \<and> HASH_FSCK head m = Ok ()"
proof -
  obtain head m where t: "HASH_ADD None (Some 0) example_mem = Ok (head, m)" "table_rep m head [0]" "mem_wf m"
    using example_table by blast
  then show ?thesis using HASH_FSCK_accepts [of m head _ "[0]"] by (auto simp: table_rep_def)
qed

text \<open>
  An element that was just added can be deleted again, and the table is then what it was
  before: \<open>HASH_DEL\<close> undoes \<open>HASH_ADD\<close>.
\<close>

theorem HASH_DEL_undoes_HASH_ADD:
  assumes "table_rep m head xs" and "mem_wf m" and "valid m a" and "a \<notin> set xs"
    and "key_at m a \<notin> key_at m ` set xs"
  shows "safe (\<lambda>c. c = -1 \<and> head_oom m head) (\<lambda>(head', m'). table_rep m' head' xs \<and> mem_wf m')
    (seq (HASH_ADD head (Some a) m) (\<lambda>(head', m'). HASH_DEL head' (Some a) m'))"
  by (rule ut.del_after_add [OF assms])

theorem HASH_DEL_undoes_HASH_ADD_witness:
  "safe (\<lambda>c. False) (\<lambda>(head', m'). table_rep m' head' [] \<and> mem_wf m')
    (seq (HASH_ADD None (Some 0) example_mem) (\<lambda>(head', m'). HASH_DEL head' (Some 0) m'))"
  by (rule safe_mono [OF HASH_DEL_undoes_HASH_ADD])
     (use example_mem_facts in auto)

end
