(* ===== verification/Uthash_Iter.thy ===== *)
theory Uthash_Iter
  imports Uthash_Table
begin

text \<open>
  \<open>HASH_ITER\<close>, the loop that reads the successor of an element before its body runs, so that
  the body may remove and free the element.  Both loops of the sniffer do that: they drain
  the table.
\<close>

text \<open>The expression \<open>(p != NULL) ? p->hh.next : NULL\<close>.\<close>

definition next_or_null :: "ptr \<Rightarrow> mem \<Rightarrow> ptr outcome" where
  "next_or_null p m = (case p of None \<Rightarrow> Ok None | Some _ \<Rightarrow> seq (load_hh p m) (\<lambda>h. Ok (app_next h)))"

text \<open>The loop: \<open>el\<close>, \<open>tmp\<close>, the local state of the body and the heap.\<close>

fun HASH_ITER_loop ::
  "nat \<Rightarrow> (addr \<Rightarrow> 's \<Rightarrow> mem \<Rightarrow> ('s \<times> mem) outcome) \<Rightarrow> ptr \<Rightarrow> ptr \<Rightarrow> 's \<Rightarrow> mem \<Rightarrow> ('s \<times> mem) outcome" where
  "HASH_ITER_loop n body None tmp s m = Ok (s, m)"
| "HASH_ITER_loop 0 body (Some a) tmp s m = Fault OutOfFuel"
| "HASH_ITER_loop (Suc n) body (Some a) tmp s m =
     seq (body a s m) (\<lambda>(s, m).
     seq (next_or_null tmp m) (\<lambda>nxt. HASH_ITER_loop n body tmp nxt s m))"

definition HASH_ITER ::
  "(addr \<Rightarrow> 's \<Rightarrow> mem \<Rightarrow> ('s \<times> mem) outcome) \<Rightarrow> ptr \<Rightarrow> 's \<Rightarrow> mem \<Rightarrow> ('s \<times> mem) outcome" where
  "HASH_ITER body head s m =
     seq (next_or_null head m) (\<lambda>tmp. HASH_ITER_loop (fresh m) body head tmp s m)"

section \<open>Draining a table\<close>

text \<open>A body that uses the element, removes it and frees it; \<open>emit\<close> is the use.\<close>

definition drain_body ::
  "(addr \<Rightarrow> 'o \<Rightarrow> mem \<Rightarrow> 'o outcome) \<Rightarrow> addr \<Rightarrow> ptr \<times> 'o \<Rightarrow> mem \<Rightarrow> ((ptr \<times> 'o) \<times> mem) outcome" where
  "drain_body emit a s m =
     (case s of (head, out) \<Rightarrow>
        seq (emit a out m) (\<lambda>out.
        seq (HASH_DEL head (Some a) m) (\<lambda>(head, m).
        seq (free_flow (Some a) m) (\<lambda>m. Ok ((head, out), m)))))"

text \<open>A use that reads the element only, and of it only the members before the handle.\<close>

definition emits :: "(addr \<Rightarrow> 'o \<Rightarrow> mem \<Rightarrow> 'o outcome) \<Rightarrow> (flow_stats \<Rightarrow> 'o \<Rightarrow> 'o) \<Rightarrow> bool" where
  "emits emit e \<longleftrightarrow> (\<forall>a out m. valid m a \<longrightarrow> emit a out m = Ok (e (stats_of (flow_at m a)) out))"

text \<open>
  \<open>freed m m' A t\<close>: the nodes in \<open>A\<close> and the table object \<open>t\<close> are gone, everything else
  is as before.
\<close>

definition freed :: "mem \<Rightarrow> mem \<Rightarrow> addr set \<Rightarrow> ptr \<Rightarrow> bool" where
  "freed m m' A tp \<longleftrightarrow>
     flows m' = (\<lambda>a. if a \<in> A then None else flows m a) \<and>
     tbls m' = (\<lambda>t. if tp = Some t then None else tbls m t)"

lemma free_flow_rep:
  assumes rep: "hash_rep m head tp xs" and a: "a \<notin> set xs" "valid m a" and wf: "mem_wf m"
  defines "m' \<equiv> m\<lparr>flows := (flows m)(a := None)\<rparr>"
  shows "free_flow (Some a) m = Ok m'" "hash_rep m' head tp xs" "mem_wf m'"
proof -
  show "free_flow (Some a) m = Ok m'" using a(2) by (auto simp: free_flow_def valid_def m'_def)
  show "hash_rep m' head tp xs"
    by (rule hash_rep_same_nodes [OF _ rep]) (use a(1) in \<open>auto simp: same_nodes_def m'_def\<close>)
  show "mem_wf m'" using wf by (simp add: mem_wf_def m'_def)
qed

lemma next_or_null_rep:
  "hash_rep m head tp xs \<Longrightarrow> next_or_null (hd_opt xs) m = Ok (hd_opt (tl xs))"
  by (cases xs) (auto simp: next_or_null_def hash_rep_def table_ok_def app_ok_def run_simps)

lemma stats_of_eq_upd:
  "touches A S m m' \<Longrightarrow> stats_of (flow_at m' a) = stats_of (flow_at m a)"
  by (simp add: touches_def)

text \<open>One iteration: the first element is used, removed and freed.\<close>

definition drained :: "mem \<Rightarrow> mem \<Rightarrow> addr \<Rightarrow> addr list \<Rightarrow> ptr \<Rightarrow> bool" where
  "drained m m' a ys tp \<longleftrightarrow>
     hash_rep m' (hd_opt ys) (if ys = [] then None else tp) ys \<and> mem_wf m' \<and> fresh m \<le> fresh m' \<and>
     (\<forall>b. b \<notin> set (a # ys) \<longrightarrow> flows m' b = flows m b) \<and>
     (\<forall>b. valid m' b \<longleftrightarrow> valid m b \<and> b \<noteq> a) \<and>
     (\<forall>b. b \<noteq> a \<longrightarrow> stats_of (flow_at m' b) = stats_of (flow_at m b)) \<and>
     (\<forall>s. tp \<noteq> Some s \<longrightarrow> tbls m' s = tbls m s) \<and>
     (ys = [] \<longrightarrow> tbls m' = (tbls m)(the tp := None))"

lemma drain_step:
  assumes rep: "hash_rep m (hd_opt (a # ys)) tp (a # ys)" and wf: "mem_wf m" and emit: "emits emit e"
  shows "\<exists>m'. drain_body emit a (hd_opt (a # ys), out) m =
      Ok ((hd_opt ys, e (stats_of (flow_at m a)) out), m') \<and> drained m m' a ys tp"
proof -
  from HASH_DEL_correct [OF rep wf, of a]
  obtain h1 m1 where del: "HASH_DEL (hd_opt (a # ys)) (Some a) m = Ok (h1, m1)"
    and rep1: "hash_rep m1 h1 (if a # ys = [a] then None else tp) ys" and wf1: "mem_wf m1"
    and t1: "touches (set (a # ys)) (set_option tp) m m1"
    and last: "a # ys = [a] \<longrightarrow> flows m1 = flows m \<and> tbls m1 = (tbls m)(the tp := None)"
    by auto
  have va: "valid m a" "valid m1 a" and d: "a \<notin> set ys"
    using hash_rep_valid [OF rep] hash_rep_distinct [OF rep] touches_valid [OF t1] by auto
  define m2 where "m2 = m1\<lparr>flows := (flows m1)(a := None)\<rparr>"
  note fr = free_flow_rep [OF rep1 d va(2) wf1, folded m2_def]
  have h1: "h1 = hd_opt ys" using hash_rep_head [OF rep1] .
  have body: "drain_body emit a (hd_opt (a # ys), out) m = Ok ((hd_opt ys, e (stats_of (flow_at m a)) out), m2)"
    using va del fr(1) h1 emit by (simp add: drain_body_def emits_def del: hd_opt_simps)
  have "valid m2 b \<longleftrightarrow> valid m b \<and> b \<noteq> a" for b
    using touches_valid [OF t1, of b] by (auto simp: m2_def valid_def)
  moreover have "tbls m2 s = tbls m s" if "tp \<noteq> Some s" for s
    using t1 that by (auto simp: touches_def m2_def)
  ultimately have "drained m m2 a ys tp"
    using fr(2,3) h1 t1 last stats_of_eq_upd [OF t1]
    unfolding drained_def by (auto simp: m2_def touches_def)
  then show ?thesis using body by blast
qed

lemma drain_correct:
  assumes "hash_rep m (hd_opt xs) tp xs" and "mem_wf m" and "length xs \<le> n"
    and emit: "emits emit e"
  shows "\<exists>m'. HASH_ITER_loop n (drain_body emit) (hd_opt xs) (hd_opt (tl xs)) (hd_opt xs, out) m =
      Ok ((None, fold (\<lambda>a. e (stats_of (flow_at m a))) xs out), m') \<and>
    mem_wf m' \<and> freed m m' (set xs) tp \<and> fresh m \<le> fresh m'"
  using assms(1-3)
proof (induction xs arbitrary: n m tp out)
  case Nil
  then show ?case by (simp add: freed_def)
next
  case (Cons a ys)
  obtain n' where n: "n = Suc n'" using Cons.prems(3) by (cases n) auto
  let ?out = "e (stats_of (flow_at m a)) out"
  obtain m2 where body: "drain_body emit a (hd_opt (a # ys), out) m = Ok ((hd_opt ys, ?out), m2)"
    and dr: "drained m m2 a ys tp"
    using drain_step [OF Cons.prems(1,2) emit] by blast
  have rep2: "hash_rep m2 (hd_opt ys) (if ys = [] then None else tp) ys" and wf2: "mem_wf m2"
    using dr by (auto simp: drained_def)
  have len: "length ys \<le> n'" using Cons.prems(3) n by simp
  from Cons.IH [OF rep2 wf2 len, of ?out]
  obtain m' where run: "HASH_ITER_loop n' (drain_body emit) (hd_opt ys) (hd_opt (tl ys)) (hd_opt ys, ?out) m2 =
      Ok ((None, fold (\<lambda>a. e (stats_of (flow_at m2 a))) ys ?out), m')"
    and wf': "mem_wf m'" and freed2: "freed m2 m' (set ys) (if ys = [] then None else tp)"
    and fr': "fresh m2 \<le> fresh m'"
    by blast
  have d: "a \<notin> set ys" and tp: "tp \<noteq> None"
    using hash_rep_distinct [OF Cons.prems(1)] Cons.prems(1) by (auto simp: hash_rep_def)
  have "stats_of (flow_at m2 b) = stats_of (flow_at m b)" if "b \<in> set ys" for b
    using dr that d by (auto simp: drained_def)
  then have fold: "fold (\<lambda>a. e (stats_of (flow_at m2 a))) ys x = fold (\<lambda>a. e (stats_of (flow_at m a))) ys x" for x
    by (intro fold_cong) auto
  have fl: "flows m' b = (if b \<in> set (a # ys) then None else flows m b)" for b
    using freed2 dr d by (auto simp: freed_def drained_def valid_def)
  have "tbls m' s = (if tp = Some s then None else tbls m s)" for s
    using freed2 dr tp by (cases "ys = []") (auto simp: freed_def drained_def)
  then have "freed m m' (set (a # ys)) tp" using fl by (simp add: freed_def fun_eq_iff)
  moreover have "fresh m \<le> fresh m'" using fr' dr by (simp add: drained_def)
  ultimately show ?case
    using wf' run body next_or_null_rep [OF rep2]
    by (intro exI [of _ m']) (simp add: n run_simps fold)
qed

lemma HASH_ITER_drain:
  assumes rep: "hash_rep m head tp xs" and wf: "mem_wf m"
    and emit: "emits emit e"
  shows "\<exists>m'. HASH_ITER (drain_body emit) head (head, out) m =
      Ok ((None, fold (\<lambda>a. e (stats_of (flow_at m a))) xs out), m') \<and>
    mem_wf m' \<and> freed m m' (set xs) tp \<and> fresh m \<le> fresh m'"
proof -
  have head: "head = hd_opt xs" using rep by (rule hash_rep_head)
  have "length xs \<le> fresh m"
    by (rule length_le_fresh [OF wf hash_rep_distinct [OF rep]]) (use hash_rep_valid [OF rep] in blast)
  from drain_correct [OF rep [unfolded head] wf this emit]
  show ?thesis
    using next_or_null_rep [OF rep] by (simp add: HASH_ITER_def head run_simps)
qed

section \<open>Loops that only read\<close>

lemma next_or_null_within:
  assumes "hash_rep m head tp (ps @ a # ys)"
  shows "next_or_null (hd_opt ys) m = Ok (hd_opt (tl ys))"
proof (cases ys)
  case (Cons b zs)
  have "distinct (ps @ a # b # zs)" using hash_rep_distinct [OF assms] Cons by simp
  then have "next_in (ps @ a # b # zs) b = hd_opt zs"
    by (induction ps) auto
  then show ?thesis
    using assms Cons by (auto simp: next_or_null_def hash_rep_def table_ok_def app_ok_def run_simps)
qed (simp add: next_or_null_def)

lemma iter_read:
  assumes "hash_rep m head tp (ps @ ys)" and "\<And>a s. a \<in> set ys \<Longrightarrow> body a s m = Ok (g a s, m)"
    and "length ys \<le> n"
  shows "HASH_ITER_loop n body (hd_opt ys) (hd_opt (tl ys)) s m = Ok (fold g ys s, m)"
  using assms
proof (induction ys arbitrary: n ps s)
  case (Cons a ys)
  obtain n' where n: "n = Suc n'" using Cons.prems(3) by (cases n) auto
  have "HASH_ITER_loop n' body (hd_opt ys) (hd_opt (tl ys)) (g a s) m = Ok (fold g ys (g a s), m)"
    by (rule Cons.IH [of "ps @ [a]"]) (use Cons.prems n in auto)
  then show ?case
    using n Cons.prems(2) [of a s] next_or_null_within [OF Cons.prems(1)]
    by (cases ys) (auto simp: run_simps)
qed simp

lemma HASH_ITER_read:
  assumes rep: "hash_rep m head tp xs" and wf: "mem_wf m"
    and "\<And>a s. a \<in> set xs \<Longrightarrow> body a s m = Ok (g a s, m)"
  shows "HASH_ITER body head s m = Ok (fold g xs s, m)"
proof -
  have "length xs \<le> fresh m"
    by (rule length_le_fresh [OF wf hash_rep_distinct [OF rep]]) (use hash_rep_valid [OF rep] in blast)
  then show ?thesis
    using iter_read [of m head tp "[]" xs body g "fresh m" s] assms next_or_null_rep [OF rep] hash_rep_head [OF rep]
    by (simp add: HASH_ITER_def run_simps)
qed

end
