(* ===== verification/Flow.thy ===== *)
theory Flow
  imports Uthash_Iter
begin

text \<open>
  flow.c: creation of a flow, the update of its statistics by a packet, the inference of its
  direction, the lookup-or-insert step of the aggregation engine, and the release of a
  table; and the context struct of parser.h they work on.
\<close>

section \<open>The context (parser.h)\<close>

text \<open>
  The two tables are the two elements of \<open>tables\<close>; \<open>active_idx\<close> and \<open>is_running\<close> are the
  C \<open>int\<close>s.  The mutex is its holder, the producer handle an opaque pointer.
\<close>

datatype thread = Capture_thread | Flush_thread

record sniffer_context =
  tables :: "ptr list"
  active_idx :: int
  mutex :: "thread option"
  net_ip :: u32
  net_mask :: u32
  is_running :: int
  kafka_producer :: ptr

definition get_table :: "sniffer_context \<Rightarrow> int \<Rightarrow> ptr outcome" where
  "get_table ctx i =
     (if 0 \<le> i \<and> i < int (length (tables ctx)) then Ok (tables ctx ! nat i) else Fault OutOfBounds)"

definition set_table :: "int \<Rightarrow> ptr \<Rightarrow> sniffer_context \<Rightarrow> sniffer_context outcome" where
  "set_table i p ctx =
     (if 0 \<le> i \<and> i < int (length (tables ctx))
      then Ok (ctx\<lparr>tables := (tables ctx)[nat i := p]\<rparr>) else Fault OutOfBounds)"

section \<open>Creation\<close>

definition sizeof_flow_t :: nat where "sizeof_flow_t = 144"
definition EXIT_FAILURE :: int where "EXIT_FAILURE = 1"

text \<open>\<open>calloc\<close> returns an object whose members are all zero: \<open>zero_flow\<close>.\<close>

definition flow_create :: "flow_key_t \<Rightarrow> mem \<Rightarrow> (ptr \<times> mem) outcome" where
  "flow_create k m =
     (case alloc sizeof_flow_t m of
        (None, m) \<Rightarrow> Exit EXIT_FAILURE
      | (Some a, m) \<Rightarrow>
          let m = m\<lparr>flows := (flows m)(a \<mapsto> zero_flow)\<rparr> in
          seq (upd_flow (Some a) (\<lambda>f. f\<lparr>key := k\<rparr>) m) (\<lambda>m. Ok (Some a, m)))"

section \<open>Statistics\<close>

definition IPPROTO_TCP :: u8 where "IPPROTO_TCP = 6"
definition IPPROTO_UDP :: u8 where "IPPROTO_UDP = 17"
definition TH_FIN :: u8 where "TH_FIN = 0x01"
definition TH_SYN :: u8 where "TH_SYN = 0x02"
definition TH_RST :: u8 where "TH_RST = 0x04"
definition TH_ACK :: u8 where "TH_ACK = 0x10"

text \<open>
  \<open>(t.tv_sec - l.tv_sec) * 1000000.0 + (t.tv_usec - l.tv_usec)\<close>: the differences are computed
  as \<open>long\<close>, the rest in double precision.
\<close>

definition delta_usec :: "timeval \<Rightarrow> timeval \<Rightarrow> rat" where
  "delta_usec t l =
     dbl (dbl (dbl (of_int (to_long (tv_sec t - tv_sec l))) * 1000000) +
          dbl (of_int (to_long (tv_usec t - tv_usec l))))"

text \<open>Assigning an \<open>int\<close> to an unsigned member reduces it modulo its width: \<open>of_int\<close>.\<close>

definition update_sizes_and_iat :: "pkt_stats_t \<Rightarrow> 'a flow_stats_scheme \<Rightarrow> 'a flow_stats_scheme" where
  "update_sizes_and_iat stats flow =
     (if packet_count flow = 0 then
        flow\<lparr>start_time := timestamp stats, min_packet_size := of_int (payload_size stats),
          max_packet_size := of_int (payload_size stats), total_iat_usec := 0\<rparr>
      else
        (let flow = (if payload_size stats < uint (min_packet_size flow)
                     then flow\<lparr>min_packet_size := of_int (payload_size stats)\<rparr> else flow);
             flow = (if payload_size stats > uint (max_packet_size flow)
                     then flow\<lparr>max_packet_size := of_int (payload_size stats)\<rparr> else flow)
         in flow\<lparr>total_iat_usec :=
              dbl (total_iat_usec flow + delta_usec (timestamp stats) (last_seen flow))\<rparr>))"

definition count_tcp_flags :: "u8 \<Rightarrow> 'a flow_stats_scheme \<Rightarrow> 'a flow_stats_scheme" where
  "count_tcp_flags fl flow =
     (let flow = (if fl AND TH_SYN \<noteq> 0
                  then flow\<lparr>tcp_syn_count := tcp_syn_count flow + 1\<rparr> else flow);
          flow = (if fl AND TH_FIN \<noteq> 0
                  then flow\<lparr>tcp_fin_count := tcp_fin_count flow + 1\<rparr> else flow);
          flow = (if fl AND TH_RST \<noteq> 0
                  then flow\<lparr>tcp_rst_count := tcp_rst_count flow + 1\<rparr> else flow)
      in if fl AND TH_ACK \<noteq> 0
         then flow\<lparr>tcp_ack_count := tcp_ack_count flow + 1\<rparr> else flow)"

definition flow_update_stats :: "pkt_stats_t \<Rightarrow> 'a flow_stats_scheme \<Rightarrow> 'a flow_stats_scheme" where
  "flow_update_stats stats flow =
     (let flow = update_sizes_and_iat stats flow;
          flow = flow\<lparr>last_seen := timestamp stats, packet_count := packet_count flow + 1,
            byte_count := byte_count flow + of_int (payload_size stats)\<rparr>
      in if protocol (pkt_key stats) = IPPROTO_TCP then count_tcp_flags (tcp_flags stats) flow
         else flow)"

section \<open>The aggregation step\<close>

text \<open>The \<open>if\<close> ladder of \<open>flow_process_packet\<close> that assigns \<open>direction\<close>.\<close>

definition infer_direction :: "u32 \<Rightarrow> u32 \<Rightarrow> flow_key_t \<Rightarrow> flow_direction_t" where
  "infer_direction ip msk k =
     (if msk \<noteq> 0 then
        (let src_is_local = (src_ip k AND msk = ip);
             dst_is_local = (dst_ip k AND msk = ip)
         in if src_is_local \<and> \<not> dst_is_local then DIR_OUTBOUND
            else if \<not> src_is_local \<and> dst_is_local then DIR_INBOUND
            else if src_is_local \<and> dst_is_local then DIR_LATERAL
            else DIR_UNKNOWN)
      else DIR_UNKNOWN)"

definition flow_process_packet ::
  "sniffer_context \<Rightarrow> pkt_stats_t \<Rightarrow> mem \<Rightarrow> (sniffer_context \<times> mem) outcome" where
  "flow_process_packet ctx stats m =
     seq (get_table ctx (active_idx ctx)) (\<lambda>head.
     seq (HASH_FIND head (key_bytes (pkt_key stats)) m) (\<lambda>flow_entry.
     seq (if flow_entry = None then
            seq (flow_create (pkt_key stats) m) (\<lambda>(flow_entry, m).
            seq (upd_flow flow_entry (\<lambda>f. f\<lparr>direction :=
                   infer_direction (net_ip ctx) (net_mask ctx) (pkt_key stats)\<rparr>) m) (\<lambda>m.
            seq (HASH_ADD head flow_entry m) (\<lambda>(head, m).
            seq (set_table (active_idx ctx) head ctx) (\<lambda>ctx. Ok (flow_entry, ctx, m)))))
          else Ok (flow_entry, ctx, m)) (\<lambda>(flow_entry, ctx, m).
     seq (upd_flow flow_entry (flow_update_stats stats) m) (\<lambda>m. Ok (ctx, m)))))"

fun get_dir_string :: "flow_direction_t \<Rightarrow> string" where
  "get_dir_string DIR_OUTBOUND = ''OUT''"
| "get_dir_string DIR_INBOUND = ''IN''"
| "get_dir_string DIR_LATERAL = ''LAT''"
| "get_dir_string DIR_UNKNOWN = ''UNK''"

section \<open>Release of a table\<close>

text \<open>\<open>flow_table_clear\<close> on the table pointer \<open>head\<close>; it returns the new table pointer.\<close>

definition flow_table_clear :: "ptr \<Rightarrow> mem \<Rightarrow> (ptr \<times> mem) outcome" where
  "flow_table_clear head m =
     seq (HASH_ITER (drain_body (\<lambda>a out m. Ok out)) head (head, ()) m) (\<lambda>(_, m). Ok (None, m))"

end
