(* ===== verification/Flow_Spec.thy ===== *)
theory Flow_Spec
  imports Flow
begin

text \<open>
  The contract of the aggregation engine.  A table denotes the list of its flow records in
  order of first appearance; \<open>flow_process_packet\<close> implements \<open>process_spec\<close> on it.
\<close>

section \<open>flow_update_stats, member by member\<close>

lemma update_sizes_members:
  "key (update_sizes_and_iat s f) = key f"
  "direction (update_sizes_and_iat s f) = direction f"
  "packet_count (update_sizes_and_iat s f) = packet_count f"
  "byte_count (update_sizes_and_iat s f) = byte_count f"
  "last_seen (update_sizes_and_iat s f) = last_seen f"
  "start_time (update_sizes_and_iat s f) = (if packet_count f = 0 then timestamp s else start_time f)"
  "total_iat_usec (update_sizes_and_iat s f) =
     (if packet_count f = 0 then 0
      else dbl (total_iat_usec f + delta_usec (timestamp s) (last_seen f)))"
  "min_packet_size (update_sizes_and_iat s f) =
     (if packet_count f = 0 \<or> payload_size s < uint (min_packet_size f)
      then of_int (payload_size s) else min_packet_size f)"
  "max_packet_size (update_sizes_and_iat s f) =
     (if packet_count f = 0 \<or> payload_size s > uint (max_packet_size f)
      then of_int (payload_size s) else max_packet_size f)"
  "tcp_syn_count (update_sizes_and_iat s f) = tcp_syn_count f"
  "tcp_fin_count (update_sizes_and_iat s f) = tcp_fin_count f"
  "tcp_rst_count (update_sizes_and_iat s f) = tcp_rst_count f"
  "tcp_ack_count (update_sizes_and_iat s f) = tcp_ack_count f"
  "flow_stats.more (update_sizes_and_iat s f) = flow_stats.more f"
  by (cases "packet_count f = 0"; simp add: update_sizes_and_iat_def Let_def)+

lemma count_flags_members:
  "key (count_tcp_flags fl f) = key f"
  "direction (count_tcp_flags fl f) = direction f"
  "packet_count (count_tcp_flags fl f) = packet_count f"
  "byte_count (count_tcp_flags fl f) = byte_count f"
  "last_seen (count_tcp_flags fl f) = last_seen f"
  "start_time (count_tcp_flags fl f) = start_time f"
  "total_iat_usec (count_tcp_flags fl f) = total_iat_usec f"
  "min_packet_size (count_tcp_flags fl f) = min_packet_size f"
  "max_packet_size (count_tcp_flags fl f) = max_packet_size f"
  "tcp_syn_count (count_tcp_flags fl f) = tcp_syn_count f + of_bool (fl AND TH_SYN \<noteq> 0)"
  "tcp_fin_count (count_tcp_flags fl f) = tcp_fin_count f + of_bool (fl AND TH_FIN \<noteq> 0)"
  "tcp_rst_count (count_tcp_flags fl f) = tcp_rst_count f + of_bool (fl AND TH_RST \<noteq> 0)"
  "tcp_ack_count (count_tcp_flags fl f) = tcp_ack_count f + of_bool (fl AND TH_ACK \<noteq> 0)"
  "flow_stats.more (count_tcp_flags fl f) = flow_stats.more f"
  by (simp_all add: count_tcp_flags_def Let_def)

lemma update_stats_members [simp]:
  "key (flow_update_stats s f) = key f"
  "direction (flow_update_stats s f) = direction f"
  "packet_count (flow_update_stats s f) = packet_count f + 1"
  "byte_count (flow_update_stats s f) = byte_count f + of_int (payload_size s)"
  "last_seen (flow_update_stats s f) = timestamp s"
  "start_time (flow_update_stats s f) = (if packet_count f = 0 then timestamp s else start_time f)"
  "total_iat_usec (flow_update_stats s f) =
     (if packet_count f = 0 then 0
      else dbl (total_iat_usec f + delta_usec (timestamp s) (last_seen f)))"
  "min_packet_size (flow_update_stats s f) =
     (if packet_count f = 0 \<or> payload_size s < uint (min_packet_size f)
      then of_int (payload_size s) else min_packet_size f)"
  "max_packet_size (flow_update_stats s f) =
     (if packet_count f = 0 \<or> payload_size s > uint (max_packet_size f)
      then of_int (payload_size s) else max_packet_size f)"
  by (simp_all add: flow_update_stats_def Let_def update_sizes_members count_flags_members)

text \<open>Counting a TCP flag.\<close>

definition counts_flag :: "u8 \<Rightarrow> pkt_stats_t \<Rightarrow> bool" where
  "counts_flag fl s \<longleftrightarrow> protocol (pkt_key s) = IPPROTO_TCP \<and> tcp_flags s AND fl \<noteq> 0"

lemma update_stats_flags [simp]:
  "tcp_syn_count (flow_update_stats s f) = tcp_syn_count f + of_bool (counts_flag TH_SYN s)"
  "tcp_fin_count (flow_update_stats s f) = tcp_fin_count f + of_bool (counts_flag TH_FIN s)"
  "tcp_rst_count (flow_update_stats s f) = tcp_rst_count f + of_bool (counts_flag TH_RST s)"
  "tcp_ack_count (flow_update_stats s f) = tcp_ack_count f + of_bool (counts_flag TH_ACK s)"
  by (simp_all add: flow_update_stats_def Let_def counts_flag_def update_sizes_members count_flags_members)

lemma update_stats_hh [simp]: "hh (flow_update_stats s f) = hh f"
proof -
  have "flow_stats.more (flow_update_stats s f) = flow_stats.more f"
    by (simp add: flow_update_stats_def Let_def update_sizes_members count_flags_members)
  then show ?thesis by (cases f, cases "flow_update_stats s f") simp
qed

lemma stats_of_members [simp]:
  "direction (stats_of f) = direction f" "packet_count (stats_of f) = packet_count f"
  "byte_count (stats_of f) = byte_count f" "min_packet_size (stats_of f) = min_packet_size f"
  "max_packet_size (stats_of f) = max_packet_size f" "start_time (stats_of f) = start_time f"
  "last_seen (stats_of f) = last_seen f" "total_iat_usec (stats_of f) = total_iat_usec f"
  "tcp_syn_count (stats_of f) = tcp_syn_count f" "tcp_fin_count (stats_of f) = tcp_fin_count f"
  "tcp_rst_count (stats_of f) = tcp_rst_count f" "tcp_ack_count (stats_of f) = tcp_ack_count f"
  by (simp_all add: stats_of_def flow_stats.truncate_def)

lemma stats_of_update_stats [simp]:
  "stats_of (flow_update_stats s f) = flow_update_stats s (stats_of f)"
  by (rule flow_stats.equality) simp_all

section \<open>The specification\<close>

definition new_flow :: "u32 \<Rightarrow> u32 \<Rightarrow> flow_key_t \<Rightarrow> flow_stats" where
  "new_flow ip msk k = (stats_of zero_flow)\<lparr>key := k, direction := infer_direction ip msk k\<rparr>"

definition process_spec :: "u32 \<Rightarrow> u32 \<Rightarrow> pkt_stats_t \<Rightarrow> flow_stats list \<Rightarrow> flow_stats list" where
  "process_spec ip msk s fs =
     (if pkt_key s \<in> key ` set fs
      then map (\<lambda>f. if key f = pkt_key s then flow_update_stats s f else f) fs
      else fs @ [flow_update_stats s (new_flow ip msk (pkt_key s))])"

definition table_abs :: "mem \<Rightarrow> addr list \<Rightarrow> flow_stats list" where
  "table_abs m xs = map (\<lambda>a. stats_of (flow_at m a)) xs"

text \<open>The nodes and table objects of a heap other than those of one table are untouched.\<close>

definition frame :: "addr set \<Rightarrow> ptr \<Rightarrow> mem \<Rightarrow> mem \<Rightarrow> bool" where
  "frame A tp m m' \<longleftrightarrow>
     (\<forall>a. a \<notin> A \<and> valid m a \<longrightarrow> flows m' a = flows m a) \<and>
     (\<forall>t. tp \<noteq> Some t \<and> tvalid m t \<longrightarrow> tbls m' t = tbls m t)"

text \<open>What a step may add to a table: fresh objects only, all of them in the table.\<close>

definition grows :: "mem \<Rightarrow> mem \<Rightarrow> ptr \<Rightarrow> ptr \<Rightarrow> addr list \<Rightarrow> addr list \<Rightarrow> bool" where
  "grows m m' tp tp' xs xs' \<longleftrightarrow>
     set xs \<subseteq> set xs' \<and> (\<forall>t. tp = Some t \<longrightarrow> tp' = Some t) \<and>
     (\<forall>a. valid m' a \<longleftrightarrow> valid m a \<or> a \<in> set xs') \<and>
     (\<forall>t. tvalid m' t \<longleftrightarrow> tvalid m t \<or> tp' = Some t) \<and>
     (\<forall>a \<in> set xs' - set xs. \<not> valid m a) \<and> (\<forall>t. tp' = Some t \<longrightarrow> tp = Some t \<or> \<not> tvalid m t)"

definition process_oom :: "mem \<Rightarrow> ptr \<Rightarrow> bool" where
  "process_oom m tp \<longleftrightarrow> budget m < 3 \<or> max_block m <
     (case tp of None \<Rightarrow> 512 | Some t \<Rightarrow> max 144 (32 * unat (num_buckets (tbl_at m t))))"

section \<open>Updating a flow in place\<close>

lemma hash_rep_set_flow:
  assumes rep: "hash_rep m head tp xs" and a: "a \<in> set xs"
    and g: "key (g (flow_at m a)) = key_at m a" "hh (g (flow_at m a)) = hh_at m a"
  shows "hash_rep (set_flow a g m) head tp xs"
proof -
  obtain t cs where tp: "tp = Some t" and ok: "table_ok m t xs cs"
    using rep a by (cases xs) (auto simp: hash_rep_def)
  define m' where "m' = set_flow a g m"
  have va: "valid m a" using hash_rep_valid [OF rep a] .
  have v: "valid m' b = valid m b" and h: "hh_at m' b = hh_at m b" and k: "key_at m' b = key_at m b" for b
    using va g by (cases "b = a"; simp add: m'_def valid_set_flow)+
  have "chains_ok m' (num_buckets (tbl_at m t)) (buckets (tbl_at m t)) cs"
    by (rule chains_ok_cong [where m = m]) (use ok in \<open>simp_all add: v h table_ok_def\<close>)
  moreover have "app_ok m' t xs"
    by (rule app_ok_cong [where m = m]) (use ok in \<open>simp_all add: v h table_ok_def\<close>)
  moreover have "keys_ok m' xs"
    by (rule keys_ok_cong [where m = m]) (use ok in \<open>simp_all add: k h table_ok_def\<close>)
  ultimately have "table_ok m' t xs cs"
    using ok by (simp add: table_ok_def m'_def)
  then show ?thesis using rep a tp unfolding m'_def by (auto simp: hash_rep_def)
qed

lemma mem_wf_set_flow: "mem_wf m \<Longrightarrow> valid m a \<Longrightarrow> mem_wf (set_flow a g m)"
  using mem_wf_fresh [of m a] by (auto simp: mem_wf_def set_flow_def)

lemma table_abs_set_flow:
  assumes "distinct xs" and "inj_on (key_at m) (set xs)" and "a \<in> set xs" and "key_at m a = pkt_key s"
  shows "table_abs (set_flow a (flow_update_stats s) m) xs = process_spec ip msk s (table_abs m xs)"
proof -
  have "pkt_key s \<in> key ` set (table_abs m xs)"
    using assms(3,4) by (force simp: table_abs_def)
  moreover have "stats_of (flow_at (set_flow a (flow_update_stats s) m) b) =
      (if key (stats_of (flow_at m b)) = pkt_key s then flow_update_stats s (stats_of (flow_at m b))
       else stats_of (flow_at m b))" if "b \<in> set xs" for b
  proof -
    have "b = a \<longleftrightarrow> key_at m b = pkt_key s"
      using inj_onD [OF assms(2) _ that assms(3)] assms(4) by auto
    then show ?thesis by (cases "b = a") simp_all
  qed
  ultimately show ?thesis
    by (simp add: table_abs_def process_spec_def)
qed

section \<open>Creating a flow\<close>

definition created :: "flow_t \<Rightarrow> mem \<Rightarrow> mem" where
  "created f m = m\<lparr>flows := (flows m)(fresh m \<mapsto> f), fresh := Suc (fresh m), budget := budget m - 1\<rparr>"

lemma seq_case_prod: "seq (case x of (a, b) \<Rightarrow> f a b) g = (case x of (a, b) \<Rightarrow> seq (f a b) g)"
  by (cases x) simp

lemma flow_create_run:
  "seq (flow_create k m) (\<lambda>(p, m). seq (upd_flow p (\<lambda>f. f\<lparr>direction := d\<rparr>) m) (K p)) =
   (if budget m = 0 \<or> max_block m < 144 then Exit 1
    else K (Some (fresh m)) (created (zero_flow\<lparr>key := k, direction := d\<rparr>) m))"
  by (cases m) (simp add: flow_create_def alloc_def upd_flow_def created_def sizeof_flow_t_def EXIT_FAILURE_def)

lemma created_rep:
  assumes rep: "hash_rep m head tp xs" and wf: "mem_wf m"
  shows "hash_rep (created f m) head tp xs" "mem_wf (created f m)" "valid (created f m) (fresh m)"
    "fresh m \<notin> set xs" "\<not> valid m (fresh m)" "flow_at (created f m) (fresh m) = f"
    "b \<noteq> fresh m \<Longrightarrow> flows (created f m) b = flows m b" "tbls (created f m) = tbls m"
proof -
  show nv: "\<not> valid m (fresh m)" using wf by (simp add: mem_wf_def valid_def)
  then show a: "fresh m \<notin> set xs" using hash_rep_valid [OF rep] by blast
  show "hash_rep (created f m) head tp xs"
    by (rule hash_rep_same_nodes [OF _ rep]) (use a in \<open>auto simp: same_nodes_def created_def\<close>)
  show "mem_wf (created f m)" using wf by (simp add: mem_wf_def created_def)
qed (simp_all add: created_def valid_def)

text \<open>The oom condition of the insertion, seen from before the creation.\<close>

lemma add_oom_created: "add_oom (created f m) tp \<Longrightarrow> process_oom m tp"
  by (auto simp: add_oom_def process_oom_def created_def split: option.splits)

section \<open>flow_process_packet implements its specification\<close>

text \<open>The result of a step on the table \<open>xs\<close> of the context.\<close>

definition step_result ::
  "sniffer_context \<Rightarrow> pkt_stats_t \<Rightarrow> mem \<Rightarrow> ptr \<Rightarrow> addr list \<Rightarrow> sniffer_context \<Rightarrow> mem \<Rightarrow> bool" where
  "step_result ctx s m tp xs ctx' m' \<longleftrightarrow>
     (\<exists>head' tp' xs'. hash_rep m' head' tp' xs' \<and> mem_wf m' \<and>
        ctx' = ctx\<lparr>tables := (tables ctx)[nat (active_idx ctx) := head']\<rparr> \<and>
        table_abs m' xs' = process_spec (net_ip ctx) (net_mask ctx) s (table_abs m xs) \<and>
        frame (set xs) tp m m' \<and> grows m m' tp tp' xs xs')"

lemma process_hit:
  assumes rep: "hash_rep m head tp xs" and wf: "mem_wf m" and a: "a \<in> set xs" "key_at m a = pkt_key s"
    and head: "tables ctx ! nat (active_idx ctx) = head"
  shows "step_result ctx s m tp xs ctx (set_flow a (flow_update_stats s) m)"
proof -
  let ?m = "set_flow a (flow_update_stats s) m"
  have va: "valid m a" using hash_rep_valid [OF rep a(1)] .
  have "hash_rep ?m head tp xs" by (rule hash_rep_set_flow [OF rep a(1)]) simp_all
  moreover have "table_abs ?m xs = process_spec (net_ip ctx) (net_mask ctx) s (table_abs m xs)"
    by (rule table_abs_set_flow [OF hash_rep_distinct [OF rep] hash_rep_inj [OF rep] a])
  moreover have "frame (set xs) tp m ?m"
    unfolding frame_def using a(1) by (metis set_flow_simps(1,6))
  moreover have "grows m ?m tp tp xs xs"
    using hash_rep_valid [OF rep] hash_rep_tvalid [OF rep] a
    by (auto simp: grows_def valid_set_flow)
  ultimately show ?thesis
    unfolding step_result_def using mem_wf_set_flow [OF wf va] head
    by (intro exI [of _ head] exI [of _ tp] exI [of _ xs]) auto
qed

lemma process_miss:
  assumes rep: "hash_rep m head tp xs" and wf: "mem_wf m" and k: "pkt_key s \<notin> key_at m ` set xs"
    and f: "f = zero_flow\<lparr>key := pkt_key s,
      direction := infer_direction (net_ip ctx) (net_mask ctx) (pkt_key s)\<rparr>"
    and rep': "hash_rep m3 head' (Some (add_tbl (created f m) tp)) (xs @ [fresh m])" and wf': "mem_wf m3"
    and t: "touches (insert (fresh m) (set xs)) {add_tbl (created f m) tp} (created f m) m3"
  shows "step_result ctx s m tp xs (ctx\<lparr>tables := (tables ctx)[nat (active_idx ctx) := head']\<rparr>)
    (set_flow (fresh m) (flow_update_stats s) m3)"
proof -
  note cr = created_rep [OF rep wf]
  let ?m = "set_flow (fresh m) (flow_update_stats s) m3" and ?xs = "xs @ [fresh m]"
  let ?t = "add_tbl (created f m) tp"
  have va: "valid m3 (fresh m)" using touches_valid [OF t] cr(3) by simp
  have rep4: "hash_rep ?m head' (Some ?t) ?xs" by (rule hash_rep_set_flow [OF rep']) simp_all
  have st: "stats_of (flow_at m3 b) = stats_of (flow_at (created f m) b)" for b
    using t by (rule stats_of_eq_upd)
  have "table_abs ?m xs = table_abs m xs"
    unfolding table_abs_def using cr(4)
    by (intro map_cong refl) (metis st set_flow_simps(6) cr(7))
  moreover have "stats_of f = new_flow (net_ip ctx) (net_mask ctx) (pkt_key s)"
    by (simp add: f new_flow_def stats_of_def flow_stats.truncate_def zero_flow_def)
  ultimately have abs: "table_abs ?m ?xs = process_spec (net_ip ctx) (net_mask ctx) s (table_abs m xs)"
    using k cr(6) st [of "fresh m"]
    by (auto simp: table_abs_def process_spec_def image_iff)
  have tv: "tvalid m3 s = tvalid m s" if "s \<noteq> ?t" for s
    using t that cr(8) by (simp add: touches_def tvalid_def)
  have "frame (set xs) tp m ?m"
    unfolding frame_def
  proof (intro conjI allI impI; elim conjE)
    fix b assume b: "b \<notin> set xs" "valid m b"
    then have "b \<noteq> fresh m" using cr(5) by auto
    then show "flows ?m b = flows m b" using b t cr(7) by (simp add: touches_def)
  next
    fix s assume s: "tp \<noteq> Some s" "tvalid m s"
    then have "s \<noteq> ?t"
      using wf by (auto simp: add_tbl_def created_def mem_wf_def tvalid_def split: option.splits)
    then show "tbls ?m s = tbls m s" using t cr(8) by (simp add: touches_def)
  qed
  moreover have "grows m ?m tp (Some ?t) xs ?xs"
    unfolding grows_def
  proof (intro conjI allI ballI impI)
    show "set xs \<subseteq> set ?xs" by auto
    show "Some ?t = Some u" if "tp = Some u" for u using that by (simp add: add_tbl_def)
    show "valid ?m b \<longleftrightarrow> valid m b \<or> b \<in> set ?xs" for b
      using touches_valid [OF t] cr(3,7) hash_rep_valid [OF rep]
      by (cases "b = fresh m") (auto simp: valid_set_flow valid_def)
    show "tvalid ?m u \<longleftrightarrow> tvalid m u \<or> Some ?t = Some u" for u
      using tv [of u] hash_rep_tvalid [OF rep'] by (cases "u = ?t") auto
    show "\<not> valid m b" if "b \<in> set ?xs - set xs" for b using that cr(5) by auto
    show "tp = Some u \<or> \<not> tvalid m u" if "Some ?t = Some u" for u
      using that wf by (auto simp: add_tbl_def created_def mem_wf_def tvalid_def split: option.splits)
  qed
  ultimately show ?thesis
    unfolding step_result_def using rep4 mem_wf_set_flow [OF wf' va] abs
    by (intro exI [of _ head'] exI [of _ "Some ?t"] exI [of _ ?xs]) auto
qed

lemma flow_process_packet_step:
  assumes idx: "get_table ctx (active_idx ctx) = Ok head"
    and rep: "hash_rep m head tp xs" and wf: "mem_wf m"
  shows "safe (\<lambda>c. c \<in> {1, -1} \<and> process_oom m tp)
    (\<lambda>(ctx', m'). step_result ctx s m tp xs ctx' m') (flow_process_packet ctx s m)"
proof -
  have i: "0 \<le> active_idx ctx" "active_idx ctx < int (length (tables ctx))"
    and hd: "tables ctx ! nat (active_idx ctx) = head"
    using idx by (auto simp: get_table_def split: if_splits)
  have st: "set_table (active_idx ctx) h ctx = Ok (ctx\<lparr>tables := (tables ctx)[nat (active_idx ctx) := h]\<rparr>)" for h
    using i by (simp add: set_table_def)
  define f where "f = zero_flow\<lparr>key := pkt_key s,
      direction := infer_direction (net_ip ctx) (net_mask ctx) (pkt_key s)\<rparr>"
  note find = HASH_FIND_correct [OF rep wf, of "pkt_key s"]
  show ?thesis
  proof (cases "List.find (\<lambda>a. key_at m a = pkt_key s) xs")
    case (Some a)
    then have a: "a \<in> set xs" "key_at m a = pkt_key s" using find_key_Some by blast+
    have "flow_process_packet ctx s m = Ok (ctx, set_flow a (flow_update_stats s) m)"
      using hash_rep_valid [OF rep a(1)]
      by (simp add: flow_process_packet_def idx find Some run_simps)
    then show ?thesis using process_hit [OF rep wf a hd] by simp
  next
    case None
    then have k: "pkt_key s \<notin> key_at m ` set xs" by (simp add: find_key_None)
    note cr = created_rep [OF rep wf]
    have run: "flow_process_packet ctx s m =
      (if budget m = 0 \<or> max_block m < 144 then Exit 1
       else seq (HASH_ADD head (Some (fresh m)) (created f m)) (\<lambda>(h, m3).
         seq (upd_flow (Some (fresh m)) (flow_update_stats s) m3) (\<lambda>m.
         Ok (ctx\<lparr>tables := (tables ctx)[nat (active_idx ctx) := h]\<rparr>, m))))"
      by (simp add: flow_process_packet_def idx find None seq_assoc seq_case_prod st flow_create_run
          f_def)
    have new: "key_at (created f m) (fresh m) \<notin> key_at (created f m) ` set xs"
    proof -
      have "key_at (created f m) b = key_at m b" if "b \<in> set xs" for b
        using that cr(4) by (metis cr(7))
      then show ?thesis using k by (auto simp: cr(6) f_def)
    qed
    show ?thesis
    proof (cases "budget m = 0 \<or> max_block m < 144")
      case True
      then have "process_oom m tp" by (auto simp: process_oom_def split: option.split)
      then show ?thesis using True by (simp add: run)
    next
      case False
      have "safe (\<lambda>c. c \<in> {1, -1} \<and> process_oom m tp) (\<lambda>(ctx', m'). step_result ctx s m tp xs ctx' m')
        (seq (HASH_ADD head (Some (fresh m)) (created f m)) (\<lambda>(h, m3).
         seq (upd_flow (Some (fresh m)) (flow_update_stats s) m3) (\<lambda>m.
         Ok (ctx\<lparr>tables := (tables ctx)[nat (active_idx ctx) := h]\<rparr>, m))))"
      proof (rule safe_seq [OF safe_mono [OF HASH_ADD_correct [OF cr(1,2,3,4) new]]])
        fix r assume "case r of (head', m') \<Rightarrow>
          hash_rep m' head' (Some (add_tbl (created f m) tp)) (xs @ [fresh m]) \<and> mem_wf m' \<and>
          touches (insert (fresh m) (set xs)) {add_tbl (created f m) tp} (created f m) m'"
        then obtain h m3 where r: "r = (h, m3)"
          and rep3: "hash_rep m3 h (Some (add_tbl (created f m) tp)) (xs @ [fresh m])" "mem_wf m3"
          and t: "touches (insert (fresh m) (set xs)) {add_tbl (created f m) tp} (created f m) m3"
          by (cases r) auto
        have "valid m3 (fresh m)" using touches_valid [OF t] cr(3) by simp
        then show "safe (\<lambda>c. c \<in> {1, -1} \<and> process_oom m tp) (\<lambda>(ctx', m'). step_result ctx s m tp xs ctx' m')
          (case r of (h, m3) \<Rightarrow> seq (upd_flow (Some (fresh m)) (flow_update_stats s) m3) (\<lambda>m.
            Ok (ctx\<lparr>tables := (tables ctx)[nat (active_idx ctx) := h]\<rparr>, m)))"
          using process_miss [OF rep wf k f_def rep3 t] by (simp add: r run_simps)
      qed (use add_oom_created in auto)
      then show ?thesis using False by (simp add: run)
    qed
  qed
qed

section \<open>flow_table_clear\<close>

lemma flow_table_clear_drains:
  assumes "hash_rep m head tp xs" and "mem_wf m"
  shows "\<exists>m'. flow_table_clear head m = Ok (None, m') \<and> mem_wf m' \<and> freed m m' (set xs) tp"
proof -
  have "emits (\<lambda>a out m. Ok out) (\<lambda>f out. out)" by (simp add: emits_def)
  from HASH_ITER_drain [OF assms this, of "()"] show ?thesis
    by (auto simp: flow_table_clear_def)
qed

section \<open>Properties\<close>

text \<open>A context without tables, and an empty heap.\<close>

definition example_ctx :: sniffer_context where
  "example_ctx = \<lparr>tables = [None, None], active_idx = 0, mutex = None, net_ip = 0x0000000A,
     net_mask = 0x000000FF, is_running = 1, kafka_producer = Some 0\<rparr>"

definition empty_mem :: mem where
  "empty_mem = \<lparr>flows = Map.empty, tbls = Map.empty, fresh = 0, budget = 1000, max_block = 1048576\<rparr>"

definition example_pkt :: pkt_stats_t where
  "example_pkt = \<lparr>pkt_key = example_key 0, payload_size = 100,
     timestamp = \<lparr>tv_sec = 1700000000, tv_usec = 250000\<rparr>, tcp_flags = 0x12\<rparr>"

lemma empty_mem_facts:
  "mem_wf empty_mem" "\<not> valid empty_mem a" "\<not> tvalid empty_mem t" "\<not> process_oom empty_mem None"
  by (simp_all add: empty_mem_def mem_wf_def valid_def tvalid_def process_oom_def)

text \<open>
  C3: \<open>flow_process_packet\<close> implements its specification on the active table: the flow with the
  packet's key is updated in place, or a new flow with the inferred direction is appended and
  updated.  The table stays well formed, nothing but the active table changes, and everything
  allocated is in it.  The function never faults, and ends the process only when memory
  is exhausted.
\<close>

theorem flow_process_packet_refines:
  assumes "get_table ctx (active_idx ctx) = Ok head" and "hash_rep m head tp xs" and "mem_wf m"
  shows "safe (\<lambda>c. c \<in> {1, -1} \<and> process_oom m tp)
    (\<lambda>(ctx', m'). \<exists>head' tp' xs'. hash_rep m' head' tp' xs' \<and> mem_wf m' \<and>
       ctx' = ctx\<lparr>tables := (tables ctx)[nat (active_idx ctx) := head']\<rparr> \<and>
       table_abs m' xs' = process_spec (net_ip ctx) (net_mask ctx) s (table_abs m xs) \<and>
       frame (set xs) tp m m' \<and> grows m m' tp tp' xs xs')
    (flow_process_packet ctx s m)"
  using flow_process_packet_step [OF assms] unfolding step_result_def .

theorem flow_process_packet_refines_witness:
  "\<exists>ctx' m' head' xs'. flow_process_packet example_ctx example_pkt empty_mem = Ok (ctx', m') \<and>
     table_rep m' head' xs' \<and>
     table_abs m' xs' = process_spec (net_ip example_ctx) (net_mask example_ctx) example_pkt []"
proof -
  have g: "get_table example_ctx (active_idx example_ctx) = Ok None"
    by (simp add: get_table_def example_ctx_def)
  have "hash_rep empty_mem None None []" by simp
  from flow_process_packet_refines [OF g this empty_mem_facts(1), of example_pkt]
  have "safe (\<lambda>_. False) (\<lambda>(ctx', m'). \<exists>head' xs'. table_rep m' head' xs' \<and>
      table_abs m' xs' = process_spec (net_ip example_ctx) (net_mask example_ctx) example_pkt [])
    (flow_process_packet example_ctx example_pkt empty_mem)"
    by (rule safe_mono) (use empty_mem_facts(4) in \<open>auto simp: table_rep_def table_abs_def\<close>)
  from safe_returns [OF this] show ?thesis by auto
qed

text \<open>
  With the memory of one node, one table and one bucket array at hand,
  \<open>flow_process_packet\<close> returns.
\<close>

theorem flow_process_packet_returns:
  assumes "get_table ctx (active_idx ctx) = Ok head" and "hash_rep m head tp xs" and "mem_wf m"
    and "\<not> process_oom m tp"
  shows "\<exists>ctx' m'. flow_process_packet ctx s m = Ok (ctx', m')"
  using flow_process_packet_step [OF assms(1-3), of s] assms(4)
  by (cases "flow_process_packet ctx s m") auto

theorem flow_process_packet_returns_witness:
  "\<exists>ctx' m'. flow_process_packet example_ctx example_pkt empty_mem = Ok (ctx', m')"
  by (rule flow_process_packet_returns [where head = None and tp = None and xs = "[]"])
     (simp_all add: empty_mem_facts get_table_def example_ctx_def)

text \<open>
  The inferred direction is unknown exactly when no network mask is configured or both
  ends are outside the local network; otherwise it tells which ends are inside.
\<close>

theorem infer_direction_exact:
  "(infer_direction ip msk k = DIR_UNKNOWN \<longleftrightarrow>
      msk = 0 \<or> src_ip k AND msk \<noteq> ip \<and> dst_ip k AND msk \<noteq> ip) \<and>
   (infer_direction ip msk k = DIR_LATERAL \<longleftrightarrow>
      msk \<noteq> 0 \<and> src_ip k AND msk = ip \<and> dst_ip k AND msk = ip) \<and>
   (infer_direction ip msk k = DIR_OUTBOUND \<longleftrightarrow>
      msk \<noteq> 0 \<and> src_ip k AND msk = ip \<and> dst_ip k AND msk \<noteq> ip) \<and>
   (infer_direction ip msk k = DIR_INBOUND \<longleftrightarrow>
      msk \<noteq> 0 \<and> src_ip k AND msk \<noteq> ip \<and> dst_ip k AND msk = ip)"
  by (simp add: infer_direction_def Let_def)

text \<open>
  \<open>flow_table_clear\<close> succeeds on every table, sets the table pointer to \<open>NULL\<close> and frees
  exactly the table: every node and the table object are gone, everything else in the heap
  is untouched.
\<close>

theorem flow_table_clear_frees:
  assumes "hash_rep m head tp xs" and "mem_wf m"
  shows "\<exists>m'. flow_table_clear head m = Ok (None, m') \<and> mem_wf m' \<and>
    (\<forall>a. flows m' a = (if a \<in> set xs then None else flows m a)) \<and>
    (\<forall>t. tbls m' t = (if tp = Some t then None else tbls m t))"
  using flow_table_clear_drains [OF assms] by (auto simp: freed_def)

theorem flow_table_clear_frees_witness:
  "\<exists>head m m'. HASH_ADD None (Some 0) example_mem = Ok (head, m) \<and>
     flow_table_clear head m = Ok (None, m') \<and> flows m' 0 = None"
proof -
  obtain head m where t: "HASH_ADD None (Some 0) example_mem = Ok (head, m)" "table_rep m head [0]" "mem_wf m"
    using example_table by blast
  then show ?thesis using flow_table_clear_frees [of m head _ "[0]"] by (fastforce simp: table_rep_def)
qed

end
