(* ===== verification/Parser.thy ===== *)
theory Parser
  imports Flow_Spec
begin

text \<open>
  parser.c: \<open>pkt_handler\<close>, the callback of the capture loop.  The captured bytes are a list
  of length \<open>caplen\<close>; reading past its end is a fault.  Offsets and header lengths are sums
  of small non-negative numbers, so the C types \<open>int\<close> and \<open>size_t\<close> they have are exact and
  they are written as natural numbers.
\<close>

record pcap_pkthdr =
  ts :: timeval
  caplen :: u32
  len :: u32

section \<open>Reads\<close>

definition load_u8 :: "u8 list \<Rightarrow> nat \<Rightarrow> u8 outcome" where
  "load_u8 bs i = (if i < length bs then Ok (bs ! i) else Fault OutOfBounds)"

definition load_u16 :: "u8 list \<Rightarrow> nat \<Rightarrow> u16 outcome" where
  "load_u16 bs i =
     seq (load_u8 bs i) (\<lambda>b0. seq (load_u8 bs (i + 1)) (\<lambda>b1. Ok (le16 b0 b1)))"

definition load_u32 :: "u8 list \<Rightarrow> nat \<Rightarrow> u32 outcome" where
  "load_u32 bs i =
     seq (load_u8 bs i) (\<lambda>b0. seq (load_u8 bs (i + 1)) (\<lambda>b1.
     seq (load_u8 bs (i + 2)) (\<lambda>b2. seq (load_u8 bs (i + 3)) (\<lambda>b3. Ok (le32 b0 b1 b2 b3)))))"

definition ETHERTYPE_IP :: u16 where "ETHERTYPE_IP = 0x0800"
definition ETHERTYPE_VLAN :: u16 where "ETHERTYPE_VLAN = 0x8100"
definition sizeof_ether_header :: nat where "sizeof_ether_header = 14"
definition sizeof_ip :: nat where "sizeof_ip = 20"
definition sizeof_tcphdr :: nat where "sizeof_tcphdr = 20"
definition sizeof_udphdr :: nat where "sizeof_udphdr = 8"

text \<open>\<open>pkt_stats_t stats = {0}\<close>\<close>

definition zero_stats :: pkt_stats_t where
  "zero_stats = \<lparr>pkt_key = zero_key, payload_size = 0, timestamp = \<lparr>tv_sec = 0, tv_usec = 0\<rparr>,
     tcp_flags = 0\<rparr>"

section \<open>pkt_handler\<close>

text \<open>
  The link layer: the offset of the network header, when the frame carries IPv4.  The
  type field is at byte 12; after a VLAN tag the inner type is at byte \<open>offset - 2\<close>.
\<close>

definition parse_ether :: "u8 list \<Rightarrow> nat option outcome" where
  "parse_ether bytes =
     seq (load_u16 bytes 12) (\<lambda>w.
     let ether_type = ntohs w; offset = sizeof_ether_header in
     seq (if ether_type = ETHERTYPE_VLAN
          then (let offset = offset + 4 in
                seq (load_u16 bytes (offset - 2)) (\<lambda>w. Ok (ntohs w, offset)))
          else Ok (ether_type, offset)) (\<lambda>(ether_type, offset).
     if ether_type \<noteq> ETHERTYPE_IP then Ok None else Ok (Some offset)))"

text \<open>
  The transport layer at byte \<open>tp\<close>, after the IPv4 header: ports, flags and payload size are
  added to \<open>stats\<close>.
\<close>

definition parse_transport ::
  "pcap_pkthdr \<Rightarrow> u8 list \<Rightarrow> nat \<Rightarrow> nat \<Rightarrow> u16 \<Rightarrow> pkt_stats_t \<Rightarrow> pkt_stats_t option outcome" where
  "parse_transport h bytes offset ip_hdrlen ip_tot_len stats =
     (let tp = offset + ip_hdrlen in
      if protocol (pkt_key stats) = IPPROTO_TCP then
        (if unat (caplen h) < tp + sizeof_tcphdr then Ok None
         else
           seq (load_u16 bytes tp) (\<lambda>sport.
           seq (load_u16 bytes (tp + 2)) (\<lambda>dport.
           seq (load_u8 bytes (tp + 13)) (\<lambda>fl.
           seq (load_u8 bytes (tp + 12)) (\<lambda>w.
           let th_off = drop_bit 4 w; tcp_hdrlen = uint th_off * 4 in
           Ok (Some (stats\<lparr>
             pkt_key := (pkt_key stats)\<lparr>src_port := sport, dst_port := dport\<rparr>,
             tcp_flags := fl,
             payload_size := uint ip_tot_len - int ip_hdrlen - tcp_hdrlen\<rparr>)))))))
      else if protocol (pkt_key stats) = IPPROTO_UDP then
        (if unat (caplen h) < tp + sizeof_udphdr then Ok None
         else
           seq (load_u16 bytes tp) (\<lambda>sport.
           seq (load_u16 bytes (tp + 2)) (\<lambda>dport.
           Ok (Some (stats\<lparr>
             pkt_key := (pkt_key stats)\<lparr>src_port := sport, dst_port := dport\<rparr>,
             payload_size := uint ip_tot_len - int ip_hdrlen - 8\<rparr>)))))
      else Ok None)"

text \<open>Everything before the critical section: the statistics, or \<open>None\<close> for a \<open>return\<close>.\<close>

definition parse_packet :: "pcap_pkthdr \<Rightarrow> u8 list \<Rightarrow> pkt_stats_t option outcome" where
  "parse_packet h bytes =
     seq (parse_ether bytes) (\<lambda>r.
     case r of None \<Rightarrow> Ok None
     | Some offset \<Rightarrow>
         if unat (caplen h) < offset + sizeof_ip then Ok None
         else
           seq (load_u8 bytes offset) (\<lambda>vhl.
           let ip_v = drop_bit 4 vhl; ip_hl = vhl AND 0x0F in
           if ip_v \<noteq> 4 then Ok None
           else
             let ip_hdrlen = unat ip_hl * 4 in
             seq (load_u16 bytes (offset + 2)) (\<lambda>ip_len.
             seq (load_u8 bytes (offset + 9)) (\<lambda>ip_p.
             seq (load_u32 bytes (offset + 12)) (\<lambda>src.
             seq (load_u32 bytes (offset + 16)) (\<lambda>dst.
             let stats = zero_stats\<lparr>timestamp := ts h,
                   pkt_key := zero_key\<lparr>protocol := ip_p, src_ip := src, dst_ip := dst\<rparr>\<rparr> in
             seq (parse_transport h bytes offset ip_hdrlen (ntohs ip_len) stats) (\<lambda>r.
             case r of None \<Rightarrow> Ok None
             | Some stats \<Rightarrow>
                 Ok (Some (if payload_size stats < 0 then stats\<lparr>payload_size := 0\<rparr> else stats)))))))))"

text \<open>
  The callback, run while no other thread holds the mutex: locking, the aggregation
  step and unlocking.  Theory Sniffer interleaves these with the flush thread.
\<close>

definition pkt_handler ::
  "sniffer_context \<Rightarrow> pcap_pkthdr \<Rightarrow> u8 list \<Rightarrow> mem \<Rightarrow> (sniffer_context \<times> mem) outcome" where
  "pkt_handler ctx h bytes m =
     seq (parse_packet h bytes) (\<lambda>r.
     case r of None \<Rightarrow> Ok (ctx, m)
     | Some stats \<Rightarrow>
         let ctx = ctx\<lparr>mutex := Some Capture_thread\<rparr> in
         seq (flow_process_packet ctx stats m) (\<lambda>(ctx, m). Ok (ctx\<lparr>mutex := None\<rparr>, m)))"

section \<open>Memory safety\<close>

lemma load_u8_ok [run_simps]: "i < length bs \<Longrightarrow> load_u8 bs i = Ok (bs ! i)"
  by (simp add: load_u8_def)

lemma load_u16_ok [run_simps]: "i + 1 < length bs \<Longrightarrow> load_u16 bs i = Ok (le16 (bs ! i) (bs ! (i + 1)))"
  by (simp add: load_u16_def load_u8_def)

lemma load_u32_ok [run_simps]:
  "i + 3 < length bs \<Longrightarrow>
     load_u32 bs i = Ok (le32 (bs ! i) (bs ! (i + 1)) (bs ! (i + 2)) (bs ! (i + 3)))"
  by (simp add: load_u32_def load_u8_def)

definition is_vlan :: "u8 list \<Rightarrow> bool" where
  "is_vlan bs \<longleftrightarrow> ntohs (le16 (bs ! 12) (bs ! 13)) = ETHERTYPE_VLAN"

lemma parse_ether_run:
  "parse_ether bs =
     (if length bs < 14 \<or> is_vlan bs \<and> length bs < 18 then Fault OutOfBounds
      else if is_vlan bs then
        Ok (if ntohs (le16 (bs ! 16) (bs ! 17)) = ETHERTYPE_IP then Some 18 else None)
      else Ok (if ntohs (le16 (bs ! 12) (bs ! 13)) = ETHERTYPE_IP then Some 14 else None))"
proof -
  have l: "load_u16 bs i = (if i + 1 < length bs then Ok (le16 (bs ! i) (bs ! (i + 1)))
      else Fault OutOfBounds)" for i
    by (simp add: load_u16_def load_u8_def)
  show ?thesis by (simp add: parse_ether_def l Let_def sizeof_ether_header_def is_vlan_def)
qed

lemma parse_transport_safe:
  assumes "length bytes = unat (caplen h)"
  shows "safe (\<lambda>_. False) (\<lambda>r. case r of None \<Rightarrow> True
    | Some s \<Rightarrow> protocol (pkt_key s) = protocol (pkt_key stats) \<and>
        protocol (pkt_key s) \<in> {IPPROTO_TCP, IPPROTO_UDP} \<and> timestamp s = timestamp stats \<and>
        payload_size s \<le> uint ip_tot_len \<and>
        (protocol (pkt_key s) = IPPROTO_UDP \<longrightarrow> tcp_flags s = tcp_flags stats))
    (parse_transport h bytes offset ip_hdrlen ip_tot_len stats)"
proof -
  have "- int ip_hdrlen \<le> uint x * 4" for x :: u8
    using uint_ge_0 [of x] by linarith
  then show ?thesis using assms
    by (simp add: parse_transport_def Let_def run_simps sizeof_tcphdr_def sizeof_udphdr_def
        IPPROTO_TCP_def IPPROTO_UDP_def add.assoc)
qed

text \<open>What an accepted packet looks like.\<close>

definition accepted_ok :: "pcap_pkthdr \<Rightarrow> pkt_stats_t \<Rightarrow> bool" where
  "accepted_ok h s \<longleftrightarrow>
     protocol (pkt_key s) \<in> {IPPROTO_TCP, IPPROTO_UDP} \<and> timestamp s = ts h \<and>
     0 \<le> payload_size s \<and> payload_size s < 2 ^ 16 \<and>
     (protocol (pkt_key s) = IPPROTO_UDP \<longrightarrow> tcp_flags s = 0)"

lemma parse_packet_safe:
  assumes len: "length bytes = unat (caplen h)"
    and long: "14 \<le> length bytes" "is_vlan bytes \<longrightarrow> 18 \<le> length bytes"
  shows "safe (\<lambda>_. False) (\<lambda>r. case r of None \<Rightarrow> True | Some s \<Rightarrow> accepted_ok h s) (parse_packet h bytes)"
proof -
  define r where "r = (if is_vlan bytes then
        if ntohs (le16 (bytes ! 16) (bytes ! 17)) = ETHERTYPE_IP then Some (18::nat) else None
      else if ntohs (le16 (bytes ! 12) (bytes ! 13)) = ETHERTYPE_IP then Some 14 else None)"
  have ether: "parse_ether bytes = Ok r" using long by (auto simp add: parse_ether_run r_def)
  show ?thesis
  proof (cases r)
    case None
    then show ?thesis by (simp add: parse_packet_def ether)
  next
    case (Some off)
    show ?thesis
    proof (cases "unat (caplen h) < off + sizeof_ip \<or> drop_bit 4 (bytes ! off) \<noteq> 4")
      case True
      then show ?thesis
        by (auto simp: parse_packet_def ether Some load_u8_def len Let_def sizeof_ip_def)
    next
      case False
      have "uint x < 2 ^ 16" for x :: u16 using uint_bounded [of x] by simp
      then have t: "payload_size s \<le> uint x \<Longrightarrow> payload_size s < 2 ^ 16" for s and x :: u16
        by (meson le_less_trans)
      define stats where "stats = zero_stats\<lparr>timestamp := ts h,
        pkt_key := zero_key\<lparr>protocol := bytes ! (off + 9),
          src_ip := le32 (bytes ! (off + 12)) (bytes ! (off + 12 + 1)) (bytes ! (off + 12 + 2)) (bytes ! (off + 12 + 3)),
          dst_ip := le32 (bytes ! (off + 16)) (bytes ! (off + 16 + 1)) (bytes ! (off + 16 + 2)) (bytes ! (off + 16 + 3))\<rparr>\<rparr>"
      have st: "timestamp stats = ts h" "tcp_flags stats = 0" by (simp_all add: stats_def zero_stats_def)
      have "parse_packet h bytes =
        seq (parse_transport h bytes off (unat (bytes ! off AND 0x0F) * 4)
               (ntohs (le16 (bytes ! (off + 2)) (bytes ! (off + 2 + 1)))) stats) (\<lambda>r.
             case r of None \<Rightarrow> Ok None
             | Some stats \<Rightarrow>
                 Ok (Some (if payload_size stats < 0 then stats\<lparr>payload_size := 0\<rparr> else stats)))"
        using False len
        by (simp add: parse_packet_def ether Some run_simps Let_def sizeof_ip_def stats_def)
      then show ?thesis
        apply (simp only:)
        apply (rule safe_seq [OF parse_transport_safe [OF len]])
        using t st by (auto simp: accepted_ok_def split: option.splits)
    qed
  qed
qed

text \<open>A capture that ends inside the part of the link-layer header \<open>pkt_handler\<close> reads unchecked.\<close>

definition too_short :: "u8 list \<Rightarrow> bool" where
  "too_short bytes \<longleftrightarrow> length bytes < 14 \<or> is_vlan bytes \<and> length bytes < 18"

lemma parse_packet_short: "too_short bytes \<Longrightarrow> parse_packet h bytes = Fault OutOfBounds"
  by (auto simp: too_short_def parse_packet_def parse_ether_run)

lemma parse_packet_long:
  assumes "length bytes = unat (caplen h)" and "\<not> too_short bytes"
  obtains r where "parse_packet h bytes = Ok r"
proof -
  have "safe (\<lambda>_. False) (\<lambda>r. case r of None \<Rightarrow> True | Some s \<Rightarrow> accepted_ok h s) (parse_packet h bytes)"
    using assms by (intro parse_packet_safe) (auto simp: too_short_def)
  then show thesis using that safe_returns by blast
qed

section \<open>Properties\<close>

text \<open>A captured frame: IPv4, UDP from port 53 to port 4660, 8 bytes of payload.\<close>

definition example_frame :: "u8 list" where
  "example_frame =
     [0,0,0,0,0,1, 0,0,0,0,0,2, 8,0,
      0x45,0,0,36, 0,0,0,0, 64,17,0,0, 10,0,0,1, 10,0,0,2,
      0,53, 0x12,0x34, 0,16, 0,0]"

definition example_hdr :: pcap_pkthdr where
  "example_hdr = \<lparr>ts = \<lparr>tv_sec = 1700000000, tv_usec = 5\<rparr>, caplen = 42, len = 50\<rparr>"

definition example_udp_stats :: pkt_stats_t where
  "example_udp_stats =
     \<lparr>pkt_key = \<lparr>src_ip = 0x0100000A, dst_ip = 0x0200000A, src_port = 0x3500, dst_port = 0x3412, protocol = 17\<rparr>,
      payload_size = 8, timestamp = \<lparr>tv_sec = 1700000000, tv_usec = 5\<rparr>, tcp_flags = 0\<rparr>"

lemma example_parse: "parse_packet example_hdr example_frame = Ok (Some example_udp_stats)"
  by (simp add: parse_packet_def parse_ether_def parse_transport_def load_u8_def load_u16_def
      load_u32_def example_frame_def example_hdr_def example_udp_stats_def Let_def ntohs_def byte_def
      le16_def le32_def ETHERTYPE_IP_def ETHERTYPE_VLAN_def sizeof_ether_header_def sizeof_ip_def
      sizeof_udphdr_def IPPROTO_TCP_def IPPROTO_UDP_def zero_stats_def zero_key_def)

text \<open>
  C26: when the captured bytes are exactly \<open>caplen\<close>, \<open>pkt_handler\<close> reads outside them if and only
  if the frame is shorter than the link-layer header it inspects before its first length
  check: 14 bytes, or 18 bytes with a VLAN tag.  All later reads are guarded.
\<close>

theorem parse_packet_faults_iff:
  assumes "length bytes = unat (caplen h)"
  shows "(\<exists>e. parse_packet h bytes = Fault e) \<longleftrightarrow>
    length bytes < 14 \<or> is_vlan bytes \<and> length bytes < 18"
proof -
  have "(\<exists>e. parse_packet h bytes = Fault e) \<longleftrightarrow> too_short bytes"
    using parse_packet_short [of bytes h] parse_packet_long [OF assms] by (metis outcome.distinct(3))
  then show ?thesis by (simp add: too_short_def)
qed

theorem parse_packet_faults_iff_witness:
  "(\<exists>e. parse_packet (example_hdr\<lparr>caplen := 12\<rparr>) (take 12 example_frame) = Fault e) \<and>
   \<not> (\<exists>e. parse_packet example_hdr example_frame = Fault e)"
  using parse_packet_faults_iff [of "take 12 example_frame" "example_hdr\<lparr>caplen := 12\<rparr>"]
    parse_packet_faults_iff [of example_frame example_hdr]
  by (simp add: example_parse) (simp add: example_frame_def example_hdr_def)

lemma parse_packet_accepted_ok:
  assumes "length bytes = unat (caplen h)" and "parse_packet h bytes = Ok (Some s)"
  shows "accepted_ok h s"
proof -
  have "\<not> too_short bytes" using assms(2) parse_packet_short by fastforce
  then have "safe (\<lambda>_. False) (\<lambda>r. case r of None \<Rightarrow> True | Some s \<Rightarrow> accepted_ok h s) (parse_packet h bytes)"
    using assms(1) by (intro parse_packet_safe) (auto simp: too_short_def)
  then show ?thesis using assms(2) by simp
qed

text \<open>Where the network and the transport header of a frame begin.\<close>

definition ip_offset :: "u8 list \<Rightarrow> nat" where
  "ip_offset bs = (if is_vlan bs then 18 else 14)"

definition l4_offset :: "u8 list \<Rightarrow> nat" where
  "l4_offset bs = ip_offset bs + 4 * unat (bs ! ip_offset bs AND 0x0F)"

text \<open>
  C35: a packet that \<open>pkt_handler\<close> hands to the aggregation engine is TCP or UDP over IPv4, with a fixed
  transport header inside the captured bytes.  Its key has the raw addresses and the protocol of the
  IPv4 header and the raw ports of the transport header; it carries the capture time and, for TCP, the
  flags; and its payload size is the total length less both headers, not below zero, so that it fits
  the 16-bit members of a flow record.
\<close>

theorem parse_packet_accepted:
  assumes "length bytes = unat (caplen h)" and "parse_packet h bytes = Ok (Some s)"
    and "i = ip_offset bytes" and "t = l4_offset bytes"
  shows "protocol (pkt_key s) \<in> {IPPROTO_TCP, IPPROTO_UDP} \<and> drop_bit 4 (bytes ! i) = 4 \<and>
    i + 20 \<le> length bytes \<and> t + (if protocol (pkt_key s) = IPPROTO_TCP then 20 else 8) \<le> length bytes \<and>
    pkt_key s =
      \<lparr>src_ip = le32 (bytes ! (i + 12)) (bytes ! (i + 13)) (bytes ! (i + 14)) (bytes ! (i + 15)),
       dst_ip = le32 (bytes ! (i + 16)) (bytes ! (i + 17)) (bytes ! (i + 18)) (bytes ! (i + 19)),
       src_port = le16 (bytes ! t) (bytes ! (t + 1)), dst_port = le16 (bytes ! (t + 2)) (bytes ! (t + 3)),
       protocol = bytes ! (i + 9)\<rparr> \<and>
    timestamp s = ts h \<and>
    tcp_flags s = (if protocol (pkt_key s) = IPPROTO_TCP then bytes ! (t + 13) else 0) \<and>
    payload_size s = max 0 (uint (ntohs (le16 (bytes ! (i + 2)) (bytes ! (i + 3)))) - int (t - i) -
      (if protocol (pkt_key s) = IPPROTO_TCP then 4 * uint (drop_bit 4 (bytes ! (t + 12))) else 8)) \<and>
    payload_size s < 2 ^ 16"
proof -
  have ok: "accepted_ok h s" by (rule parse_packet_accepted_ok [OF assms(1,2)])
  have "parse_ether bytes = Ok (Some i)"
    using assms(2) by (cases "parse_ether bytes")
      (auto simp: parse_packet_def parse_ether_run assms(3) ip_offset_def split: if_splits option.splits)
  then have l: "i + 20 \<le> length bytes" "drop_bit 4 (bytes ! i) = 4"
    using assms(2)
    by (auto simp: parse_packet_def run_simps Let_def sizeof_ip_def assms(1) [symmetric] not_less split: if_splits)
  have ld: "load_u8 bytes i = Ok (bytes ! i)" "load_u8 bytes (i + 9) = Ok (bytes ! (i + 9))"
    "load_u16 bytes (i + 2) = Ok (le16 (bytes ! (i + 2)) (bytes ! (i + 3)))"
    "load_u32 bytes (i + 12) = Ok (le32 (bytes ! (i + 12)) (bytes ! (i + 13)) (bytes ! (i + 14)) (bytes ! (i + 15)))"
    "load_u32 bytes (i + 16) = Ok (le32 (bytes ! (i + 16)) (bytes ! (i + 17)) (bytes ! (i + 18)) (bytes ! (i + 19)))"
    using l(1) by (simp_all add: load_u8_def load_u16_def load_u32_def numeral_eq_Suc)
  have t: "i + unat (bytes ! i AND 0x0F) * 4 = t" by (simp add: assms(3,4) l4_offset_def)
  define st where "st = zero_stats\<lparr>timestamp := ts h, pkt_key := zero_key\<lparr>protocol := bytes ! (i + 9),
    src_ip := le32 (bytes ! (i + 12)) (bytes ! (i + 13)) (bytes ! (i + 14)) (bytes ! (i + 15)),
    dst_ip := le32 (bytes ! (i + 16)) (bytes ! (i + 17)) (bytes ! (i + 18)) (bytes ! (i + 19))\<rparr>\<rparr>"
  have "seq (parse_transport h bytes i (t - i) (ntohs (le16 (bytes ! (i + 2)) (bytes ! (i + 3)))) st)
      (\<lambda>r. case r of None \<Rightarrow> Ok None
       | Some st \<Rightarrow> Ok (Some (if payload_size st < 0 then st\<lparr>payload_size := 0\<rparr> else st))) = Ok (Some s)"
    using assms(2) \<open>parse_ether bytes = Ok (Some i)\<close> l ld
    by (simp add: parse_packet_def Let_def sizeof_ip_def assms(1) [symmetric] st_def t [symmetric])
  then obtain s' where s': "parse_transport h bytes i (t - i) (ntohs (le16 (bytes ! (i + 2)) (bytes ! (i + 3)))) st = Ok (Some s')"
    "s = (if payload_size s' < 0 then s'\<lparr>payload_size := 0\<rparr> else s')"
    by (auto simp: seq_eq_Ok_iff split: option.splits)
  have it: "i + (t - i) = t" using t by simp
  have st: "protocol (pkt_key st) = bytes ! (i + 9)" "timestamp st = ts h" "tcp_flags st = 0"
    by (simp_all add: st_def zero_stats_def)
  have tl: "t + (if bytes ! (i + 9) = IPPROTO_TCP then 20 else 8) \<le> length bytes"
    using s'(1)
    by (auto simp: parse_transport_def Let_def it st sizeof_tcphdr_def sizeof_udphdr_def assms(1) split: if_splits)
  have ports: "load_u16 bytes t = Ok (le16 (bytes ! t) (bytes ! (t + 1)))"
    "load_u16 bytes (t + 2) = Ok (le16 (bytes ! (t + 2)) (bytes ! (t + 3)))"
    using tl by (simp_all add: load_u8_def load_u16_def numeral_eq_Suc split: if_splits)
  have tcp: "load_u8 bytes (t + 13) = Ok (bytes ! (t + 13))" "load_u8 bytes (t + 12) = Ok (bytes ! (t + 12))"
    if "bytes ! (i + 9) = IPPROTO_TCP"
    using tl that by (simp_all add: load_u8_def)
  have "protocol (pkt_key s') = bytes ! (i + 9) \<and> bytes ! (i + 9) \<in> {IPPROTO_TCP, IPPROTO_UDP} \<and>
    pkt_key s' = (pkt_key st)\<lparr>src_port := le16 (bytes ! t) (bytes ! (t + 1)),
      dst_port := le16 (bytes ! (t + 2)) (bytes ! (t + 3))\<rparr> \<and> timestamp s' = ts h \<and>
    tcp_flags s' = (if bytes ! (i + 9) = IPPROTO_TCP then bytes ! (t + 13) else 0) \<and>
    payload_size s' = uint (ntohs (le16 (bytes ! (i + 2)) (bytes ! (i + 3)))) - int (t - i) -
      (if bytes ! (i + 9) = IPPROTO_TCP then 4 * uint (drop_bit 4 (bytes ! (t + 12))) else 8)"
    using s'(1) ports tcp by (auto simp: parse_transport_def Let_def it st IPPROTO_TCP_def IPPROTO_UDP_def split: if_splits)
  moreover have "pkt_key s = pkt_key s'" "timestamp s = timestamp s'" "tcp_flags s = tcp_flags s'"
    "payload_size s = max 0 (payload_size s')"
    using s'(2) by simp_all
  moreover have "payload_size s < 2 ^ 16" using ok by (simp add: accepted_ok_def)
  ultimately show ?thesis using tl l by (auto simp: st_def zero_key_def)
qed

theorem parse_packet_accepted_witness:
  "src_ip (pkt_key example_udp_stats) = le32 10 0 0 1 \<and> payload_size example_udp_stats = 8"
proof -
  have "is_vlan example_frame = False"
    by (simp add: is_vlan_def example_frame_def ntohs_def byte_def le16_def ETHERTYPE_VLAN_def)
  then have i: "ip_offset example_frame = 14" by (simp add: ip_offset_def)
  then have t: "l4_offset example_frame = 34" by (simp add: l4_offset_def example_frame_def)
  have l: "length example_frame = unat (caplen example_hdr)" by (simp add: example_frame_def example_hdr_def)
  have b: "example_frame ! 16 = 0" "example_frame ! 17 = 36" "example_frame ! 23 = 17"
    "map ((!) example_frame) [26, 27, 28, 29] = [10, 0, 0, 1]"
    by (simp_all add: example_frame_def)
  show ?thesis
    using parse_packet_accepted [OF l example_parse refl refl] b
    by (simp add: i t IPPROTO_TCP_def ntohs_def byte_def le16_def)
qed

text \<open>
  C36: the callback as a whole, entered with the mutex free.  On a capture that ends inside the
  link-layer header it reads past the end.  Otherwise it drops the frame and changes nothing, or it
  leaves the active table in the state the specification gives for the parsed packet, or it ends the
  process for want of memory; when it returns the mutex is free again and the other table pointer
  unchanged.
\<close>

theorem pkt_handler_refines:
  assumes "length bytes = unat (caplen h)"
    and "get_table ctx (active_idx ctx) = Ok head" and "hash_rep m head tp xs" and "mem_wf m"
    and "mutex ctx = None"
  shows "if too_short bytes then pkt_handler ctx h bytes m = Fault OutOfBounds
    else safe (\<lambda>c. c \<in> {1, -1} \<and> process_oom m tp)
      (\<lambda>(ctx', m'). mutex ctx' = None \<and>
         (case parse_packet h bytes of
            Ok (Some s) \<Rightarrow> \<exists>head' tp' xs'. hash_rep m' head' tp' xs' \<and> mem_wf m' \<and>
              ctx' = ctx\<lparr>tables := (tables ctx)[nat (active_idx ctx) := head']\<rparr> \<and>
              table_abs m' xs' = process_spec (net_ip ctx) (net_mask ctx) s (table_abs m xs)
          | _ \<Rightarrow> ctx' = ctx \<and> m' = m))
      (pkt_handler ctx h bytes m)"
proof (cases "too_short bytes")
  case True
  then show ?thesis by (simp add: pkt_handler_def parse_packet_short)
next
  case False
  obtain r where r: "parse_packet h bytes = Ok r" by (rule parse_packet_long [OF assms(1) False])
  show ?thesis
  proof (cases r)
    case None
    then show ?thesis using assms(5) False by (simp add: pkt_handler_def r)
  next
    case (Some s)
    let ?c = "ctx\<lparr>mutex := Some Capture_thread\<rparr>"
    have g: "get_table ?c (active_idx ?c) = Ok head" using assms(2) by (simp add: get_table_def split: if_splits)
    have "ctx\<lparr>mutex := None\<rparr> = ctx" using assms(5) by (cases ctx) simp
    then have c: "ctx\<lparr>tables := ts, mutex := None\<rparr> = ctx\<lparr>tables := ts\<rparr>" for ts by (cases ctx) simp
    show ?thesis
      unfolding pkt_handler_def r Some seq.simps option.case outcome.case Let_def if_not_P [OF False]
      by (rule safe_seq [OF flow_process_packet_step [OF g assms(3,4)]])
         (auto simp: step_result_def assms(5) c, blast)
  qed
qed

theorem pkt_handler_refines_witness:
  "\<exists>ctx' m' head' xs'. pkt_handler example_ctx example_hdr example_frame empty_mem = Ok (ctx', m') \<and>
     mutex ctx' = None \<and> table_rep m' head' xs' \<and> length xs' = 1"
proof -
  have g: "get_table example_ctx (active_idx example_ctx) = Ok None" and m: "mutex example_ctx = None"
    by (simp_all add: get_table_def example_ctx_def)
  have l: "length example_frame = unat (caplen example_hdr)" and n: "\<not> too_short example_frame"
    by (simp_all add: example_frame_def example_hdr_def too_short_def)
  have rep: "hash_rep empty_mem None None []" by simp
  have "safe (\<lambda>_. False) (\<lambda>(ctx', m'). mutex ctx' = None \<and> (\<exists>head' xs'. table_rep m' head' xs' \<and> length xs' = 1))
    (pkt_handler example_ctx example_hdr example_frame empty_mem)"
  proof (rule safe_mono [OF pkt_handler_refines [OF l g rep empty_mem_facts(1) m, unfolded if_not_P [OF n]]])
    fix r assume "case r of (ctx', m') \<Rightarrow> mutex ctx' = None \<and>
       (case parse_packet example_hdr example_frame of
          Ok (Some s) \<Rightarrow> \<exists>head' tp' xs'. hash_rep m' head' tp' xs' \<and> mem_wf m' \<and>
            ctx' = example_ctx\<lparr>tables := (tables example_ctx)[nat (active_idx example_ctx) := head']\<rparr> \<and>
            table_abs m' xs' = process_spec (net_ip example_ctx) (net_mask example_ctx) s (table_abs empty_mem [])
        | _ \<Rightarrow> ctx' = example_ctx \<and> m' = empty_mem)"
    then show "case r of (ctx', m') \<Rightarrow> mutex ctx' = None \<and> (\<exists>head' xs'. table_rep m' head' xs' \<and> length xs' = 1)"
      by (auto simp: example_parse table_abs_def process_spec_def table_rep_def dest!: arg_cong [of _ _ length])
        blast
  qed (simp_all add: empty_mem_facts)
  from safe_returns [OF this] show ?thesis by auto
qed

end
