(* ===== verification/Frames.thy ===== *)
theory Frames
  imports Parser
begin

text \<open>
  The frames of the wire formats (Ethernet with an optional 802.1Q tag, IPv4 with options,
  TCP, UDP), written as encoders, and what \<open>parse_packet\<close> extracts from an encoded frame.
\<close>

definition be16 :: "u16 \<Rightarrow> u8 list" where
  "be16 w = [byte 1 w, byte 0 w]"

text \<open>Ethernet: the two addresses (12 bytes), an optional tag, the type.\<close>

definition ether_bytes :: "u8 list \<Rightarrow> (u8 \<times> u8) option \<Rightarrow> u16 \<Rightarrow> u8 list" where
  "ether_bytes macs tag ty =
     macs @ (case tag of None \<Rightarrow> [] | Some (t0, t1) \<Rightarrow> be16 ETHERTYPE_VLAN @ [t0, t1]) @ be16 ty"

record ip_fields =
  ip_tos :: u8
  ip_total_len :: u16
  ip_id_off :: "u8 list"
  ip_ttl :: u8
  ip_proto :: u8
  ip_sum :: "u8 list"
  ip_source :: u32
  ip_dest :: u32
  ip_options :: "u8 list"

definition ip_fields_ok :: "ip_fields \<Rightarrow> bool" where
  "ip_fields_ok p \<longleftrightarrow> length (ip_id_off p) = 4 \<and> length (ip_sum p) = 2 \<and>
     length (ip_options p) mod 4 = 0 \<and> length (ip_options p) \<le> 40"

definition ip_words :: "ip_fields \<Rightarrow> nat" where
  "ip_words p = 5 + length (ip_options p) div 4"

definition ip_bytes :: "ip_fields \<Rightarrow> u8 list" where
  "ip_bytes p =
     [push_bit 4 4 OR of_nat (ip_words p), ip_tos p] @ be16 (ip_total_len p) @ ip_id_off p @
     [ip_ttl p, ip_proto p] @ ip_sum p @ bytes32 (ip_source p) @ bytes32 (ip_dest p) @ ip_options p"

text \<open>
  TCP: ports (kept in network order), sequence and acknowledgement numbers, data offset,
  flags, and the rest of the segment, of which the capture may hold a part only.
\<close>

definition tcp_bytes :: "u16 \<Rightarrow> u16 \<Rightarrow> u8 list \<Rightarrow> nat \<Rightarrow> u8 \<Rightarrow> u8 list \<Rightarrow> u8 list" where
  "tcp_bytes sport dport seq_ack doff fl rest =
     bytes16 sport @ bytes16 dport @ seq_ack @ [push_bit 4 (of_nat doff), fl] @ rest"

definition udp_bytes :: "u16 \<Rightarrow> u16 \<Rightarrow> u8 list \<Rightarrow> u8 list" where
  "udp_bytes sport dport rest = bytes16 sport @ bytes16 dport @ rest"

lemma ntohs_be16 [simp]: "ntohs (le16 (byte (Suc 0) w) (byte 0 w)) = w"
  by (simp add: ntohs_def)

lemma version_byte:
  assumes "n < 16"
  shows "drop_bit 4 (push_bit 4 4 OR of_nat n :: u8) = 4"
    "unat ((push_bit 4 4 OR of_nat n :: u8) AND 0x0F) = n"
proof -
  have "n \<in> set [0..<16]" using assms by simp
  then have "drop_bit 4 (push_bit 4 4 OR of_nat n :: u8) = 4 \<and>
      unat ((push_bit 4 4 OR of_nat n :: u8) AND 0x0F) = n"
    by (simp add: upt_rec) (elim disjE; simp)
  then show "drop_bit 4 (push_bit 4 4 OR of_nat n :: u8) = 4"
    "unat ((push_bit 4 4 OR of_nat n :: u8) AND 0x0F) = n" by simp_all
qed

lemma offset_byte:
  assumes "n < 16"
  shows "uint (drop_bit 4 (push_bit 4 (of_nat n) :: u8)) = int n"
proof -
  have "n \<in> set [0..<16]" using assms by simp
  then show ?thesis by (simp add: upt_rec) (elim disjE; simp)
qed

lemma parse_ether_bytes:
  assumes "length macs = 12"
  shows "parse_ether (ether_bytes macs tag ETHERTYPE_IP @ rest) =
    Ok (Some (length (ether_bytes macs tag ETHERTYPE_IP)))"
  using assms
  by (cases tag) (auto simp: parse_ether_run is_vlan_def ether_bytes_def be16_def nth_append
      ETHERTYPE_IP_def ETHERTYPE_VLAN_def ntohs_def)

text \<open>Reads of a concatenation.\<close>

lemma load_u8_append [simp]:
  "load_u8 (pre @ bs) (length pre + i) = load_u8 bs i"
  by (simp add: load_u8_def nth_append)

lemma load_u16_append [simp]:
  "load_u16 (pre @ bs) (length pre + i) = load_u16 bs i"
  using load_u8_append [of pre bs "i + 1"] by (simp add: load_u16_def add.assoc)

lemma load_u32_append [simp]:
  "load_u32 (pre @ bs) (length pre + i) = load_u32 bs i"
  using load_u8_append [of pre bs "i + 1"] load_u8_append [of pre bs "i + 2"]
    load_u8_append [of pre bs "i + 3"]
  by (simp add: load_u32_def add.assoc)

lemma list_of_length:
  "length xs = 2 \<Longrightarrow> \<exists>a b. xs = [a, b]" "length xs = 4 \<Longrightarrow> \<exists>a b c d. xs = [a, b, c, d]"
  by (auto simp: length_Suc_conv numeral_eq_Suc)

lemma ip_bytes_length: "ip_fields_ok p \<Longrightarrow> length (ip_bytes p) = ip_words p * 4"
  by (auto simp: ip_bytes_def ip_fields_ok_def ip_words_def be16_def)

lemma ip_bytes_fields:
  assumes "ip_fields_ok p"
  shows "load_u8 (ip_bytes p @ seg) 0 = Ok (push_bit 4 4 OR of_nat (ip_words p))"
    "load_u16 (ip_bytes p @ seg) 2 = Ok (ntohs (ip_total_len p))"
    "load_u8 (ip_bytes p @ seg) 9 = Ok (ip_proto p)"
    "load_u32 (ip_bytes p @ seg) 12 = Ok (ip_source p)"
    "load_u32 (ip_bytes p @ seg) 16 = Ok (ip_dest p)"
proof -
  obtain a b c d where io: "ip_id_off p = [a, b, c, d]"
    using assms list_of_length(2) unfolding ip_fields_ok_def by blast
  obtain e f where su: "ip_sum p = [e, f]"
    using assms list_of_length(1) unfolding ip_fields_ok_def by blast
  note defs = ip_bytes_def io su be16_def bytes32_def load_u8_def load_u16_def load_u32_def
  show "load_u8 (ip_bytes p @ seg) 0 = Ok (push_bit 4 4 OR of_nat (ip_words p))"
    "load_u8 (ip_bytes p @ seg) 9 = Ok (ip_proto p)"
    "load_u32 (ip_bytes p @ seg) 12 = Ok (ip_source p)"
    "load_u32 (ip_bytes p @ seg) 16 = Ok (ip_dest p)"
    by (simp_all add: defs)
  have "le16 (byte (Suc 0) w) (byte 0 w) = ntohs w" for w by (simp add: ntohs_def)
  then show "load_u16 (ip_bytes p @ seg) 2 = Ok (ntohs (ip_total_len p))"
    by (simp add: defs)
qed

definition frame_stats :: "pcap_pkthdr \<Rightarrow> ip_fields \<Rightarrow> pkt_stats_t" where
  "frame_stats h p = zero_stats\<lparr>timestamp := ts h,
     pkt_key := zero_key\<lparr>protocol := ip_proto p, src_ip := ip_source p, dst_ip := ip_dest p\<rparr>\<rparr>"

lemma parse_network:
  assumes macs: "length macs = 12" and ok: "ip_fields_ok p"
    and b: "bytes = ether_bytes macs tag ETHERTYPE_IP @ ip_bytes p @ seg"
    and len: "length bytes = unat (caplen h)"
    and off: "off = length (ether_bytes macs tag ETHERTYPE_IP)"
  shows "parse_packet h bytes =
    seq (parse_transport h bytes off (ip_words p * 4) (ip_total_len p) (frame_stats h p)) (\<lambda>r.
      case r of None \<Rightarrow> Ok None
      | Some stats \<Rightarrow>
          Ok (Some (if payload_size stats < 0 then stats\<lparr>payload_size := 0\<rparr> else stats)))"
proof -
  have w: "5 \<le> ip_words p" "ip_words p < 16" using ok by (auto simp: ip_words_def ip_fields_ok_def)
  have ether: "parse_ether bytes = Ok (Some off)"
    unfolding b off by (rule parse_ether_bytes [OF macs])
  have long: "\<not> unat (caplen h) < off + sizeof_ip"
    using w by (simp add: len [symmetric] b off sizeof_ip_def ip_bytes_length [OF ok])
  have L: "load_u8 bytes (off + i) = load_u8 (ip_bytes p @ seg) i"
    "load_u16 bytes (off + i) = load_u16 (ip_bytes p @ seg) i"
    "load_u32 bytes (off + i) = load_u32 (ip_bytes p @ seg) i" for i
    unfolding b off by simp_all
  have ld: "load_u8 bytes off = Ok (push_bit 4 4 OR of_nat (ip_words p))"
    "load_u16 bytes (off + 2) = Ok (ntohs (ip_total_len p))"
    "load_u8 bytes (off + 9) = Ok (ip_proto p)"
    "load_u32 bytes (off + 12) = Ok (ip_source p)" "load_u32 bytes (off + 16) = Ok (ip_dest p)"
    using L(1) [of 0] by (simp_all only: L ip_bytes_fields [OF ok] add_0_right)
  show ?thesis
    using long version_byte [OF w(2)]
    by (simp add: parse_packet_def ether ld Let_def frame_stats_def del: add_2_eq_Suc')
qed

lemma parse_tcp_segment:
  assumes "length seq_ack = 8" and "6 \<le> length rest" and "doff < 16"
    and pr: "protocol (pkt_key stats) = IPPROTO_TCP"
    and b: "bytes = pre @ tcp_bytes sport dport seq_ack doff fl rest" and pre: "length pre = off + hl"
    and len: "length bytes = unat (caplen h)"
  shows "parse_transport h bytes off hl tot stats = Ok (Some (stats\<lparr>
    pkt_key := (pkt_key stats)\<lparr>src_port := sport, dst_port := dport\<rparr>, tcp_flags := fl,
    payload_size := uint tot - int hl - int doff * 4\<rparr>))"
proof -
  let ?t = "tcp_bytes sport dport seq_ack doff fl rest"
  obtain s0 s1 s2 s3 s4 s5 s6 s7 where sa: "seq_ack = [s0, s1, s2, s3, s4, s5, s6, s7]"
    using assms(1) by (auto simp: length_Suc_conv numeral_eq_Suc)
  have "load_u16 ?t 0 = Ok sport" "load_u16 ?t 2 = Ok dport"
    "load_u8 ?t 13 = Ok fl" "load_u8 ?t 12 = Ok (push_bit 4 (of_nat doff))"
    by (simp_all add: tcp_bytes_def bytes16_def load_u16_def load_u8_def sa)
  then have ld: "load_u16 bytes (off + hl) = Ok sport" "load_u16 bytes (off + hl + 2) = Ok dport"
    "load_u8 bytes (off + hl + 13) = Ok fl" "load_u8 bytes (off + hl + 12) = Ok (push_bit 4 (of_nat doff))"
    using load_u16_append [of pre ?t 0] by (simp_all add: b pre [symmetric] del: add_2_eq_Suc')
  have "\<not> unat (caplen h) < off + hl + sizeof_tcphdr"
    using assms(1,2) by (simp add: len [symmetric] b pre tcp_bytes_def sizeof_tcphdr_def)
  then show ?thesis
    by (simp add: parse_transport_def pr ld Let_def offset_byte [OF assms(3)] del: add_2_eq_Suc')
qed

lemma parse_udp_datagram:
  assumes "4 \<le> length rest"
    and pr: "protocol (pkt_key stats) = IPPROTO_UDP"
    and b: "bytes = pre @ udp_bytes sport dport rest" and pre: "length pre = off + hl"
    and len: "length bytes = unat (caplen h)"
  shows "parse_transport h bytes off hl tot stats = Ok (Some (stats\<lparr>
    pkt_key := (pkt_key stats)\<lparr>src_port := sport, dst_port := dport\<rparr>,
    payload_size := uint tot - int hl - 8\<rparr>))"
proof -
  let ?t = "udp_bytes sport dport rest"
  have "load_u16 ?t 0 = Ok sport" "load_u16 ?t 2 = Ok dport"
    by (simp_all add: udp_bytes_def bytes16_def load_u16_def load_u8_def)
  then have ld: "load_u16 bytes (off + hl) = Ok sport" "load_u16 bytes (off + hl + 2) = Ok dport"
    using load_u16_append [of pre ?t 0] by (simp_all add: b pre [symmetric] del: add_2_eq_Suc')
  have "\<not> unat (caplen h) < off + hl + sizeof_udphdr"
    using assms(1) by (simp add: len [symmetric] b pre udp_bytes_def sizeof_udphdr_def)
  then show ?thesis
    by (simp add: parse_transport_def pr ld Let_def IPPROTO_TCP_def IPPROTO_UDP_def del: add_2_eq_Suc')
qed

section \<open>Properties\<close>

text \<open>
  C34: an Ethernet frame, tagged or not, with an IPv4 header of any length and a TCP segment,
  of which at least the fixed header is captured, is parsed to exactly its addresses, ports,
  flags and capture time; the payload size is the IP total length less both header lengths,
  or zero when a corrupted length field would make that negative.
\<close>

theorem parse_tcp_frame:
  assumes "length macs = 12" and "ip_fields_ok p" and "ip_proto p = IPPROTO_TCP"
    and "length seq_ack = 8" and "6 \<le> length rest" and "doff < 16"
    and "bytes = ether_bytes macs tag ETHERTYPE_IP @ ip_bytes p @ tcp_bytes sport dport seq_ack doff fl rest"
    and "length bytes = unat (caplen h)"
  shows "parse_packet h bytes = Ok (Some
    \<lparr>pkt_key = \<lparr>src_ip = ip_source p, dst_ip = ip_dest p, src_port = sport, dst_port = dport,
       protocol = IPPROTO_TCP\<rparr>,
     payload_size = max 0 (uint (ip_total_len p) - 4 * int (ip_words p) - 4 * int doff),
     timestamp = ts h, tcp_flags = fl\<rparr>)"
proof -
  let ?off = "length (ether_bytes macs tag ETHERTYPE_IP)"
  have "parse_transport h bytes ?off (ip_words p * 4) (ip_total_len p) (frame_stats h p) =
    Ok (Some ((frame_stats h p)\<lparr>pkt_key := (pkt_key (frame_stats h p))\<lparr>src_port := sport, dst_port := dport\<rparr>,
      tcp_flags := fl, payload_size := uint (ip_total_len p) - int (ip_words p * 4) - int doff * 4\<rparr>))"
    by (rule parse_tcp_segment [OF assms(4-6), where pre = "ether_bytes macs tag ETHERTYPE_IP @ ip_bytes p"])
       (use assms in \<open>simp_all add: frame_stats_def ip_bytes_length\<close>)
  then show ?thesis
    using parse_network [OF assms(1,2,7,8) refl] assms(3)
    by (simp add: frame_stats_def zero_stats_def zero_key_def)
qed

definition example_ip :: "u8 \<Rightarrow> ip_fields" where
  "example_ip pr = \<lparr>ip_tos = 0, ip_total_len = 1500, ip_id_off = [0, 1, 64, 0], ip_ttl = 64, ip_proto = pr,
     ip_sum = [0, 0], ip_source = 0x0100000A, ip_dest = 0x0200000A, ip_options = [1, 1, 1, 0]\<rparr>"

lemma example_ip_facts: "ip_fields_ok (example_ip pr)" "ip_proto (example_ip pr) = pr"
  "length (ip_bytes (example_ip pr)) = 24"
  by (simp_all add: example_ip_def ip_fields_ok_def ip_bytes_def be16_def)

theorem parse_tcp_frame_witness:
  "\<exists>s. parse_packet (example_hdr\<lparr>caplen := 62\<rparr>)
     (ether_bytes (replicate 12 0) (Some (0, 5)) ETHERTYPE_IP @ ip_bytes (example_ip IPPROTO_TCP) @
      tcp_bytes 1 2 (replicate 8 0) 5 0x18 (replicate 6 0)) = Ok (Some s) \<and> payload_size s = 1456"
  by (subst parse_tcp_frame [OF _ _ _ _ _ _ refl])
     (simp_all add: example_ip_facts,
      simp_all add: ether_bytes_def be16_def tcp_bytes_def example_ip_def ip_words_def)

text \<open>
  The same for UDP: the ports come from the datagram, the flags are zero, and the payload
  size is the IP total length less the IP header and the 8 bytes of the UDP header.
\<close>

theorem parse_udp_frame:
  assumes "length macs = 12" and "ip_fields_ok p" and "ip_proto p = IPPROTO_UDP"
    and "4 \<le> length rest"
    and "bytes = ether_bytes macs tag ETHERTYPE_IP @ ip_bytes p @ udp_bytes sport dport rest"
    and "length bytes = unat (caplen h)"
  shows "parse_packet h bytes = Ok (Some
    \<lparr>pkt_key = \<lparr>src_ip = ip_source p, dst_ip = ip_dest p, src_port = sport, dst_port = dport,
       protocol = IPPROTO_UDP\<rparr>,
     payload_size = max 0 (uint (ip_total_len p) - 4 * int (ip_words p) - 8),
     timestamp = ts h, tcp_flags = 0\<rparr>)"
proof -
  let ?off = "length (ether_bytes macs tag ETHERTYPE_IP)"
  have "parse_transport h bytes ?off (ip_words p * 4) (ip_total_len p) (frame_stats h p) =
    Ok (Some ((frame_stats h p)\<lparr>pkt_key := (pkt_key (frame_stats h p))\<lparr>src_port := sport, dst_port := dport\<rparr>,
      payload_size := uint (ip_total_len p) - int (ip_words p * 4) - 8\<rparr>))"
    by (rule parse_udp_datagram [OF assms(4), where pre = "ether_bytes macs tag ETHERTYPE_IP @ ip_bytes p"])
       (use assms in \<open>simp_all add: frame_stats_def ip_bytes_length\<close>)
  then show ?thesis
    using parse_network [OF assms(1,2,5,6) refl] assms(3)
    by (simp add: frame_stats_def zero_stats_def zero_key_def)
qed

theorem parse_udp_frame_witness:
  "\<exists>s. parse_packet (example_hdr\<lparr>caplen := 46\<rparr>)
     (ether_bytes (replicate 12 0) None ETHERTYPE_IP @ ip_bytes (example_ip IPPROTO_UDP) @
      udp_bytes 1 2 (replicate 4 0)) = Ok (Some s) \<and> payload_size s = 1468"
  by (subst parse_udp_frame [OF _ _ _ _ refl])
     (simp_all add: example_ip_facts,
      simp_all add: ether_bytes_def be16_def udp_bytes_def example_ip_def ip_words_def)

text \<open>
  A frame whose IPv4 packet carries another protocol (ICMP, for instance) is dropped.
\<close>

theorem parse_other_protocol:
  assumes "length macs = 12" and "ip_fields_ok p" and "ip_proto p \<notin> {IPPROTO_TCP, IPPROTO_UDP}"
    and "bytes = ether_bytes macs tag ETHERTYPE_IP @ ip_bytes p @ rest"
    and "length bytes = unat (caplen h)"
  shows "parse_packet h bytes = Ok None"
  using parse_network [OF assms(1,2,4,5) refl] assms(3)
  by (simp add: parse_transport_def frame_stats_def)

theorem parse_other_protocol_witness:
  "parse_packet (example_hdr\<lparr>caplen := 46\<rparr>)
     (ether_bytes (replicate 12 0) None ETHERTYPE_IP @ ip_bytes (example_ip 1) @ replicate 8 0) = Ok None"
  by (rule parse_other_protocol [OF _ _ _ refl])
     (simp_all add: example_ip_facts IPPROTO_TCP_def IPPROTO_UDP_def, simp add: ether_bytes_def be16_def)

end
