(* ===== verification/Window.thy ===== *)
theory Window
  imports Flow_Spec
begin

text \<open>
  What a table contains after a window of packets: one record per flow key, in order of
  first appearance, each the aggregate of the packets with that key.
\<close>

section \<open>One record per key\<close>

definition window :: "u32 \<Rightarrow> u32 \<Rightarrow> pkt_stats_t list \<Rightarrow> flow_stats list" where
  "window ip msk ss = fold (process_spec ip msk) ss []"

definition packets_of :: "flow_key_t \<Rightarrow> pkt_stats_t list \<Rightarrow> pkt_stats_t list" where
  "packets_of k ss = filter (\<lambda>s. pkt_key s = k) ss"

text \<open>The keys of a window, each once, in order of first appearance.\<close>

definition first_keys :: "pkt_stats_t list \<Rightarrow> flow_key_t list" where
  "first_keys ss = rev (remdups (rev (map pkt_key ss)))"

lemma first_keys_simps [simp]:
  "first_keys [] = []"
  "first_keys (ss @ [s]) =
     (if pkt_key s \<in> pkt_key ` set ss then first_keys ss else first_keys ss @ [pkt_key s])"
  by (simp_all add: first_keys_def)

lemma set_first_keys [simp]: "set (first_keys ss) = pkt_key ` set ss"
  by (simp add: first_keys_def)

lemma distinct_first_keys [simp]: "distinct (first_keys ss)"
  by (simp add: first_keys_def)

definition aggregate :: "u32 \<Rightarrow> u32 \<Rightarrow> pkt_stats_t list \<Rightarrow> flow_key_t \<Rightarrow> flow_stats" where
  "aggregate ip msk ss k = fold flow_update_stats (packets_of k ss) (new_flow ip msk k)"

lemma key_fold_update [simp]: "key (fold flow_update_stats ss f) = key f"
  by (induction ss arbitrary: f) simp_all

lemma direction_fold_update [simp]: "direction (fold flow_update_stats ss f) = direction f"
  by (induction ss arbitrary: f) simp_all

lemma new_flow_members [simp]:
  "key (new_flow ip msk k) = k" "direction (new_flow ip msk k) = infer_direction ip msk k"
  "packet_count (new_flow ip msk k) = 0" "byte_count (new_flow ip msk k) = 0"
  "tcp_syn_count (new_flow ip msk k) = 0" "tcp_fin_count (new_flow ip msk k) = 0"
  "tcp_rst_count (new_flow ip msk k) = 0" "tcp_ack_count (new_flow ip msk k) = 0"
  by (simp_all add: new_flow_def zero_flow_def)

lemma key_aggregate [simp]: "key (aggregate ip msk ss k) = k"
  by (simp add: aggregate_def)

lemma aggregate_snoc:
  "aggregate ip msk (ss @ [s]) k =
     (if pkt_key s = k then flow_update_stats s (aggregate ip msk ss k) else aggregate ip msk ss k)"
  by (simp add: aggregate_def packets_of_def)

lemma aggregate_absent: "k \<notin> pkt_key ` set ss \<Longrightarrow> aggregate ip msk ss k = new_flow ip msk k"
proof -
  assume "k \<notin> pkt_key ` set ss"
  then have "packets_of k ss = []" by (auto simp: packets_of_def filter_empty_conv)
  then show ?thesis by (simp add: aggregate_def)
qed

lemma window_snoc: "window ip msk (ss @ [s]) = process_spec ip msk s (window ip msk ss)"
  by (simp add: window_def)

lemma window_group_by: "window ip msk ss = map (aggregate ip msk ss) (first_keys ss)"
proof (induction ss rule: rev_induct)
  case Nil
  then show ?case by (simp add: window_def)
next
  case (snoc s ss)
  have ks: "key ` set (window ip msk ss) = pkt_key ` set ss" by (simp add: snoc image_image)
  show ?case
  proof (cases "pkt_key s \<in> pkt_key ` set ss")
    case True
    then show ?thesis
      unfolding window_snoc process_spec_def ks by (auto simp: snoc aggregate_snoc)
  next
    case False
    have "map (aggregate ip msk ss) (first_keys ss) = map (aggregate ip msk (ss @ [s])) (first_keys ss)"
      using False by (intro map_cong refl) (auto simp: aggregate_snoc)
    then show ?thesis
      unfolding window_snoc process_spec_def ks
      using False by (simp add: snoc aggregate_snoc aggregate_absent)
  qed
qed

section \<open>The counters of a flow\<close>

lemma fold_update_counters:
  "packet_count (fold flow_update_stats ss f) = packet_count f + of_nat (length ss)"
  "byte_count (fold flow_update_stats ss f) = byte_count f + of_int (\<Sum>s\<leftarrow>ss. payload_size s)"
  "tcp_syn_count (fold flow_update_stats ss f) =
     tcp_syn_count f + of_nat (length (filter (counts_flag TH_SYN) ss))"
  "tcp_fin_count (fold flow_update_stats ss f) =
     tcp_fin_count f + of_nat (length (filter (counts_flag TH_FIN) ss))"
  "tcp_rst_count (fold flow_update_stats ss f) =
     tcp_rst_count f + of_nat (length (filter (counts_flag TH_RST) ss))"
  "tcp_ack_count (fold flow_update_stats ss f) =
     tcp_ack_count f + of_nat (length (filter (counts_flag TH_ACK) ss))"
  by (induction ss arbitrary: f) (simp_all add: algebra_simps)

text \<open>The extremes and the times, while the packet counter has not wrapped around.\<close>

definition sizes_fit :: "pkt_stats_t list \<Rightarrow> bool" where
  "sizes_fit ss \<longleftrightarrow> length ss < 2 ^ 32 \<and> (\<forall>s \<in> set ss. 0 \<le> payload_size s \<and> payload_size s < 2 ^ 16)"

lemma uint_of_payload: "0 \<le> p \<Longrightarrow> p < 2 ^ 16 \<Longrightarrow> uint (of_int p :: u16) = p"
  by (simp add: unsigned_of_int take_bit_int_eq_self)

lemma count_nonzero:
  assumes "0 < n" and "n < 2 ^ 32"
  shows "(of_nat n :: u32) \<noteq> 0"
proof -
  have "unat (of_nat n :: u32) = n" using assms by (simp add: unsigned_of_nat take_bit_eq_mod)
  then show ?thesis using assms(1) by (metis unsigned_0 less_numeral_extra(3))
qed

lemma fold_update_extremes:
  assumes "sizes_fit ss" and "ss \<noteq> []" and "packet_count f = 0"
  shows "uint (min_packet_size (fold flow_update_stats ss f)) = Min (payload_size ` set ss) \<and>
    uint (max_packet_size (fold flow_update_stats ss f)) = Max (payload_size ` set ss) \<and>
    start_time (fold flow_update_stats ss f) = timestamp (hd ss) \<and>
    last_seen (fold flow_update_stats ss f) = timestamp (last ss)"
  using assms
proof (induction ss rule: rev_induct)
  case Nil
  then show ?case by simp
next
  case (snoc s ss)
  have p: "0 \<le> payload_size s" "payload_size s < 2 ^ 16" using snoc.prems by (simp_all add: sizes_fit_def)
  show ?case
  proof (cases "ss = []")
    case True
    then show ?thesis using p snoc.prems by (simp add: uint_of_payload)
  next
    case False
    let ?g = "fold flow_update_stats ss f"
    have IH: "uint (min_packet_size ?g) = Min (payload_size ` set ss)"
      "uint (max_packet_size ?g) = Max (payload_size ` set ss)" "start_time ?g = timestamp (hd ss)"
      using snoc False by (auto simp: sizes_fit_def)
    have cnt: "packet_count ?g \<noteq> 0"
      using snoc.prems False count_nonzero [of "length ss"]
      by (simp add: fold_update_counters sizes_fit_def)
    define mn where "mn = Min (payload_size ` set ss)"
    define mx where "mx = Max (payload_size ` set ss)"
    have M: "Min (payload_size ` set (ss @ [s])) = min (payload_size s) mn"
      "Max (payload_size ` set (ss @ [s])) = max (payload_size s) mx"
      using False by (simp_all add: mn_def mx_def)
    show ?thesis
      unfolding M using IH(1,2) [folded mn_def mx_def] IH(3) cnt p False
      by (simp add: uint_of_payload min_def max_def)
  qed
qed

section \<open>The inter-arrival time\<close>

definition usecs :: "timeval \<Rightarrow> int" where
  "usecs t = tv_sec t * 1000000 + tv_usec t"

text \<open>Timestamps until the year 2106, with a normalised microsecond part.\<close>

definition time_ok :: "timeval \<Rightarrow> bool" where
  "time_ok t \<longleftrightarrow> 0 \<le> tv_sec t \<and> tv_sec t < 2 ^ 32 \<and> 0 \<le> tv_usec t \<and> tv_usec t < 1000000"

lemma usecs_bounds: "time_ok t \<Longrightarrow> 0 \<le> usecs t \<and> usecs t < 2 ^ 53"
  by (auto simp: time_ok_def usecs_def)

lemma usecs_diff: "time_ok t \<Longrightarrow> time_ok l \<Longrightarrow> \<bar>usecs t - usecs l\<bar> \<le> 2 ^ 53"
  using usecs_bounds [of t] usecs_bounds [of l] by linarith

lemma delta_usec_exact:
  assumes t: "time_ok t" and l: "time_ok l"
  shows "delta_usec t l = of_int (usecs t - usecs l)"
proof -
  define ds where "ds = tv_sec t - tv_sec l"
  define du where "du = tv_usec t - tv_usec l"
  have ds: "- (2 ^ 32) < ds" "ds < 2 ^ 32" and du: "- 1000000 < du" "du < 1000000"
    using t l by (auto simp: ds_def du_def time_ok_def)
  have L: "to_long ds = ds" "to_long du = du"
    using ds du by (simp_all add: to_long_id)
  have e1: "dbl (of_int ds) = of_int ds" "dbl (of_int du) = of_int du"
    using ds du by (simp_all add: double.exact)
  have e2: "dbl (of_int ds * 1000000) = of_int (ds * 1000000)"
    using double.mult_exact [of ds 1000000] ds by simp
  have e3: "dbl (of_int (ds * 1000000) + of_int du) = of_int (ds * 1000000 + du)"
    using ds du by (intro double.add_exact) (simp add: abs_le_iff)
  have "delta_usec t l = of_int (ds * 1000000 + du)"
    unfolding delta_usec_def ds_def [symmetric] du_def [symmetric] L e1 e2 by (rule e3)
  then show ?thesis by (simp add: usecs_def ds_def du_def algebra_simps)
qed

lemma fold_update_iat:
  assumes "length ss < 2 ^ 32" and "\<forall>s \<in> set ss. time_ok (timestamp s)" and "ss \<noteq> []"
    and "packet_count f = 0"
  shows "total_iat_usec (fold flow_update_stats ss f) =
      of_int (usecs (timestamp (last ss)) - usecs (timestamp (hd ss))) \<and>
    last_seen (fold flow_update_stats ss f) = timestamp (last ss)"
  using assms
proof (induction ss rule: rev_induct)
  case Nil
  then show ?case by simp
next
  case (snoc s ss)
  show ?case
  proof (cases "ss = []")
    case True
    then show ?thesis using snoc.prems by simp
  next
    case False
    let ?g = "fold flow_update_stats ss f"
    have IH: "total_iat_usec ?g = of_int (usecs (timestamp (last ss)) - usecs (timestamp (hd ss)))"
      "last_seen ?g = timestamp (last ss)"
      using snoc False by simp_all
    have ok: "time_ok (timestamp s)" "time_ok (timestamp (last ss))" "time_ok (timestamp (hd ss))"
      using snoc.prems False by simp_all
    have cnt: "packet_count ?g \<noteq> 0"
      using snoc.prems False count_nonzero [of "length ss"] by (simp add: fold_update_counters)
    have "dbl (of_int (usecs (timestamp (last ss)) - usecs (timestamp (hd ss))) +
          of_int (usecs (timestamp s) - usecs (timestamp (last ss)))) =
        of_int (usecs (timestamp s) - usecs (timestamp (hd ss)))"
      by (rule double.telescope_step) (use usecs_diff [OF ok(1,3)] in simp)
    then show ?thesis
      using IH cnt False delta_usec_exact [OF ok(1,2)] by (simp del: of_int_diff)
  qed
qed

section \<open>A window of packets in the code\<close>

text \<open>The packets of a window, one call of \<open>flow_process_packet\<close> after the other.\<close>

fun process_packets ::
  "sniffer_context \<Rightarrow> pkt_stats_t list \<Rightarrow> mem \<Rightarrow> (sniffer_context \<times> mem) outcome" where
  "process_packets ctx [] m = Ok (ctx, m)"
| "process_packets ctx (s # ss) m = seq (flow_process_packet ctx s m) (\<lambda>(ctx, m). process_packets ctx ss m)"

lemma process_packets_window:
  assumes "get_table ctx (active_idx ctx) = Ok head" and "hash_rep m head tp xs" and "mem_wf m"
    and "table_abs m xs = window (net_ip ctx) (net_mask ctx) pre"
  shows "safe (\<lambda>c. c \<in> {1, -1})
    (\<lambda>(ctx', m'). \<exists>head' tp' xs'. get_table ctx' (active_idx ctx') = Ok head' \<and> hash_rep m' head' tp' xs' \<and>
       mem_wf m' \<and> table_abs m' xs' = window (net_ip ctx) (net_mask ctx) (pre @ ss))
    (process_packets ctx ss m)"
  using assms
proof (induction ss arbitrary: ctx m head tp xs pre)
  case Nil
  then show ?case by auto
next
  case (Cons s ss)
  show ?case unfolding process_packets.simps
  proof (rule safe_seq [OF safe_mono [OF flow_process_packet_step [OF Cons.prems(1-3), of s]]])
    fix r assume "case r of (ctx', m') \<Rightarrow> step_result ctx s m tp xs ctx' m'"
    then obtain ctx' m' head' tp' xs' where r: "r = (ctx', m')" and rep: "hash_rep m' head' tp' xs'" "mem_wf m'"
      and ctx': "ctx' = ctx\<lparr>tables := (tables ctx)[nat (active_idx ctx) := head']\<rparr>"
      and abs: "table_abs m' xs' = process_spec (net_ip ctx) (net_mask ctx) s (table_abs m xs)"
      by (auto simp: step_result_def)
    have "get_table ctx' (active_idx ctx') = Ok head'"
      using Cons.prems(1) by (auto simp: ctx' get_table_def split: if_splits)
    moreover have "table_abs m' xs' = window (net_ip ctx') (net_mask ctx') (pre @ [s])"
      using abs Cons.prems(4) by (simp add: window_snoc ctx')
    ultimately have "safe (\<lambda>c. c \<in> {1, -1})
        (\<lambda>(ctx'', m''). \<exists>head' tp' xs'. get_table ctx'' (active_idx ctx'') = Ok head' \<and> hash_rep m'' head' tp' xs' \<and>
           mem_wf m'' \<and> table_abs m'' xs' = window (net_ip ctx') (net_mask ctx') ((pre @ [s]) @ ss))
        (process_packets ctx' ss m')"
      by (rule Cons.IH [OF _ rep])
    then show "safe (\<lambda>c. c \<in> {1, -1})
        (\<lambda>(ctx', m'). \<exists>head' tp' xs'. get_table ctx' (active_idx ctx') = Ok head' \<and> hash_rep m' head' tp' xs' \<and>
           mem_wf m' \<and> table_abs m' xs' = window (net_ip ctx) (net_mask ctx) (pre @ s # ss))
        (case r of (ctx, m) \<Rightarrow> process_packets ctx ss m)"
      by (simp add: r ctx')
  qed simp
qed

text \<open>A packet of a flow that is in the table needs no memory.\<close>

lemma flow_process_packet_hit:
  assumes "get_table ctx (active_idx ctx) = Ok head" and "hash_rep m head tp xs" and "mem_wf m"
    and "pkt_key s \<in> key_at m ` set xs"
  obtains m' where "flow_process_packet ctx s m = Ok (ctx, m')"
proof -
  obtain a where f: "List.find (\<lambda>a. key_at m a = pkt_key s) xs = Some a"
    using assms(4) by (cases "List.find (\<lambda>a. key_at m a = pkt_key s) xs") (auto simp: find_None_iff)
  then have "a \<in> set xs" using find_key_Some by blast
  then show thesis
    using that HASH_FIND_correct [OF assms(2,3), of "pkt_key s"] hash_rep_valid [OF assms(2)]
    by (simp add: flow_process_packet_def assms(1) f run_simps)
qed

section \<open>Properties\<close>

definition example_window :: "pkt_stats_t list" where
  "example_window =
     [example_pkt,
      example_pkt\<lparr>pkt_key := example_key 1, payload_size := 7\<rparr>,
      example_pkt\<lparr>payload_size := 1460, timestamp := \<lparr>tv_sec = 1700000001, tv_usec = 100000\<rparr>\<rparr>]"

lemma example_window_packets:
  "packets_of (example_key 0) example_window =
     [example_pkt,
      example_pkt\<lparr>payload_size := 1460, timestamp := \<lparr>tv_sec = 1700000001, tv_usec = 100000\<rparr>\<rparr>]"
  by (simp add: packets_of_def example_window_def example_pkt_def example_key_def zero_key_def)

text \<open>
  The counters of a flow record: packets, payload bytes and TCP flags count the packets of
  the flow, modulo \<open>2\<^sup>3\<^sup>2\<close>; the flag counters of a flow that is not TCP stay zero.
\<close>

theorem aggregate_counters:
  "packet_count (aggregate ip msk ss k) = of_nat (length (packets_of k ss)) \<and>
   byte_count (aggregate ip msk ss k) = of_int (\<Sum>s\<leftarrow>packets_of k ss. payload_size s) \<and>
   tcp_syn_count (aggregate ip msk ss k) = of_nat (length (filter (counts_flag TH_SYN) (packets_of k ss))) \<and>
   tcp_fin_count (aggregate ip msk ss k) = of_nat (length (filter (counts_flag TH_FIN) (packets_of k ss))) \<and>
   tcp_rst_count (aggregate ip msk ss k) = of_nat (length (filter (counts_flag TH_RST) (packets_of k ss))) \<and>
   tcp_ack_count (aggregate ip msk ss k) = of_nat (length (filter (counts_flag TH_ACK) (packets_of k ss)))"
  by (simp add: aggregate_def fold_update_counters)

text \<open>
  The smallest and the largest payload, the start time and the last-seen time of a flow
  record are those of its packets, as long as the packet counter has not wrapped around and the
  payload sizes fit 16 bits.
\<close>

theorem aggregate_extremes:
  assumes "sizes_fit (packets_of k ss)" and "packets_of k ss \<noteq> []"
  shows "uint (min_packet_size (aggregate ip msk ss k)) = Min (payload_size ` set (packets_of k ss)) \<and>
    uint (max_packet_size (aggregate ip msk ss k)) = Max (payload_size ` set (packets_of k ss)) \<and>
    start_time (aggregate ip msk ss k) = timestamp (hd (packets_of k ss)) \<and>
    last_seen (aggregate ip msk ss k) = timestamp (last (packets_of k ss))"
  unfolding aggregate_def using assms by (rule fold_update_extremes) simp

theorem aggregate_extremes_witness:
  "uint (min_packet_size (aggregate 0x0A 0xFF example_window (example_key 0))) = 100 \<and>
   uint (max_packet_size (aggregate 0x0A 0xFF example_window (example_key 0))) = 1460"
  using aggregate_extremes [of "example_key 0" example_window "0x0A" "0xFF"]
  by (simp add: example_window_packets sizes_fit_def example_pkt_def)

text \<open>What the record \<open>f\<close> of a flow says of the packets \<open>ps\<close> of the flow.\<close>

definition totals :: "u32 \<Rightarrow> u32 \<Rightarrow> pkt_stats_t list \<Rightarrow> flow_stats \<Rightarrow> bool" where
  "totals ip msk ps f \<longleftrightarrow>
     direction f = infer_direction ip msk (key f) \<and>
     packet_count f = of_nat (length ps) \<and> byte_count f = of_int (\<Sum>s\<leftarrow>ps. payload_size s) \<and>
     tcp_syn_count f = of_nat (length (filter (counts_flag TH_SYN) ps)) \<and>
     tcp_fin_count f = of_nat (length (filter (counts_flag TH_FIN) ps)) \<and>
     tcp_rst_count f = of_nat (length (filter (counts_flag TH_RST) ps)) \<and>
     tcp_ack_count f = of_nat (length (filter (counts_flag TH_ACK) ps)) \<and>
     (sizes_fit ps \<longrightarrow>
        uint (min_packet_size f) = Min (payload_size ` set ps) \<and>
        uint (max_packet_size f) = Max (payload_size ` set ps) \<and>
        start_time f = timestamp (hd ps) \<and> last_seen f = timestamp (last ps))"

lemma totals_aggregate:
  assumes "packets_of k ss \<noteq> []"
  shows "totals ip msk (packets_of k ss) (aggregate ip msk ss k)"
  using fold_update_extremes [OF _ assms, of "new_flow ip msk k"]
  by (simp add: totals_def aggregate_def fold_update_counters)


text \<open>Two packets of one flow.\<close>

definition example_flow :: "pkt_stats_t list" where
  "example_flow = packets_of (example_key 0) example_window"

lemma example_flow_returns: "\<exists>ctx m. process_packets example_ctx example_flow empty_mem = Ok (ctx, m)"
proof -
  have g: "get_table example_ctx (active_idx example_ctx) = Ok None"
    and net: "net_ip example_ctx = 0x0A" "net_mask example_ctx = 0xFF"
    by (simp_all add: get_table_def example_ctx_def)
  have rep: "hash_rep empty_mem None None []" by simp
  have "safe (\<lambda>_. False) (\<lambda>(ctx, m). step_result example_ctx example_pkt empty_mem None [] ctx m)
      (flow_process_packet example_ctx example_pkt empty_mem)"
    by (rule safe_mono [OF flow_process_packet_step [OF g rep empty_mem_facts(1)]])
       (use empty_mem_facts(4) in auto)
  then obtain ctx m head tp xs where 1: "flow_process_packet example_ctx example_pkt empty_mem = Ok (ctx, m)"
    and r: "hash_rep m head tp xs" "mem_wf m"
      "ctx = example_ctx\<lparr>tables := (tables example_ctx)[nat (active_idx example_ctx) := head]\<rparr>"
    and abs: "table_abs m xs = process_spec 0x0A 0xFF example_pkt []"
    using safe_returns by (fastforce simp: step_result_def table_abs_def net)
  have "key ` set (table_abs m xs) = {pkt_key example_pkt}" by (simp add: abs process_spec_def)
  moreover have "key_at m ` set xs = key ` set (table_abs m xs)"
    by (simp add: table_abs_def image_image key_stats_of)
  ultimately have k: "example_key 0 \<in> key_at m ` set xs" by (simp add: example_pkt_def)
  have "get_table ctx (active_idx ctx) = Ok head" by (simp add: r(3) get_table_def example_ctx_def)
  from flow_process_packet_hit [OF this r(1,2), of "example_flow ! 1"] k obtain m' where
    "flow_process_packet ctx (example_flow ! 1) m = Ok (ctx, m')"
    by (auto simp: example_flow_def example_window_packets example_pkt_def)
  then show ?thesis using 1 by (simp add: example_flow_def example_window_packets)
qed


text \<open>
  C40: the accumulated inter-arrival time of a flow record is exactly the time from its first
  to its last packet in microseconds, although it is summed up in floating point: every
  intermediate result is an integer below \<open>2\<^sup>5\<^sup>3\<close>.
\<close>

theorem aggregate_iat_exact:
  assumes "length (packets_of k ss) < 2 ^ 32" and "packets_of k ss \<noteq> []"
    and "\<forall>s \<in> set (packets_of k ss). time_ok (timestamp s)"
  shows "total_iat_usec (aggregate ip msk ss k) =
    of_int (usecs (timestamp (last (packets_of k ss))) - usecs (timestamp (hd (packets_of k ss))))"
  unfolding aggregate_def using fold_update_iat [OF assms(1,3,2) new_flow_members(3)] by simp

theorem aggregate_iat_exact_witness:
  "total_iat_usec (aggregate 0x0A 0xFF example_window (example_key 0)) = 850000"
  using aggregate_iat_exact [of "example_key 0" example_window "0x0A" "0xFF"]
  by (simp add: example_window_packets time_ok_def example_pkt_def usecs_def)

end
