(* ===== verification/Kafka_Client.thy ===== *)
theory Kafka_Client
  imports Window
begin

text \<open>
  kafka_client.c: the JSON serialisation of a flow, the export of a table, and the
  set-up and clean-up of the producer.  librdkafka is not part of the repository: what the
  code asks of it is recorded as a list of calls, and what it answers is a parameter.
\<close>

section \<open>Text formatting\<close>

text \<open>The conversion \<open>%u\<close>.\<close>

fun dec :: "nat \<Rightarrow> string" where
  "dec n = (if n < 10 then [char_of (48 + n)] else dec (n div 10) @ [char_of (48 + n mod 10)])"

declare dec.simps [simp del]

text \<open>
  The conversion \<open>%.1f\<close>: the exact value of the double, rounded to one digit after the
  point, ties to even.
\<close>

definition fmt_1f :: "rat \<Rightarrow> string" where
  "fmt_1f x =
     (let n = nat (round_half_even (10 * \<bar>x\<bar>))
      in (if x < 0 then ''-'' else '''') @ dec (n div 10) @ ''.'' @ dec (n mod 10))"

text \<open>\<open>inet_ntop (AF_INET, ...)\<close> on the bytes of an address in memory order.\<close>

definition inet_ntop :: "u32 \<Rightarrow> string" where
  "inet_ntop a =
     dec (unat (byte 0 a)) @ ''.'' @ dec (unat (byte 1 a)) @ ''.'' @
     dec (unat (byte 2 a)) @ ''.'' @ dec (unat (byte 3 a))"

text \<open>\<open>snprintf\<close> into a buffer of \<open>n\<close> bytes stores the terminator and at most \<open>n - 1\<close> bytes.\<close>

definition snprintf :: "nat \<Rightarrow> string \<Rightarrow> string" where
  "snprintf n text = take (n - 1) text"

section \<open>Serialisation\<close>

fun dir_to_str :: "flow_direction_t \<Rightarrow> string" where
  "dir_to_str DIR_OUTBOUND = ''OUTBOUND''"
| "dir_to_str DIR_INBOUND = ''INBOUND''"
| "dir_to_str DIR_LATERAL = ''LATERAL''"
| "dir_to_str DIR_UNKNOWN = ''UNKNOWN''"

definition mean_iat :: "'a flow_stats_scheme \<Rightarrow> rat" where
  "mean_iat f =
     (if packet_count f > 1 then dbl (total_iat_usec f / of_int (uint (packet_count f - 1))) else 0)"

definition proto_str :: "u8 \<Rightarrow> string" where
  "proto_str p = (if p = IPPROTO_TCP then ''TCP'' else if p = IPPROTO_UDP then ''UDP'' else ''OTHER'')"

abbreviation fmt_u :: "'a::len word \<Rightarrow> string" where
  "fmt_u w \<equiv> dec (unat w)"

definition json_text :: "'a flow_stats_scheme \<Rightarrow> string" where \<open>
  json_text f =
    ''{"src_ip":"'' @ inet_ntop (src_ip (key f)) @ ''","src_port":'' @ fmt_u (ntohs (src_port (key f))) @
    '',"dst_ip":"'' @ inet_ntop (dst_ip (key f)) @ ''","dst_port":'' @ fmt_u (ntohs (dst_port (key f))) @
    '',"protocol":"'' @ proto_str (protocol (key f)) @ ''","dir":"'' @ dir_to_str (direction f) @
    ''","packets":'' @ fmt_u (packet_count f) @ '',"bytes":'' @ fmt_u (byte_count f) @
    '',"min_size":'' @ fmt_u (min_packet_size f) @ '',"max_size":'' @ fmt_u (max_packet_size f) @
    '',"mean_iat_us":'' @ fmt_1f (mean_iat f) @
    '',"tcp":{"syn":'' @ fmt_u (tcp_syn_count f) @ '',"ack":'' @ fmt_u (tcp_ack_count f) @
    '',"fin":'' @ fmt_u (tcp_fin_count f) @ '',"rst":'' @ fmt_u (tcp_rst_count f) @ ''}}''\<close>

definition sizeof_json_payload :: nat where "sizeof_json_payload = 1024"

definition json_payload :: "'a flow_stats_scheme \<Rightarrow> string" where
  "json_payload f = snprintf sizeof_json_payload (json_text f)"

section \<open>Calls to librdkafka\<close>

datatype kafka_call =
  Conf_new | Conf_set string string | Conf_destroy | Conf_set_dr_msg_cb | Producer_new
| Producev string string | Poll int | Flush int | Destroy

section \<open>kafka_client_send_flows\<close>

definition send_flow :: "string \<Rightarrow> addr \<Rightarrow> kafka_call list \<Rightarrow> mem \<Rightarrow> kafka_call list outcome" where
  "send_flow topic a out m =
     seq (load_flow (Some a) m) (\<lambda>f. Ok (out @ [Producev topic (json_payload f)]))"

text \<open>The table pointer, the calls made and the heap afterwards.\<close>

definition kafka_client_send_flows ::
  "ptr \<Rightarrow> string \<Rightarrow> ptr \<Rightarrow> mem \<Rightarrow> (ptr \<times> kafka_call list \<times> mem) outcome" where
  "kafka_client_send_flows producer topic head m =
     (if head = None \<or> producer = None then Ok (head, [], m)
      else
        seq (HASH_ITER (drain_body (send_flow topic)) head (head, []) m) (\<lambda>((head, out), m).
        Ok (head, out @ [Poll 0, Flush 500], m)))"

section \<open>kafka_client_init and kafka_client_cleanup\<close>

text \<open>
  \<open>conf_ok k v\<close> tells whether \<open>rd_kafka_conf_set\<close> accepts the setting, \<open>new\<close> is the result
  of \<open>rd_kafka_new\<close>.  The second and third settings are made without looking at the result.
\<close>

definition kafka_client_init ::
  "(string \<Rightarrow> string \<Rightarrow> bool) \<Rightarrow> ptr \<Rightarrow> string \<Rightarrow> ptr \<times> kafka_call list" where
  "kafka_client_init conf_ok new brokers =
     (let calls = [Conf_new, Conf_set ''bootstrap.servers'' brokers] in
      if \<not> conf_ok ''bootstrap.servers'' brokers then (None, calls @ [Conf_destroy])
      else
        let calls = calls @ [Conf_set ''queue.buffering.max.ms'' ''10'', Conf_set ''acks'' ''0'',
              Conf_set_dr_msg_cb, Producer_new] in
        (case new of None \<Rightarrow> (None, calls @ [Conf_destroy]) | Some rk \<Rightarrow> (Some rk, calls)))"

definition kafka_client_cleanup :: "ptr \<Rightarrow> kafka_call list" where
  "kafka_client_cleanup producer = (if producer \<noteq> None then [Flush 5000, Destroy] else [])"

section \<open>Export of a table\<close>

lemma fold_append_map: "fold (\<lambda>a out. out @ [g a]) xs out = out @ map g xs"
  by (induction xs arbitrary: out) simp_all

lemma json_text_stats_of [simp]: "json_text (stats_of f) = json_text f"
  by (simp add: json_text_def mean_iat_def)

lemma send_flow_emits:
  "emits (send_flow topic) (\<lambda>f out. out @ [Producev topic (json_payload f)])"
  by (simp add: emits_def send_flow_def run_simps json_payload_def)

lemma send_flows_drains:
  assumes rep: "hash_rep m head tp xs" and wf: "mem_wf m" and ne: "head \<noteq> None" and p: "producer \<noteq> None"
  shows "\<exists>m'. kafka_client_send_flows producer topic head m =
      Ok (None, map (\<lambda>f. Producev topic (json_payload f)) (table_abs m xs) @ [Poll 0, Flush 500], m') \<and>
    mem_wf m' \<and> freed m m' (set xs) tp \<and> fresh m \<le> fresh m'"
  using HASH_ITER_drain [OF rep wf send_flow_emits, of topic "[]"] ne p
  by (auto simp: kafka_client_send_flows_def fold_append_map table_abs_def o_def)

section \<open>The payload fits its buffer\<close>

lemma length_dec: "n < 10 ^ k \<Longrightarrow> 0 < k \<Longrightarrow> length (dec n) \<le> k"
proof (induction k arbitrary: n)
  case 0
  then show ?case by simp
next
  case (Suc k)
  show ?case
  proof (cases "n < 10")
    case True
    then show ?thesis by (simp add: dec.simps [of n])
  next
    case False
    then have "0 < k" using Suc.prems by (cases k) auto
    moreover have "n div 10 < 10 ^ k" using Suc.prems by (simp add: less_mult_imp_div_less)
    ultimately show ?thesis using Suc.IH [of "n div 10"] False by (simp add: dec.simps [of n])
  qed
qed

lemma length_fmt_u: "length (fmt_u (w::u8)) \<le> 3" "length (fmt_u (v::u16)) \<le> 5" "length (fmt_u (x::u32)) \<le> 10"
proof -
  have "unat w < 2 ^ 8" using unsigned_less [of w, where ?'a = nat] by simp
  then have "unat w < 10 ^ 3" by simp
  then show "length (fmt_u w) \<le> 3" by (rule length_dec) simp
  have "unat v < 2 ^ 16" using unsigned_less [of v, where ?'a = nat] by simp
  then have "unat v < 10 ^ 5" by simp
  then show "length (fmt_u v) \<le> 5" by (rule length_dec) simp
  have "unat x < 2 ^ 32" using unsigned_less [of x, where ?'a = nat] by simp
  then have "unat x < 10 ^ 10" by simp
  then show "length (fmt_u x) \<le> 10" by (rule length_dec) simp
qed

lemma length_inet_ntop: "length (inet_ntop a) \<le> 15"
  using length_fmt_u(1) [of "byte 0 a"] length_fmt_u(1) [of "byte 1 a"]
    length_fmt_u(1) [of "byte 2 a"] length_fmt_u(1) [of "byte 3 a"]
  by (simp add: inet_ntop_def)

text \<open>The range of a finite double.\<close>

definition finite_double :: "rat \<Rightarrow> bool" where
  "finite_double x \<longleftrightarrow> \<bar>x\<bar> < 2 ^ 1024"

lemma length_fmt_1f:
  assumes "\<bar>x\<bar> \<le> 10 ^ k"
  shows "length (fmt_1f x) \<le> k + 4"
proof -
  define r where "r = round_half_even (10 * \<bar>x\<bar>)"
  define n where "n = nat r"
  have "of_int r \<le> 10 * \<bar>x\<bar> + 1 / 2"
    using round_half_even_error [of "10 * \<bar>x\<bar>"] unfolding r_def by linarith
  also have "\<dots> \<le> of_int (10 * 10 ^ k + 1)" using assms by simp
  finally have "r \<le> 10 * 10 ^ k + 1" by (simp only: of_int_le_iff)
  then have "int n \<le> 10 * 10 ^ k + 1" by (simp add: n_def)
  then have "n \<le> 10 * 10 ^ k + 1" by (simp add: nat_le_iff flip: of_nat_le_iff [where 'a = int])
  moreover have "(1::nat) \<le> 10 ^ k" by simp
  ultimately have "n < 10 ^ Suc k * 10" by (simp only: power_Suc)
  then have "n div 10 < 10 ^ Suc k" by (rule less_mult_imp_div_less)
  then have "length (dec (n div 10)) \<le> Suc k" by (rule length_dec) simp
  moreover have "length (dec (n mod 10)) \<le> 1" by (rule length_dec) simp_all
  ultimately show ?thesis by (simp add: fmt_1f_def Let_def r_def [symmetric] n_def [symmetric])
qed

lemma mean_iat_abs_le: "\<bar>mean_iat f\<bar> \<le> 2 * \<bar>total_iat_usec f\<bar>"
proof (cases "packet_count f > 1")
  case True
  define c :: rat where "c = of_int (uint (packet_count f - 1))"
  have "packet_count f - 1 \<noteq> 0" using True by auto
  then have "0 < uint (packet_count f - 1)" by (metis uint_ge_0 unsigned_eq_0_iff order_le_less)
  then have c: "1 \<le> c" unfolding c_def by (metis of_int_1 of_int_le_iff int_one_le_iff_zero_less)
  have "\<bar>mean_iat f\<bar> \<le> 2 * \<bar>total_iat_usec f / c\<bar>"
    using True dbl_abs_le [of "total_iat_usec f / c"] by (simp add: mean_iat_def c_def)
  also have "\<dots> \<le> 2 * \<bar>total_iat_usec f\<bar>"
    using c by (simp add: abs_divide divide_le_eq mult_le_cancel_left1)
  finally show ?thesis .
next
  case False
  then show ?thesis by (simp add: mean_iat_def)
qed

lemma mean_iat_bound:
  assumes "finite_double (total_iat_usec f)"
  shows "\<bar>mean_iat f\<bar> \<le> 10 ^ 309"
proof -
  have "\<bar>mean_iat f\<bar> \<le> 2 * 2 ^ 1024" using mean_iat_abs_le [of f] assms by (simp add: finite_double_def)
  then show ?thesis by simp
qed

lemma length_json_text:
  assumes "finite_double (total_iat_usec f)"
  shows "length (json_text f) < 1024"
proof -
  have "length (fmt_1f (mean_iat f)) \<le> 313" using length_fmt_1f [OF mean_iat_bound [OF assms]] by simp
  moreover have "length (proto_str (protocol (key f))) \<le> 5" by (simp add: proto_str_def)
  moreover have "length (dir_to_str (direction f)) \<le> 8" by (cases "direction f") simp_all
  moreover note length_inet_ntop [of "src_ip (key f)"] length_inet_ntop [of "dst_ip (key f)"]
    length_fmt_u(2) [of "ntohs (src_port (key f))"] length_fmt_u(2) [of "ntohs (dst_port (key f))"]
    length_fmt_u(3) [of "packet_count f"] length_fmt_u(3) [of "byte_count f"]
    length_fmt_u(2) [of "min_packet_size f"] length_fmt_u(2) [of "max_packet_size f"]
    length_fmt_u(3) [of "tcp_syn_count f"] length_fmt_u(3) [of "tcp_ack_count f"]
    length_fmt_u(3) [of "tcp_fin_count f"] length_fmt_u(3) [of "tcp_rst_count f"]
  ultimately show ?thesis by (simp add: json_text_def)
qed

section \<open>Reading the formats back\<close>

definition read_dec :: "string \<Rightarrow> nat" where
  "read_dec cs = foldl (\<lambda>n c. 10 * n + (of_char c - 48)) 0 cs"

lemma read_dec_dec: "read_dec (dec n) = n"
proof (induction n rule: dec.induct)
  case (1 n)
  show ?case
  proof (cases "n < 10")
    case True
    then show ?thesis by (simp add: dec.simps [of n] read_dec_def)
  next
    case False
    then show ?thesis
      using 1 by (simp add: dec.simps [of n] read_dec_def)
  qed
qed

lemma dec_digits: "set (dec n) \<subseteq> char_of ` {48..57 :: nat}"
proof (induction n rule: dec.induct)
  case (1 n)
  show ?case
  proof (cases "n < 10")
    case True
    then have "char_of (48 + n) \<in> char_of ` {48..57 :: nat}" by (intro imageI) auto
    then show ?thesis using True by (simp add: dec.simps [of n])
  next
    case False
    have "char_of (48 + n mod 10) \<in> char_of ` {48..57 :: nat}" by (rule imageI) auto
    then show ?thesis using False 1 by (simp add: dec.simps [of n])
  qed
qed

section \<open>Properties\<close>

text \<open>
  C29: \<open>kafka_client_send_flows\<close> on a table: every flow is serialised and handed to
  \<open>rd_kafka_producev\<close> exactly once, in insertion order, then the producer is polled and
  flushed.  The table pointer ends up \<open>NULL\<close>, all nodes and the table object are freed, and
  nothing else in the heap changes: no pointer is used after it was freed.
\<close>

theorem kafka_client_send_flows_exports:
  assumes "hash_rep m head tp xs" and "mem_wf m" and "head \<noteq> None" and "producer \<noteq> None"
  shows "\<exists>m'. kafka_client_send_flows producer topic head m =
      Ok (None, map (\<lambda>f. Producev topic (json_payload f)) (table_abs m xs) @ [Poll 0, Flush 500], m') \<and>
    mem_wf m' \<and>
    (\<forall>a. flows m' a = (if a \<in> set xs then None else flows m a)) \<and>
    (\<forall>t. tbls m' t = (if tp = Some t then None else tbls m t))"
  using send_flows_drains [OF assms, of topic] by (auto simp: freed_def)

theorem kafka_client_send_flows_exports_witness:
  "\<exists>head m m' p. HASH_ADD None (Some 0) example_mem = Ok (head, m) \<and>
     kafka_client_send_flows (Some 0) ''topic'' head m = Ok (None, [Producev ''topic'' p, Poll 0, Flush 500], m') \<and>
     flows m' 0 = None"
proof -
  obtain head m where t: "HASH_ADD None (Some 0) example_mem = Ok (head, m)" "table_rep m head [0]" "mem_wf m"
    using example_table by blast
  then obtain tp where r: "hash_rep m head tp [0]" by (auto simp: table_rep_def)
  then have "head \<noteq> None" using hash_rep_head by fastforce
  from kafka_client_send_flows_exports [OF r t(3) this, of "Some 0" "''topic''"] t(1)
  show ?thesis by (auto simp: table_abs_def)
qed

text \<open>
  The 1024-byte buffer holds every serialised flow: while the accumulated inter-arrival
  time is a finite double, \<open>snprintf\<close> never truncates the JSON text.
\<close>

theorem json_payload_complete:
  assumes "finite_double (total_iat_usec f)"
  shows "json_payload f = json_text f \<and> length (json_payload f) < 1024"
  using length_json_text [OF assms] by (simp add: json_payload_def snprintf_def sizeof_json_payload_def)

theorem json_payload_complete_witness:
  "json_payload zero_flow = json_text zero_flow \<and> length (json_payload zero_flow) < 1024"
  by (rule json_payload_complete) (simp add: finite_double_def zero_flow_def)

text \<open>
  \<open>%u\<close> prints a number as decimal digits that read back as the number, so different
  counters have different texts.
\<close>

theorem dec_roundtrip:
  "read_dec (dec n) = n \<and> dec n \<noteq> [] \<and> set (dec n) \<subseteq> char_of ` {48..57 :: nat}"
proof -
  have "dec n \<noteq> []" by (simp add: dec.simps [of n])
  then show ?thesis using read_dec_dec dec_digits by blast
qed

text \<open>
  \<open>%.1f\<close> prints the value to within half a tenth: an optional sign, the integer part, a
  point and one digit.
\<close>

theorem fmt_1f_accurate:
  "\<exists>q d. d < 10 \<and> fmt_1f x = (if x < 0 then ''-'' else '''') @ dec q @ ''.'' @ [char_of (48 + d)] \<and>
     \<bar>of_nat (10 * q + d) / 10 - \<bar>x\<bar>\<bar> \<le> 1 / 20"
proof -
  define r where "r = round_half_even (10 * \<bar>x\<bar>)"
  define n where "n = nat r"
  have e: "\<bar>of_int r - 10 * \<bar>x\<bar>\<bar> \<le> 1 / 2" unfolding r_def by (rule round_half_even_error)
  have "0 \<le> r"
  proof (rule ccontr)
    assume "\<not> 0 \<le> r"
    then have "r \<le> -1" by simp
    then have "(of_int r :: rat) \<le> of_int (-1)" by (simp only: of_int_le_iff)
    then show False using e by simp
  qed
  then have n: "(of_nat n :: rat) = of_int r" by (simp add: n_def)
  have "of_nat (10 * (n div 10) + n mod 10) / 10 - \<bar>x\<bar> = (of_int r - 10 * \<bar>x\<bar>) / 10"
    using n by (simp only: mult_div_mod_eq) (simp add: field_simps)
  then have "\<bar>of_nat (10 * (n div 10) + n mod 10) / 10 - \<bar>x\<bar>\<bar> \<le> 1 / 20"
    using e by (simp only: abs_divide) simp
  moreover have "fmt_1f x = (if x < 0 then ''-'' else '''') @ dec (n div 10) @ ''.'' @ [char_of (48 + n mod 10)]"
    by (simp add: fmt_1f_def Let_def r_def [symmetric] n_def [symmetric] dec.simps [of "n mod 10"])
  ultimately show ?thesis by (intro exI [of _ "n div 10"] exI [of _ "n mod 10"]) simp
qed

text \<open>
  The exported mean inter-arrival time is the accumulated time divided by the number of
  gaps, up to one rounding; with fewer than two packets it is zero.
\<close>

theorem mean_iat_accurate:
  "mean_iat f =
     (if packet_count f \<le> 1 then 0 else dbl (total_iat_usec f / of_nat (unat (packet_count f) - 1))) \<and>
   \<bar>mean_iat f - (if packet_count f \<le> 1 then 0 else total_iat_usec f / of_nat (unat (packet_count f) - 1))\<bar>
     \<le> \<bar>total_iat_usec f / of_nat (unat (packet_count f) - 1)\<bar> / 2 ^ 53"
proof (cases "packet_count f > 1")
  case True
  have "1 \<le> packet_count f" using True by simp
  then have "unat (packet_count f - 1) = unat (packet_count f) - 1" by (simp add: unat_sub)
  then have "(of_int (uint (packet_count f - 1)) :: rat) = of_nat (unat (packet_count f) - 1)"
    by (metis of_int_of_nat_eq uint_nat)
  then have "mean_iat f = dbl (total_iat_usec f / of_nat (unat (packet_count f) - 1))"
    using True by (simp only: mean_iat_def if_True)
  moreover have "(packet_count f \<le> 1) = False" using True by simp
  ultimately show ?thesis using dbl_relative_error by (simp only: if_False simp_thms)
next
  case False
  then have "packet_count f \<le> 1" "(1 < packet_count f) = False" by auto
  then show ?thesis by (simp add: mean_iat_def)
qed

text \<open>
  \<open>kafka_client_init\<close> creates one configuration object and gives it up exactly once: it is
  destroyed on the failing paths and consumed by the new producer otherwise.  It returns a
  producer exactly when the brokers are accepted and \<open>rd_kafka_new\<close> made one; the
  acknowledgement level is then set to 0.
\<close>

theorem kafka_client_init_ownership:
  "count_list (snd (kafka_client_init conf_ok new brokers)) Conf_new = 1 \<and>
   count_list (snd (kafka_client_init conf_ok new brokers)) Conf_destroy =
     (if fst (kafka_client_init conf_ok new brokers) = None then 1 else 0) \<and>
   fst (kafka_client_init conf_ok new brokers) = (if conf_ok ''bootstrap.servers'' brokers then new else None) \<and>
   (fst (kafka_client_init conf_ok new brokers) = None \<or>
      Conf_set ''acks'' ''0'' \<in> set (snd (kafka_client_init conf_ok new brokers)))"
  by (simp add: kafka_client_init_def Let_def split: option.split)

end
