(* ===== verification/Sniffer.thy ===== *)
theory Sniffer
  imports Frames Kafka_Client
begin

text \<open>
  main.c: the capture thread (the main thread inside \<open>pcap_loop\<close>), the flush thread, and the
  double buffering they share.  A step of the relation is one action of one thread: taking or
  releasing the mutex, a critical section, one iteration of the export loop, a test of
  \<open>is_running\<close>.
\<close>

section \<open>State\<close>

text \<open>Where the capture thread is: in \<open>pcap_loop\<close> or inside a call of \<open>pkt_handler\<close>.\<close>

datatype capture_pc =
  Cap_loop | Cap_lock pkt_stats_t | Cap_critical pkt_stats_t | Cap_unlock | Cap_stopped

text \<open>
  Where the flush thread is.  \<open>Fl_iter el tmp head out\<close> is the loop of
  \<open>kafka_client_send_flows\<close> with its local variables and the calls it has made.
\<close>

datatype flush_pc =
  Fl_test | Fl_lock | Fl_critical | Fl_unlock ptr | Fl_export ptr
| Fl_iter ptr ptr ptr "kafka_call list" | Fl_sleep | Fl_exit

text \<open>
  The last four members are history: the packets handed to the aggregation engine, those of the
  current window, those of the window being exported, and the windows exported.
\<close>

record sys =
  sctx :: sniffer_context
  heap :: mem
  capture :: capture_pc
  flush :: flush_pc
  calls :: "kafka_call list"
  accepted :: "pkt_stats_t list"
  current :: "pkt_stats_t list"
  pending :: "pkt_stats_t list"
  windows :: "pkt_stats_t list list"

text \<open>The state in which \<open>main\<close> creates the flush thread.\<close>

definition main_init :: "u32 \<Rightarrow> u32 \<Rightarrow> ptr \<Rightarrow> mem \<Rightarrow> sys" where
  "main_init ip msk rk m =
     \<lparr>sctx = \<lparr>tables = [None, None], active_idx = 0, mutex = None, net_ip = ip, net_mask = msk,
        is_running = 1, kafka_producer = rk\<rparr>,
      heap = m, capture = Cap_loop, flush = Fl_test, calls = [],
      accepted = [], current = [], pending = [], windows = []\<rparr>"

text \<open>What libpcap delivers: \<open>caplen\<close> bytes, any number of them.\<close>

definition captured :: "pcap_pkthdr \<Rightarrow> u8 list \<Rightarrow> bool" where
  "captured h bytes \<longleftrightarrow> length bytes = unat (caplen h)"

definition topic_name :: string where "topic_name = ''network-microflows-raw''"

text \<open>The critical section of \<open>flush_worker\<close>: the table to export and the new context.\<close>

definition swap_tables :: "sniffer_context \<Rightarrow> (ptr \<times> sniffer_context) outcome" where
  "swap_tables ctx =
     seq (get_table ctx (active_idx ctx)) (\<lambda>table_to_export.
     let ctx = ctx\<lparr>active_idx := (if active_idx ctx = 0 then 1 else 0)\<rparr> in
     seq (set_table (active_idx ctx) None ctx) (\<lambda>ctx. Ok (table_to_export, ctx)))"

section \<open>Steps\<close>

definition set_mutex :: "thread option \<Rightarrow> sys \<Rightarrow> sys" where
  "set_mutex t s = s\<lparr>sctx := (sctx s)\<lparr>mutex := t\<rparr>\<rparr>"

text \<open>The actions that compute.\<close>

definition receive :: "pcap_pkthdr \<Rightarrow> u8 list \<Rightarrow> sys \<Rightarrow> sys outcome" where
  "receive h bytes s =
     seq (parse_packet h bytes) (\<lambda>r. Ok (case r of None \<Rightarrow> s | Some st \<Rightarrow> s\<lparr>capture := Cap_lock st\<rparr>))"

definition process :: "pkt_stats_t \<Rightarrow> sys \<Rightarrow> sys outcome" where
  "process st s =
     seq (flow_process_packet (sctx s) st (heap s)) (\<lambda>(c, m).
     Ok (s\<lparr>sctx := c, heap := m, capture := Cap_unlock, accepted := accepted s @ [st],
       current := current s @ [st]\<rparr>))"

definition swap :: "sys \<Rightarrow> sys outcome" where
  "swap s =
     seq (swap_tables (sctx s)) (\<lambda>(t, c).
     Ok (s\<lparr>sctx := c, flush := Fl_unlock t, pending := current s, current := []\<rparr>))"

definition finish_window :: "kafka_call list \<Rightarrow> sys \<Rightarrow> sys" where
  "finish_window out s =
     s\<lparr>flush := Fl_sleep, calls := calls s @ out, windows := windows s @ [pending s], pending := []\<rparr>"

definition start_export :: "ptr \<Rightarrow> sys \<Rightarrow> sys outcome" where
  "start_export t s =
     (if t = None \<or> kafka_producer (sctx s) = None then Ok (finish_window [] s)
      else seq (next_or_null t (heap s)) (\<lambda>tmp. Ok (s\<lparr>flush := Fl_iter t tmp t []\<rparr>)))"

definition export_one :: "addr \<Rightarrow> ptr \<Rightarrow> ptr \<Rightarrow> kafka_call list \<Rightarrow> sys \<Rightarrow> sys outcome" where
  "export_one a tmp head out s =
     seq (drain_body (send_flow topic_name) a (head, out) (heap s)) (\<lambda>((head, out), m).
     seq (next_or_null tmp m) (\<lambda>nxt.
     Ok (s\<lparr>heap := m, flush := Fl_iter tmp nxt head out\<rparr>)))"

text \<open>
  The steps when the captures are among those of \<open>wire\<close>; \<open>step\<close> and \<open>reachable\<close> allow any.
\<close>

inductive step_on :: "(u8 list \<Rightarrow> bool) \<Rightarrow> sys \<Rightarrow> sys outcome \<Rightarrow> bool" for wire where
  cap_receive: "capture s = Cap_loop \<Longrightarrow> captured h bytes \<Longrightarrow> wire bytes \<Longrightarrow> step_on wire s (receive h bytes s)"
| cap_lock: "capture s = Cap_lock st \<Longrightarrow> mutex (sctx s) = None \<Longrightarrow>
    step_on wire s (Ok (set_mutex (Some Capture_thread) (s\<lparr>capture := Cap_critical st\<rparr>)))"
| cap_process: "capture s = Cap_critical st \<Longrightarrow> step_on wire s (process st s)"
| cap_unlock: "capture s = Cap_unlock \<Longrightarrow> step_on wire s (Ok (set_mutex None (s\<lparr>capture := Cap_loop\<rparr>)))"
| cap_stop: "capture s = Cap_loop \<Longrightarrow>
    step_on wire s (Ok (s\<lparr>capture := Cap_stopped, sctx := (sctx s)\<lparr>is_running := 0\<rparr>\<rparr>))"
| fl_test: "flush s = Fl_test \<Longrightarrow>
    step_on wire s (Ok (s\<lparr>flush := (if is_running (sctx s) \<noteq> 0 then Fl_lock else Fl_exit)\<rparr>))"
| fl_lock: "flush s = Fl_lock \<Longrightarrow> mutex (sctx s) = None \<Longrightarrow>
    step_on wire s (Ok (set_mutex (Some Flush_thread) (s\<lparr>flush := Fl_critical\<rparr>)))"
| fl_swap: "flush s = Fl_critical \<Longrightarrow> step_on wire s (swap s)"
| fl_unlock: "flush s = Fl_unlock t \<Longrightarrow> step_on wire s (Ok (set_mutex None (s\<lparr>flush := Fl_export t\<rparr>)))"
| fl_export: "flush s = Fl_export t \<Longrightarrow> step_on wire s (start_export t s)"
| fl_iter: "flush s = Fl_iter (Some a) tmp head out \<Longrightarrow> step_on wire s (export_one a tmp head out s)"
| fl_done: "flush s = Fl_iter None tmp head out \<Longrightarrow>
    step_on wire s (Ok (finish_window (out @ [Poll 0, Flush 500]) s))"
| fl_sleep: "flush s = Fl_sleep \<Longrightarrow> step_on wire s (Ok (s\<lparr>flush := Fl_test\<rparr>))"

inductive reachable_on :: "(u8 list \<Rightarrow> bool) \<Rightarrow> sys \<Rightarrow> sys outcome \<Rightarrow> bool" for wire s0 where
  reach_start: "reachable_on wire s0 (Ok s0)"
| reach_step: "reachable_on wire s0 (Ok s) \<Longrightarrow> step_on wire s r \<Longrightarrow> reachable_on wire s0 r"

abbreviation step :: "sys \<Rightarrow> sys outcome \<Rightarrow> bool" where
  "step \<equiv> step_on (\<lambda>_. True)"

abbreviation reachable :: "sys \<Rightarrow> sys outcome \<Rightarrow> bool" where
  "reachable \<equiv> reachable_on (\<lambda>_. True)"

end
