(* ===== verification/Sniffer_Inv.thy ===== *)
theory Sniffer_Inv
  imports Sniffer
begin

text \<open>
  The invariant of the two threads: the mutex discipline, the two tables on the heap and what
  they hold, and the history of windows and calls.  Every step keeps it, and a step is possible
  until both threads have ended.
\<close>

section \<open>The invariant\<close>

text \<open>What the export of a window hands to Kafka.\<close>

definition messages :: "flow_stats list \<Rightarrow> kafka_call list" where
  "messages fs = map (\<lambda>f. Producev topic_name (json_payload f)) fs"

definition export_calls :: "u32 \<Rightarrow> u32 \<Rightarrow> pkt_stats_t list \<Rightarrow> kafka_call list" where
  "export_calls ip msk w =
     (if w = [] then [] else messages (window ip msk w) @ [Poll 0, Flush 500])"

text \<open>The table pointer the flush thread holds.\<close>

fun held_table :: "flush_pc \<Rightarrow> ptr" where
  "held_table (Fl_unlock t) = t"
| "held_table (Fl_export t) = t"
| "held_table (Fl_iter el tmp head out) = head"
| "held_table _ = None"

definition mutex_ok :: "sys \<Rightarrow> bool" where
  "mutex_ok s \<longleftrightarrow>
     (mutex (sctx s) = Some Capture_thread \<longleftrightarrow>
        (\<exists>st. capture s = Cap_critical st) \<or> capture s = Cap_unlock) \<and>
     (mutex (sctx s) = Some Flush_thread \<longleftrightarrow>
        flush s = Fl_critical \<or> (\<exists>t. flush s = Fl_unlock t))"

text \<open>
  The two tables in the heap: \<open>xs\<close> the active one and \<open>ys\<close> the one being exported.  They
  share nothing, and nothing else is allocated.
\<close>

definition heap_ok :: "mem \<Rightarrow> ptr \<Rightarrow> ptr \<Rightarrow> addr list \<Rightarrow> ptr \<Rightarrow> ptr \<Rightarrow> addr list \<Rightarrow> bool" where
  "heap_ok m h tp xs h' tp' ys \<longleftrightarrow>
     mem_wf m \<and> hash_rep m h tp xs \<and> hash_rep m h' tp' ys \<and>
     set xs \<inter> set ys = {} \<and> (tp = None \<or> tp \<noteq> tp') \<and>
     (\<forall>a. valid m a \<longleftrightarrow> a \<in> set xs \<union> set ys) \<and>
     (\<forall>t. tvalid m t \<longleftrightarrow> tp = Some t \<or> tp' = Some t)"

definition flush_ok :: "u32 \<Rightarrow> u32 \<Rightarrow> sys \<Rightarrow> addr list \<Rightarrow> bool" where
  "flush_ok ip msk s ys \<longleftrightarrow>
     (case flush s of
        Fl_unlock t \<Rightarrow> table_abs (heap s) ys = window ip msk (pending s)
      | Fl_export t \<Rightarrow> table_abs (heap s) ys = window ip msk (pending s)
      | Fl_iter el tmp head out \<Rightarrow>
          el = hd_opt ys \<and> tmp = hd_opt (tl ys) \<and> pending s \<noteq> [] \<and>
          out @ messages (table_abs (heap s) ys) = messages (window ip msk (pending s))
      | _ \<Rightarrow> pending s = [])"

definition tables_ok :: "u32 \<Rightarrow> u32 \<Rightarrow> sys \<Rightarrow> bool" where
  "tables_ok ip msk s \<longleftrightarrow>
     (\<exists>tp xs tp' ys.
        heap_ok (heap s) (tables (sctx s) ! nat (active_idx (sctx s))) tp xs
          (held_table (flush s)) tp' ys \<and>
        table_abs (heap s) xs = window ip msk (current s) \<and> flush_ok ip msk s ys)"

definition inv :: "u32 \<Rightarrow> u32 \<Rightarrow> sys \<Rightarrow> bool" where
  "inv ip msk s \<longleftrightarrow>
     mutex_ok s \<and>
     net_ip (sctx s) = ip \<and> net_mask (sctx s) = msk \<and> kafka_producer (sctx s) \<noteq> None \<and>
     length (tables (sctx s)) = 2 \<and> active_idx (sctx s) \<in> {0, 1} \<and> tables_ok ip msk s \<and>
     accepted s = concat (windows s) @ pending s @ current s \<and>
     calls s = concat (map (export_calls ip msk) (windows s))"

section \<open>Preservation\<close>

lemma window_Nil_iff [simp]: "window ip msk w = [] \<longleftrightarrow> w = []"
  by (metis set_first_keys set_empty2 image_is_empty set_empty map_is_Nil_conv window_group_by)

lemma table_abs_Nil_iff [simp]: "table_abs m xs = [] \<longleftrightarrow> xs = []"
  by (simp add: table_abs_def)

lemma table_abs_Nil: "table_abs m [] = []" and window_Nil: "window ip msk [] = []"
  by (simp_all add: table_abs_def window_def)

lemma table_abs_same: "(\<And>a. a \<in> set xs \<Longrightarrow> stats_of (flow_at m' a) = stats_of (flow_at m a)) \<Longrightarrow>
    table_abs m' xs = table_abs m xs"
  by (simp add: table_abs_def)

text \<open>The heap after a step of the aggregation engine on the active table.\<close>

lemma heap_ok_process:
  assumes ok: "heap_ok m h tp xs h' tp' ys"
    and res: "step_result ctx st m tp xs ctx2 m2"
    and idx: "tables ctx ! nat (active_idx ctx) = h" "nat (active_idx ctx) < length (tables ctx)"
  shows "\<exists>tp2 xs2. heap_ok m2 (tables ctx2 ! nat (active_idx ctx2)) tp2 xs2 h' tp' ys \<and>
    table_abs m2 xs2 = process_spec (net_ip ctx) (net_mask ctx) st (table_abs m xs) \<and>
    table_abs m2 ys = table_abs m ys"
proof -
  have wf: "mem_wf m" and rep: "hash_rep m h tp xs" and rep': "hash_rep m h' tp' ys"
    and dis: "set xs \<inter> set ys = {}" "tp = None \<or> tp \<noteq> tp'"
    and al: "\<And>a. valid m a \<longleftrightarrow> a \<in> set xs \<union> set ys" "\<And>t. tvalid m t \<longleftrightarrow> tp = Some t \<or> tp' = Some t"
    using ok by (auto simp: heap_ok_def)
  obtain h2 tp2 xs2 where rep2: "hash_rep m2 h2 tp2 xs2" and wf2: "mem_wf m2"
    and c2: "ctx2 = ctx\<lparr>tables := (tables ctx)[nat (active_idx ctx) := h2]\<rparr>"
    and abs: "table_abs m2 xs2 = process_spec (net_ip ctx) (net_mask ctx) st (table_abs m xs)"
    and fr: "frame (set xs) tp m m2" and gr: "grows m m2 tp tp2 xs xs2"
    using res by (auto simp: step_result_def)
  have fl: "flows m2 a = flows m a" if "a \<in> set ys" for a
    using that fr dis al(1) by (auto simp: frame_def)
  have tb: "tbls m2 t = tbls m t" if "tp' = Some t" for t
    using that fr dis al(2) by (auto simp: frame_def)
  have rep2': "hash_rep m2 h' tp' ys"
    by (rule hash_rep_same_nodes [OF _ rep']) (use fl tb in \<open>auto simp: same_nodes_def\<close>)
  have "heap_ok m2 h2 tp2 xs2 h' tp' ys"
    unfolding heap_ok_def
  proof (intro conjI allI)
    show "set xs2 \<inter> set ys = {}" using gr al dis(1) by (auto simp: grows_def)
    show "tp2 = None \<or> tp2 \<noteq> tp'"
      using gr al(2) dis(2) by (cases tp2) (auto simp: grows_def)
    show "valid m2 a \<longleftrightarrow> a \<in> set xs2 \<union> set ys" for a
      using gr al(1) [of a] by (auto simp: grows_def)
    show "tvalid m2 t \<longleftrightarrow> tp2 = Some t \<or> tp' = Some t" for t
      using gr al(2) [of t] by (auto simp: grows_def)
  qed (fact wf2 rep2 rep2')+
  then show ?thesis
    using abs table_abs_same [of ys m2 m] fl c2 idx by (intro exI [of _ tp2] exI [of _ xs2]) auto
qed

lemma heap_ok_drain:
  assumes ok: "heap_ok m h tp xs (hd_opt (a # ys)) tp' (a # ys)" and dr: "drained m m2 a ys tp'"
  shows "heap_ok m2 h tp xs (hd_opt ys) (if ys = [] then None else tp') ys \<and>
    table_abs m2 xs = table_abs m xs \<and> table_abs m2 ys = table_abs m ys"
proof -
  have rep: "hash_rep m h tp xs" and rep': "hash_rep m (hd_opt (a # ys)) tp' (a # ys)"
    and dis: "set xs \<inter> set (a # ys) = {}" "tp = None \<or> tp \<noteq> tp'"
    and al: "\<And>b. valid m b \<longleftrightarrow> b \<in> set xs \<union> set (a # ys)" "\<And>t. tvalid m t \<longleftrightarrow> tp = Some t \<or> tp' = Some t"
    using ok by (auto simp: heap_ok_def)
  have d: "a \<notin> set ys" and tp': "tp' \<noteq> None"
    using hash_rep_distinct [OF rep'] rep' by (auto simp: hash_rep_def)
  have rep2: "hash_rep m2 h tp xs"
    by (rule hash_rep_same_nodes [OF _ rep])
       (use dr dis in \<open>auto simp: same_nodes_def drained_def\<close>)
  have rep2': "hash_rep m2 (hd_opt ys) (if ys = [] then None else tp') ys" and wf2: "mem_wf m2"
    using dr by (auto simp: drained_def)
  have "heap_ok m2 h tp xs (hd_opt ys) (if ys = [] then None else tp') ys"
    unfolding heap_ok_def
  proof (intro conjI allI)
    show "set xs \<inter> set ys = {}" using dis by auto
    show "tp = None \<or> tp \<noteq> (if ys = [] then None else tp')" using dis by auto
    show "valid m2 b \<longleftrightarrow> b \<in> set xs \<union> set ys" for b
      using dr al(1) [of b] d dis by (auto simp: drained_def)
    show "tvalid m2 t \<longleftrightarrow> tp = Some t \<or> (if ys = [] then None else tp') = Some t" for t
    proof (cases "tp' = Some t")
      case True
      show ?thesis
      proof (cases "ys = []")
        case True
        then show ?thesis using dr dis \<open>tp' = Some t\<close> by (auto simp: drained_def tvalid_def)
      next
        case False
        then show ?thesis using hash_rep_tvalid [OF rep2'] \<open>tp' = Some t\<close> by auto
      qed
    next
      case False
      then have "tbls m2 t = tbls m t" using dr by (auto simp: drained_def)
      then show ?thesis using al(2) [of t] False by (auto simp: tvalid_def)
    qed
  qed (fact wf2 rep2 rep2')+
  moreover have "table_abs m2 xs = table_abs m xs" "table_abs m2 ys = table_abs m ys"
    by (rule table_abs_same; use dr d dis in \<open>auto simp: drained_def\<close>)+
  ultimately show ?thesis by blast
qed

text \<open>\<open>good\<close> outcomes: the invariant again, or an exit for want of memory; never a fault.\<close>

definition good :: "u32 \<Rightarrow> u32 \<Rightarrow> sys outcome \<Rightarrow> bool" where
  "good ip msk r = safe (\<lambda>c. c \<in> {1, -1}) (inv ip msk) r"

lemma good_simps [simp]: "good ip msk (Ok s) = inv ip msk s"
  by (simp add: good_def)

lemma tables_ok_cong:
  assumes "tables_ok ip msk s" and "tables (sctx s') = tables (sctx s)"
    and "active_idx (sctx s') = active_idx (sctx s)" and "heap s' = heap s" and "current s' = current s"
    and "held_table (flush s') = held_table (flush s)" and "\<And>ys. flush_ok ip msk s ys \<Longrightarrow> flush_ok ip msk s' ys"
  shows "tables_ok ip msk s'"
  using assms unfolding tables_ok_def by metis

lemma flush_ok_same:
  "flush s' = flush s \<Longrightarrow> table_abs (heap s') ys = table_abs (heap s) ys \<Longrightarrow> pending s' = pending s \<Longrightarrow>
     flush_ok ip msk s' ys = flush_ok ip msk s ys"
  unfolding flush_ok_def by (cases "flush s") simp_all

lemma inv_init:
  assumes "mem_wf m" and "\<And>a. \<not> valid m a" and "\<And>t. \<not> tvalid m t" and "rk \<noteq> None"
  shows "inv ip msk (main_init ip msk rk m)"
proof -
  have "heap_ok m None None [] None None []" using assms by (simp add: heap_ok_def)
  then have "tables_ok ip msk (main_init ip msk rk m)"
    unfolding tables_ok_def
    by (intro exI [of _ None] exI [of _ "[]"]) (simp add: main_init_def flush_ok_def table_abs_def window_def)
  then show ?thesis using assms(4) by (auto simp: inv_def main_init_def mutex_ok_def)
qed

text \<open>Steps that move the control of a thread only.\<close>

lemma inv_control:
  assumes I: "inv ip msk s" and "heap s' = heap s" and "current s' = current s"
    and "accepted s' = accepted s" and "windows s' = windows s" and "calls s' = calls s" and "pending s' = pending s"
    and "tables (sctx s') = tables (sctx s)" and "active_idx (sctx s') = active_idx (sctx s)"
    and "net_ip (sctx s') = net_ip (sctx s)" and "net_mask (sctx s') = net_mask (sctx s)"
    and "kafka_producer (sctx s') = kafka_producer (sctx s)"
    and "held_table (flush s') = held_table (flush s)" and "\<And>ys. flush_ok ip msk s ys \<Longrightarrow> flush_ok ip msk s' ys"
    and "mutex_ok s'"
  shows "inv ip msk s'"
  using tables_ok_cong [of ip msk s s'] assms unfolding inv_def by simp

lemma inv_receive:
  assumes I: "inv ip msk s" and pc: "capture s = Cap_loop" and "captured h bytes" and "\<not> too_short bytes"
  shows "good ip msk (receive h bytes s)"
proof -
  obtain r where r: "parse_packet h bytes = Ok r"
    using parse_packet_long assms(3,4) by (auto simp: captured_def)
  have "inv ip msk (s\<lparr>capture := Cap_lock st\<rparr>)" for st
    by (rule inv_control [OF I])
       (use I pc in \<open>simp_all add: flush_ok_same [of "s\<lparr>capture := Cap_lock st\<rparr>" s] inv_def mutex_ok_def\<close>)
  then show ?thesis using I by (simp add: receive_def r split: option.split)
qed

lemma inv_process:
  assumes I: "inv ip msk s" and pc: "capture s = Cap_critical st"
  shows "good ip msk (process st s)"
proof -
  let ?c = "sctx s"
  obtain tp xs tp' ys where ok: "heap_ok (heap s) (tables ?c ! nat (active_idx ?c)) tp xs (held_table (flush s)) tp' ys"
    and abs: "table_abs (heap s) xs = window ip msk (current s)" and fl: "flush_ok ip msk s ys"
    using I by (auto simp: inv_def tables_ok_def)
  have idx: "nat (active_idx ?c) < length (tables ?c)" "length (tables ?c) = 2" "active_idx ?c \<in> {0, 1}"
    and net: "net_ip ?c = ip" "net_mask ?c = msk" "kafka_producer ?c \<noteq> None"
    using I by (auto simp: inv_def)
  have get: "get_table ?c (active_idx ?c) = Ok (tables ?c ! nat (active_idx ?c))"
    using idx by (auto simp: get_table_def)
  have rep: "hash_rep (heap s) (tables ?c ! nat (active_idx ?c)) tp xs" and wf: "mem_wf (heap s)"
    using ok by (auto simp: heap_ok_def)
  have st: "safe (\<lambda>c. c \<in> {1, -1})
      (\<lambda>(c', m'). step_result ?c st (heap s) tp xs c' m') (flow_process_packet ?c st (heap s))"
    by (rule safe_mono [OF flow_process_packet_step [OF get rep wf]]) auto
  show ?thesis
    unfolding good_def process_def
  proof (rule safe_seq [OF st], clarify)
    fix c2 m2 assume res: "step_result ?c st (heap s) tp xs c2 m2"
    obtain tp2 xs2 where ok2: "heap_ok m2 (tables c2 ! nat (active_idx c2)) tp2 xs2 (held_table (flush s)) tp' ys"
      and abs2: "table_abs m2 xs2 = process_spec ip msk st (table_abs (heap s) xs)"
      and same: "table_abs m2 ys = table_abs (heap s) ys"
      using heap_ok_process [OF ok res refl idx(1)] net by auto
    have c2: "\<exists>h. c2 = ?c\<lparr>tables := (tables ?c)[nat (active_idx ?c) := h]\<rparr>"
      using res by (auto simp: step_result_def)
    define s2 where "s2 = s\<lparr>sctx := c2, heap := m2, capture := Cap_unlock, accepted := accepted s @ [st],
       current := current s @ [st]\<rparr>"
    have "flush_ok ip msk s2 ys"
      using fl same flush_ok_same [of s2 s ys] by (simp add: s2_def)
    moreover have "table_abs (heap s2) xs2 = window ip msk (current s2)"
      using abs2 abs by (simp add: s2_def window_snoc)
    moreover have "mutex_ok s2" using I pc c2 by (auto simp: inv_def mutex_ok_def s2_def)
    moreover have "heap_ok (heap s2) (tables (sctx s2) ! nat (active_idx (sctx s2))) tp2 xs2 (held_table (flush s2)) tp' ys"
      using ok2 by (simp add: s2_def)
    ultimately have "tables_ok ip msk s2" "mutex_ok s2" unfolding tables_ok_def by blast+
    then have "inv ip msk s2"
      using I c2 unfolding inv_def by (auto simp: s2_def)
    then show "safe (\<lambda>c. c \<in> {1, -1}) (inv ip msk) (Ok (s\<lparr>sctx := c2, heap := m2, capture := Cap_unlock,
       accepted := accepted s @ [st], current := current s @ [st]\<rparr>))"
      by (simp add: s2_def)
  qed
qed

lemma heap_ok_empty_held: "heap_ok m h tp xs None tp' ys \<Longrightarrow> ys = [] \<and> tp' = None"
  using hash_rep_None by (auto simp: heap_ok_def)

lemma inv_swap:
  assumes I: "inv ip msk s" and pc: "flush s = Fl_critical"
  shows "good ip msk (swap s)"
proof -
  let ?c = "sctx s" and ?i = "active_idx (sctx s)"
  define j :: int where "j = (if ?i = 0 then 1 else 0)"
  define h where "h = tables ?c ! nat ?i"
  obtain tp xs tp' ys where ok: "heap_ok (heap s) h tp xs None tp' ys"
    and abs: "table_abs (heap s) xs = window ip msk (current s)" and fl: "flush_ok ip msk s ys"
    using I pc by (auto simp: inv_def tables_ok_def h_def)
  have p: "pending s = []" using fl pc by (simp add: flush_ok_def)
  have i: "?i \<in> {0, 1}" "length (tables ?c) = 2" using I by (auto simp: inv_def)
  define c2 where "c2 = ?c\<lparr>active_idx := j, tables := (tables ?c)[nat j := None]\<rparr>"
  have run: "swap_tables ?c = Ok (h, c2)"
    using i by (auto simp: swap_tables_def get_table_def set_table_def Let_def h_def c2_def j_def)
  define s2 where "s2 = s\<lparr>sctx := c2, flush := Fl_unlock h, pending := current s, current := []\<rparr>"
  have nt: "tables c2 ! nat (active_idx c2) = None" using i by (auto simp: c2_def j_def)
  have hk: "heap_ok (heap s) None None [] h tp xs"
    using ok heap_ok_empty_held [OF ok] by (auto simp: heap_ok_def)
  have "tables_ok ip msk s2"
    unfolding tables_ok_def
    by (rule exI [of _ None], rule exI [of _ "[]"], rule exI [of _ tp], rule exI [of _ xs])
       (simp add: s2_def flush_ok_def abs table_abs_Nil window_Nil nt hk)
  moreover have "mutex_ok s2" using I pc by (auto simp: inv_def mutex_ok_def s2_def c2_def)
  ultimately have "inv ip msk s2"
    using I p unfolding inv_def by (auto simp: s2_def c2_def j_def)
  then show ?thesis by (simp add: swap_def run s2_def)
qed

lemma export_calls_window:
  "w \<noteq> [] \<Longrightarrow> export_calls ip msk w = messages (window ip msk w) @ [Poll 0, Flush 500]"
  by (simp add: export_calls_def)

lemma inv_finish_window:
  assumes I: "inv ip msk s" and pc: "held_table (flush s) = None"
    and not: "flush s \<noteq> Fl_critical" "\<forall>t. flush s \<noteq> Fl_unlock t"
    and out: "out = export_calls ip msk (pending s)"
  shows "inv ip msk (finish_window out s)"
proof -
  let ?s = "finish_window out s"
  obtain tp xs tp' ys where ok: "heap_ok (heap s) (tables (sctx s) ! nat (active_idx (sctx s))) tp xs None tp' ys"
    and abs: "table_abs (heap s) xs = window ip msk (current s)"
    using I pc by (auto simp: inv_def tables_ok_def)
  then have "tables_ok ip msk ?s"
    unfolding tables_ok_def
    by (intro exI [of _ tp] exI [of _ xs] exI [of _ tp'] exI [of _ ys])
       (simp add: finish_window_def flush_ok_def)
  moreover have "mutex_ok ?s" using I not by (auto simp: inv_def mutex_ok_def finish_window_def)
  ultimately show ?thesis using I out unfolding inv_def by (auto simp: finish_window_def)
qed

lemma inv_start_export:
  assumes I: "inv ip msk s" and pc: "flush s = Fl_export t"
  shows "good ip msk (start_export t s)"
proof -
  obtain tp xs tp' ys where ok: "heap_ok (heap s) (tables (sctx s) ! nat (active_idx (sctx s))) tp xs t tp' ys"
    and abs: "table_abs (heap s) xs = window ip msk (current s)"
    and ys: "table_abs (heap s) ys = window ip msk (pending s)"
    using I pc by (auto simp: inv_def tables_ok_def flush_ok_def)
  have k: "kafka_producer (sctx s) \<noteq> None" using I by (simp add: inv_def)
  have rep': "hash_rep (heap s) t tp' ys" using ok by (simp add: heap_ok_def)
  then have t: "t = hd_opt ys" by (rule hash_rep_head)
  show ?thesis
  proof (cases "ys = []")
    case True
    then have "pending s = []" using ys by (metis table_abs_Nil_iff window_Nil_iff)
    then have "inv ip msk (finish_window [] s)"
      by (intro inv_finish_window [OF I]) (use pc t True in \<open>auto simp: export_calls_def\<close>)
    then show ?thesis using t True by (simp add: start_export_def)
  next
    case False
    then have p: "pending s \<noteq> []" using ys by (metis table_abs_Nil_iff window_Nil_iff)
    define s2 where "s2 = s\<lparr>flush := Fl_iter t (hd_opt (tl ys)) t []\<rparr>"
    have run: "start_export t s = Ok s2"
      using next_or_null_rep [OF rep'] k False t by (auto simp add: start_export_def s2_def)
    have "tables_ok ip msk s2"
      unfolding tables_ok_def using ok abs ys p t
      by (intro exI [of _ tp] exI [of _ xs] exI [of _ tp'] exI [of _ ys])
         (simp add: s2_def flush_ok_def)
    moreover have "mutex_ok s2" using I pc by (auto simp: inv_def mutex_ok_def s2_def)
    ultimately have "inv ip msk s2" using I unfolding inv_def by (auto simp: s2_def)
    then show ?thesis by (simp add: run)
  qed
qed

text \<open>One iteration of the export loop, in terms of the list it works on.\<close>

lemma export_one_run:
  assumes I: "inv ip msk s" and pc: "flush s = Fl_iter (Some a) tmp head out"
  obtains tp xs tp' zs m2 where
    "heap_ok (heap s) (tables (sctx s) ! nat (active_idx (sctx s))) tp xs (hd_opt (a # zs)) tp' (a # zs)"
    and "table_abs (heap s) xs = window ip msk (current s)" and "pending s \<noteq> []"
    and "out @ messages (table_abs (heap s) (a # zs)) = messages (window ip msk (pending s))"
    and "drained (heap s) m2 a zs tp'"
    and "export_one a tmp head out s = Ok (s\<lparr>heap := m2, flush := Fl_iter (hd_opt zs) (hd_opt (tl zs))
      (hd_opt zs) (out @ [Producev topic_name (json_payload (stats_of (flow_at (heap s) a)))])\<rparr>)"
proof -
  obtain tp xs tp' ys where ok: "heap_ok (heap s) (tables (sctx s) ! nat (active_idx (sctx s))) tp xs head tp' ys"
    and abs: "table_abs (heap s) xs = window ip msk (current s)"
    and fl: "Some a = hd_opt ys" "tmp = hd_opt (tl ys)" "pending s \<noteq> []"
      "out @ messages (table_abs (heap s) ys) = messages (window ip msk (pending s))"
    using I pc by (auto simp: inv_def tables_ok_def flush_ok_def)
  obtain zs where ys: "ys = a # zs" using fl(1) by (cases ys) auto
  have "hash_rep (heap s) head tp' ys" using ok by (simp add: heap_ok_def)
  then have head: "head = hd_opt (a # zs)" using hash_rep_head ys by blast
  have rep': "hash_rep (heap s) (hd_opt (a # zs)) tp' (a # zs)" and wf: "mem_wf (heap s)"
    using ok ys head by (auto simp: heap_ok_def)
  obtain m2 where body: "drain_body (send_flow topic_name) a (head, out) (heap s) =
      Ok ((hd_opt zs, out @ [Producev topic_name (json_payload (stats_of (flow_at (heap s) a)))]), m2)"
    and dr: "drained (heap s) m2 a zs tp'"
    using drain_step [OF rep' wf send_flow_emits, of topic_name out] head by auto
  have rep2: "hash_rep m2 (hd_opt zs) (if zs = [] then None else tp') zs" using dr by (simp add: drained_def)
  have "export_one a tmp head out s = Ok (s\<lparr>heap := m2, flush := Fl_iter (hd_opt zs) (hd_opt (tl zs))
      (hd_opt zs) (out @ [Producev topic_name (json_payload (stats_of (flow_at (heap s) a)))])\<rparr>)"
    using next_or_null_rep [OF rep2] body fl(2) ys by (simp add: export_one_def)
  then show thesis using that ok abs fl(3,4) dr unfolding ys head by blast
qed

lemma inv_export_one:
  assumes I: "inv ip msk s" and pc: "flush s = Fl_iter (Some a) tmp head out"
  shows "good ip msk (export_one a tmp head out s)"
proof -
  obtain tp xs tp' zs m2 where
    ok: "heap_ok (heap s) (tables (sctx s) ! nat (active_idx (sctx s))) tp xs (hd_opt (a # zs)) tp' (a # zs)"
    and abs: "table_abs (heap s) xs = window ip msk (current s)" and p: "pending s \<noteq> []"
    and fl: "out @ messages (table_abs (heap s) (a # zs)) = messages (window ip msk (pending s))"
    and dr: "drained (heap s) m2 a zs tp'"
    and run: "export_one a tmp head out s = Ok (s\<lparr>heap := m2, flush := Fl_iter (hd_opt zs) (hd_opt (tl zs))
      (hd_opt zs) (out @ [Producev topic_name (json_payload (stats_of (flow_at (heap s) a)))])\<rparr>)"
    by (rule export_one_run [OF I pc])
  define out2 where "out2 = out @ [Producev topic_name (json_payload (stats_of (flow_at (heap s) a)))]"
  define s2 where "s2 = s\<lparr>heap := m2, flush := Fl_iter (hd_opt zs) (hd_opt (tl zs)) (hd_opt zs) out2\<rparr>"
  note h = heap_ok_drain [OF ok dr]
  have "messages (table_abs (heap s) (a # zs)) =
      Producev topic_name (json_payload (stats_of (flow_at (heap s) a))) # messages (table_abs (heap s) zs)"
    by (simp add: messages_def table_abs_def)
  then have "out2 @ messages (table_abs m2 zs) = messages (window ip msk (pending s))"
    using h fl by (simp add: out2_def)
  then have "tables_ok ip msk s2"
    unfolding tables_ok_def using h abs p
    by (intro exI [of _ tp] exI [of _ xs] exI [of _ "if zs = [] then None else tp'"] exI [of _ zs])
       (simp add: s2_def flush_ok_def)
  moreover have "mutex_ok s2" using I pc by (auto simp: inv_def mutex_ok_def s2_def)
  ultimately have "inv ip msk s2" using I unfolding inv_def by (auto simp: s2_def)
  then show ?thesis by (simp add: run s2_def out2_def)
qed

lemma inv_export_done:
  assumes I: "inv ip msk s" and pc: "flush s = Fl_iter None tmp head out"
  shows "inv ip msk (finish_window (out @ [Poll 0, Flush 500]) s)"
proof -
  obtain tp xs tp' ys where ok: "heap_ok (heap s) (tables (sctx s) ! nat (active_idx (sctx s))) tp xs head tp' ys"
    and fl: "None = hd_opt ys" "pending s \<noteq> []"
      "out @ messages (table_abs (heap s) ys) = messages (window ip msk (pending s))"
    using I pc by (auto simp: inv_def tables_ok_def flush_ok_def)
  have ys: "ys = []" using fl(1) by (metis hd_opt_simps(3))
  then have "head = None" using ok hash_rep_head by (auto simp: heap_ok_def)
  then show ?thesis
    using fl ys pc
    by (intro inv_finish_window [OF I]) (auto simp: export_calls_window table_abs_def messages_def)
qed

section \<open>Every step keeps the invariant\<close>

lemma inv_mutex:
  assumes "inv ip msk s"
  shows "mutex (sctx s) = None \<Longrightarrow>
      \<not> ((\<exists>st. capture s = Cap_critical st) \<or> capture s = Cap_unlock) \<and>
      \<not> (flush s = Fl_critical \<or> (\<exists>t. flush s = Fl_unlock t))"
    "capture s = Cap_unlock \<Longrightarrow> \<not> (flush s = Fl_critical \<or> (\<exists>t. flush s = Fl_unlock t))"
    "flush s = Fl_unlock t \<Longrightarrow> \<not> ((\<exists>st. capture s = Cap_critical st) \<or> capture s = Cap_unlock)"
  using assms by (auto simp: inv_def mutex_ok_def)

lemma inv_capture_control:
  assumes I: "inv ip msk s" and s': "s' = s\<lparr>capture := c, sctx := x\<rparr>"
    and x: "tables x = tables (sctx s)" "active_idx x = active_idx (sctx s)"
      "net_ip x = net_ip (sctx s)" "net_mask x = net_mask (sctx s)"
      "kafka_producer x = kafka_producer (sctx s)"
    and m: "mutex_ok s'"
  shows "inv ip msk s'"
proof (rule inv_control [OF I])
  show "flush_ok ip msk s' ys" if "flush_ok ip msk s ys" for ys
    using that flush_ok_same [of s' s ys] by (simp add: s')
qed (use m x in \<open>simp_all add: s'\<close>)

text \<open>The one fault a run can have: a capture that ends inside the link-layer header.\<close>

definition overrun :: "(u8 list \<Rightarrow> bool) \<Rightarrow> sys outcome \<Rightarrow> bool" where
  "overrun wire r \<longleftrightarrow> r = Fault OutOfBounds \<and> (\<exists>bytes. wire bytes \<and> too_short bytes)"

lemma overrun_Ok [simp]: "\<not> overrun wire (Ok s)"
  by (simp add: overrun_def)

lemma inv_step_on:
  assumes I: "inv ip msk s" and st: "step_on wire s r"
  shows "good ip msk r \<or> overrun wire r"
proof (cases "\<exists>h bytes. r = receive h bytes s \<and> captured h bytes \<and> wire bytes \<and> too_short bytes")
  case True
  then show ?thesis by (auto simp: overrun_def receive_def parse_packet_short)
next
  case False
  have "good ip msk r"
    using st
  proof cases
    case (cap_receive h bytes)
    then show ?thesis using inv_receive [OF I] False by blast
  next
    case (cap_lock st)
    let ?s = "set_mutex (Some Capture_thread) (s\<lparr>capture := Cap_critical st\<rparr>)"
    have "mutex_ok ?s" using inv_mutex(1) [OF I cap_lock(3)] by (auto simp: mutex_ok_def set_mutex_def)
    then have "inv ip msk ?s"
      by (intro inv_capture_control [OF I, where c = "Cap_critical st" and x = "(sctx s)\<lparr>mutex := Some Capture_thread\<rparr>"])
         (auto simp: set_mutex_def)
    then show ?thesis by (simp add: cap_lock)
  next
    case (cap_process st)
    then show ?thesis using inv_process [OF I] by simp
  next
    case cap_unlock
    let ?s = "set_mutex None (s\<lparr>capture := Cap_loop\<rparr>)"
    have "mutex_ok ?s" using inv_mutex(2) [OF I cap_unlock(2)] by (auto simp: mutex_ok_def set_mutex_def)
    then have "inv ip msk ?s"
      by (intro inv_capture_control [OF I, where c = Cap_loop and x = "(sctx s)\<lparr>mutex := None\<rparr>"])
         (auto simp: set_mutex_def)
    then show ?thesis by (simp add: cap_unlock)
  next
    case cap_stop
    let ?s = "s\<lparr>capture := Cap_stopped, sctx := (sctx s)\<lparr>is_running := 0\<rparr>\<rparr>"
    have "mutex_ok ?s" using I cap_stop by (auto simp: inv_def mutex_ok_def)
    then have "inv ip msk ?s"
      by (intro inv_capture_control [OF I, where c = Cap_stopped and x = "(sctx s)\<lparr>is_running := 0\<rparr>"]) auto
    then show ?thesis by (simp add: cap_stop)
  next
    case fl_test
    have "inv ip msk (s\<lparr>flush := fl\<rparr>)" if "fl \<in> {Fl_lock, Fl_exit}" for fl
      by (rule inv_control [OF I])
         (use that fl_test I in \<open>auto simp: flush_ok_def inv_def mutex_ok_def\<close>)
    then show ?thesis by (simp add: fl_test)
  next
    case fl_lock
    let ?s = "set_mutex (Some Flush_thread) (s\<lparr>flush := Fl_critical\<rparr>)"
    have "mutex_ok ?s" using inv_mutex(1) [OF I fl_lock(3)] by (auto simp: mutex_ok_def set_mutex_def)
    then have "inv ip msk ?s"
      using fl_lock by (intro inv_control [OF I]) (auto simp: set_mutex_def flush_ok_def)
    then show ?thesis by (simp add: fl_lock)
  next
    case fl_swap
    then show ?thesis using inv_swap [OF I] by simp
  next
    case (fl_unlock t)
    let ?s = "set_mutex None (s\<lparr>flush := Fl_export t\<rparr>)"
    have "mutex_ok ?s" using inv_mutex(3) [OF I fl_unlock(2)] by (auto simp: mutex_ok_def set_mutex_def)
    then have "inv ip msk ?s"
      using fl_unlock by (intro inv_control [OF I]) (auto simp: set_mutex_def flush_ok_def)
    then show ?thesis by (simp add: fl_unlock)
  next
    case (fl_export t)
    then show ?thesis using inv_start_export [OF I] by simp
  next
    case (fl_iter a tmp head out)
    then show ?thesis using inv_export_one [OF I] by simp
  next
    case (fl_done tmp head out)
    then show ?thesis using inv_export_done [OF I] by simp
  next
    case fl_sleep
    have "inv ip msk (s\<lparr>flush := Fl_test\<rparr>)"
      by (rule inv_control [OF I]) (use fl_sleep I in \<open>auto simp: flush_ok_def inv_def mutex_ok_def\<close>)
    then show ?thesis by (simp add: fl_sleep)
  qed
  then show ?thesis ..
qed

lemma inv_step: "inv ip msk s \<Longrightarrow> step_on wire s (Ok s') \<Longrightarrow> inv ip msk s'"
  using inv_step_on by fastforce

lemma reachable_good:
  assumes "reachable_on wire s0 r" and "inv ip msk s0"
  shows "good ip msk r \<or> overrun wire r"
  using assms
proof (induction rule: reachable_on.induct)
  case reach_start
  then show ?case by simp
next
  case (reach_step s r)
  then show ?case using inv_step_on by simp
qed

section \<open>Progress\<close>

lemma step_exists:
  assumes I: "inv ip msk s" and "\<not> (capture s = Cap_stopped \<and> flush s = Fl_exit)"
  shows "\<exists>r. step s r"
proof (cases "capture s = Cap_loop \<or> (\<exists>st. capture s = Cap_critical st) \<or> capture s = Cap_unlock")
  case True
  then show ?thesis using step_on.cap_process step_on.cap_unlock step_on.cap_stop by blast
next
  case cap: False
  show ?thesis
  proof (cases "flush s = Fl_lock \<or> flush s = Fl_exit")
    case False
    show ?thesis
    proof (cases "flush s")
      case Fl_test
      then show ?thesis using step_on.fl_test by blast
    next
      case Fl_critical
      then show ?thesis using step_on.fl_swap by blast
    next
      case (Fl_unlock t)
      then show ?thesis using step_on.fl_unlock by blast
    next
      case (Fl_export t)
      then show ?thesis using step_on.fl_export by blast
    next
      case (Fl_iter el tmp head out)
      then show ?thesis using step_on.fl_iter step_on.fl_done by (cases el) blast+
    next
      case Fl_sleep
      then show ?thesis using step_on.fl_sleep by blast
    qed (use False in simp_all)
  next
    case fl: True
    have "mutex (sctx s) \<noteq> Some Capture_thread" "mutex (sctx s) \<noteq> Some Flush_thread"
      using I cap fl by (auto simp: inv_def mutex_ok_def)
    then have m: "mutex (sctx s) = None" by (metis option.exhaust thread.exhaust)
    show ?thesis
    proof (cases "flush s = Fl_lock")
      case True
      then show ?thesis using step_on.fl_lock m by blast
    next
      case False
      then have "capture s \<noteq> Cap_stopped" using fl assms(2) by blast
      then obtain st where "capture s = Cap_lock st" using cap by (cases "capture s") auto
      then show ?thesis using step_on.cap_lock m by blast
    qed
  qed
qed

end
