(* ===== verification/Sniffer_Props.thy ===== *)
theory Sniffer_Props
  imports Sniffer_Inv
begin

text \<open>
  What the invariant gives for the runs of the sniffer: no faults on whole headers, faithful export, mutual
  exclusion and progress.
\<close>

section \<open>Properties\<close>

text \<open>The program starts with an empty heap and a producer.\<close>

definition heap_empty :: "mem \<Rightarrow> bool" where
  "heap_empty m \<longleftrightarrow> mem_wf m \<and> (\<forall>a. \<not> valid m a) \<and> (\<forall>t. \<not> tvalid m t)"

lemma reachable_inv_on:
  assumes "heap_empty m" and "rk \<noteq> None" and "reachable_on wire (main_init ip msk rk m) r"
  shows "good ip msk r \<or> overrun wire r"
  using assms by (intro reachable_good [OF assms(3)] inv_init) (simp_all add: heap_empty_def)

lemma reachable_inv:
  assumes "heap_empty m" and "rk \<noteq> None" and "reachable (main_init ip msk rk m) (Ok s)"
  shows "inv ip msk s"
  using reachable_inv_on [OF assms] by simp

lemma heap_empty_mem: "heap_empty empty_mem"
  by (simp add: heap_empty_def empty_mem_facts)



text \<open>
  C2: the double buffer loses and duplicates nothing while the sniffer runs: the packets
  accepted so far are, in order, those of the exported windows, of the window being exported and
  of the current window; and the messages handed to Kafka are exactly the flow records of the
  exported windows, window by window, each record in order of first appearance.
\<close>

theorem export_is_faithful:
  assumes "heap_empty m" and "rk \<noteq> None" and "reachable (main_init ip msk rk m) (Ok s)"
  shows "accepted s = concat (windows s) @ pending s @ current s \<and>
    calls s = concat (map (\<lambda>w. if w = [] then []
      else map (\<lambda>k. Producev topic_name (json_payload (aggregate ip msk w k))) (first_keys w) @
        [Poll 0, Flush 500]) (windows s))"
proof -
  have "export_calls ip msk = (\<lambda>w. if w = [] then []
      else map (\<lambda>k. Producev topic_name (json_payload (aggregate ip msk w k))) (first_keys w) @
        [Poll 0, Flush 500])"
    by (simp add: export_calls_def messages_def window_group_by fun_eq_iff)
  then show ?thesis using reachable_inv [OF assms] by (simp add: inv_def)
qed

theorem export_is_faithful_witness:
  "accepted (main_init 0x0A 0xFF (Some 0) empty_mem) = []"
  using export_is_faithful [OF heap_empty_mem _ reach_start, of "Some 0" "0x0A" "0xFF"]
  by (simp add: main_init_def)

text \<open>
  C17: mutual exclusion: the capture thread is never inside \<open>flow_process_packet\<close> while the flush
  thread swaps the tables, and the mutex is held exactly by the thread inside.
\<close>

theorem critical_sections_exclude:
  assumes "heap_empty m" and "rk \<noteq> None" and "reachable (main_init ip msk rk m) (Ok s)"
  shows "\<not> ((\<exists>st. capture s = Cap_critical st) \<and> flush s = Fl_critical) \<and>
    (mutex (sctx s) = None \<longleftrightarrow>
       \<not> ((\<exists>st. capture s = Cap_critical st) \<or> capture s = Cap_unlock) \<and>
       \<not> (flush s = Fl_critical \<or> (\<exists>t. flush s = Fl_unlock t)))"
proof -
  have I: "inv ip msk s" using reachable_inv [OF assms] by simp
  then have "mutex_ok s" by (simp add: inv_def)
  then show ?thesis unfolding mutex_ok_def by (metis option.exhaust option.inject option.distinct(1) thread.exhaust thread.distinct(1))
qed

theorem critical_sections_exclude_witness:
  "mutex (sctx (main_init 0x0A 0xFF (Some 0) empty_mem)) = None"
  using critical_sections_exclude [OF heap_empty_mem _ reach_start, of "Some 0" "0x0A" "0xFF"]
  by (simp add: main_init_def)

text \<open>
  C21: the threads never deadlock: in every reachable state a step is possible, unless both
  threads have ended.
\<close>

theorem sniffer_progress:
  assumes "heap_empty m" and "rk \<noteq> None" and "reachable (main_init ip msk rk m) (Ok s)"
    and "\<not> (capture s = Cap_stopped \<and> flush s = Fl_exit)"
  shows "\<exists>r. step s r"
  by (rule step_exists [OF _ assms(4)]) (use reachable_inv [OF assms(1-3)] in simp)

theorem sniffer_progress_witness:
  "\<exists>r. step (main_init 0x0A 0xFF (Some 0) empty_mem) r"
  by (rule sniffer_progress [OF heap_empty_mem _ reach_start]) (simp_all add: main_init_def)

text \<open>
  C16: no memory leaks and no sharing: in every reachable state the nodes on the heap are
  exactly those of the active table and of the table being exported, the two have no node and no
  table object in common, and their records are those of the current window and of the
  part of the previous window not yet sent.
\<close>

theorem heap_holds_the_two_tables:
  assumes "heap_empty m" and "rk \<noteq> None" and "reachable (main_init ip msk rk m) (Ok s)"
  shows "\<exists>tp xs tp' ys.
    hash_rep (heap s) (tables (sctx s) ! nat (active_idx (sctx s))) tp xs \<and>
    hash_rep (heap s) (held_table (flush s)) tp' ys \<and>
    set xs \<inter> set ys = {} \<and> (\<forall>a. valid (heap s) a \<longleftrightarrow> a \<in> set xs \<union> set ys) \<and>
    (tp = None \<or> tp \<noteq> tp') \<and> (\<forall>t. tvalid (heap s) t \<longleftrightarrow> tp = Some t \<or> tp' = Some t) \<and>
    table_abs (heap s) xs = window ip msk (current s)"
proof -
  have "tables_ok ip msk s" using reachable_inv [OF assms] by (simp add: inv_def)
  then show ?thesis unfolding tables_ok_def heap_ok_def by blast
qed

theorem heap_holds_the_two_tables_witness:
  "\<exists>tp xs. hash_rep empty_mem None tp xs \<and> table_abs empty_mem xs = window 0x0A 0xFF []"
  using heap_holds_the_two_tables [OF heap_empty_mem _ reach_start, of "Some 0" "0x0A" "0xFF"]
  by (auto simp: main_init_def)

end
