(* ===== verification/Main_Program.thy ===== *)
theory Main_Program
  imports Sniffer_Props
begin

text \<open>
  main.c outside the two threads: \<open>main\<close>, \<open>setup_pcap\<close>, \<open>list_devs\<close> and \<open>handle_sigint\<close>.
  A function returns its result and the calls it makes, in order; what the operating system
  and the libraries answer is the record \<open>host\<close>.  Theory Main_Resources checks the calls against the rules of the
  resources they create and give up.
\<close>

section \<open>Calls and answers\<close>

text \<open>
  \<open>Log\<close> is a line on the standard error output (those of kafka_client.c are left out), \<open>Set_handle\<close> and \<open>Set_running\<close> are the assignments to
  \<open>global_pcap_handle\<close> and to \<open>ctx.is_running\<close>.
\<close>

datatype event =
  Log | Stdout string | Kafka kafka_call | Wait_destroyed int
| Findalldevs | Freealldevs
| Lookupnet string | Pcap_init | Pcap_create string | Pcap_set_snaplen addr int
| Pcap_set_promisc addr int | Pcap_set_immediate_mode addr int | Pcap_set_timeout addr int
| Pcap_set_buffer_size addr int | Pcap_activate addr | Pcap_geterr addr | Pcap_datalink addr | Pcap_close addr
| Pcap_loop addr | Pcap_stats addr | Pcap_breakloop addr
| Mutex_init | Mutex_destroy | Thread_create sniffer_context | Thread_join
| Signal_sigint | Set_handle ptr | Set_running int

text \<open>\<open>struct pcap_stat\<close>, as far as it is printed.\<close>

record pcap_stat =
  ps_recv :: u32
  ps_drop :: u32
  ps_ifdrop :: u32

record host =
  findalldevs :: "int \<times> string list"
  lookupnet :: "string \<Rightarrow> int \<times> u32 \<times> u32"
  conf_set_ok :: "string \<Rightarrow> string \<Rightarrow> bool"
  new_producer :: ptr
  thread_create :: int
  init_ret :: int
  create_ret :: "string \<Rightarrow> ptr"
  set_snaplen_ret :: int
  set_promisc_ret :: int
  set_immediate_ret :: int
  set_timeout_ret :: int
  set_buffer_ret :: int
  activate_ret :: int
  datalink_ret :: int
  stats_ret :: "int \<times> pcap_stat"

definition PCAP_ERROR :: int where "PCAP_ERROR = -1"
definition DLT_EN10MB :: int where "DLT_EN10MB = 1"
definition EXIT_SUCCESS :: int where "EXIT_SUCCESS = 0"
definition CAPLEN :: int where "CAPLEN = 128"
definition CAPBUFFER_SIZE :: int where "CAPBUFFER_SIZE = 32000000"

text \<open>The \<open>%d\<close> conversion of an unsigned argument: its bits are read as an \<open>int\<close>.\<close>

definition fmt_d :: "u32 \<Rightarrow> string" where
  "fmt_d w = (if sint w < 0 then CHR ''-'' # dec (nat (- sint w)) else dec (nat (sint w)))"

section \<open>list_devs and handle_sigint\<close>

definition newline :: string where "newline = [CHR 0x0A]"

text \<open>The non-ASCII letter of the message is its two UTF-8 bytes.\<close>

definition list_devs :: "host \<Rightarrow> event list" where
  "list_devs os =
     (case findalldevs os of (r, devs) \<Rightarrow>
        if r = PCAP_ERROR then [Findalldevs, Log]
        else [Findalldevs, Stdout (''Interfaces disponiveis:'' @ newline)] @
          (if devs = []
           then [Stdout (''Nenhuma interface dispon'' @ [CHR 0xC3, CHR 0xAD] @ ''vel'' @ newline)] else []) @
          map (\<lambda>d. Stdout (d @ newline)) devs @ [Freealldevs])"

text \<open>\<open>handle_sigint\<close> reads \<open>global_pcap_handle\<close>.\<close>

definition handle_sigint :: "ptr \<Rightarrow> event list" where
  "handle_sigint global_pcap_handle =
     Log # (case global_pcap_handle of None \<Rightarrow> [] | Some p \<Rightarrow> [Pcap_breakloop p])"

section \<open>setup_pcap\<close>

text \<open>A sequence of calls that stops at the first one that does not answer 0.\<close>

fun try_calls :: "(event \<times> int) list \<Rightarrow> bool \<times> event list" where
  "try_calls [] = (True, [])"
| "try_calls ((e, err) # cs) =
     (if err \<noteq> 0 then (False, [e]) else (case try_calls cs of (ok, es) \<Rightarrow> (ok, e # es)))"

definition pcap_options :: "host \<Rightarrow> addr \<Rightarrow> (event \<times> int) list" where
  "pcap_options os p =
     [(Pcap_set_snaplen p CAPLEN, set_snaplen_ret os), (Pcap_set_promisc p 1, set_promisc_ret os),
      (Pcap_set_immediate_mode p 0, set_immediate_ret os), (Pcap_set_timeout p 10, set_timeout_ret os),
      (Pcap_set_buffer_size p CAPBUFFER_SIZE, set_buffer_ret os)]"

definition setup_pcap :: "host \<Rightarrow> string \<Rightarrow> ptr \<times> event list" where
  "setup_pcap os iface =
     (case create_ret os iface of
        None \<Rightarrow> (None, [Pcap_create iface, Log])
      | Some p \<Rightarrow>
          (case try_calls (pcap_options os p) of (ok, es) \<Rightarrow>
             let es = Pcap_create iface # es in
             if \<not> ok then (None, es @ [Pcap_close p])
             else
               let err = activate_ret os; es = es @ [Pcap_activate p] in
               if err < 0 then (None, es @ [Pcap_geterr p, Log, Pcap_close p])
               else
                 let es = es @ (if err > 0 then [Pcap_geterr p, Log] else []) @ [Pcap_datalink p] in
                 if datalink_ret os \<noteq> DLT_EN10MB then (None, es @ [Log, Pcap_close p])
                 else (Some p, es)))"

section \<open>main\<close>

definition brokers :: string where
  "brokers = ''localhost:9092,localhost:9094,localhost:9096''"

definition err_kafka :: "ptr \<Rightarrow> event list" where
  "err_kafka rk = Mutex_destroy # map Kafka (kafka_client_cleanup rk)"

definition err_thread :: "ptr \<Rightarrow> event list" where
  "err_thread rk = [Set_running 0, Thread_join] @ err_kafka rk"

text \<open>The report printed when the capture has ended.\<close>

definition print_stats :: "pcap_stat \<Rightarrow> event list" where
  "print_stats st =
     [Stdout (newline @ ''=== ESTAT'' @ [CHR 0xC3, CHR 0x8D] @ ''STICAS DA CAPTURA ==='' @ newline),
      Stdout (''Pacotes recebidos pelo filtro: '' @ fmt_d (ps_recv st) @ newline),
      Stdout (''Pacotes dropados pelo kernel:  '' @ fmt_d (ps_drop st) @ newline),
      Stdout (''Pacotes dropados pela placa:   '' @ fmt_d (ps_ifdrop st) @ newline),
      Stdout (''==============================='' @ newline)]"

text \<open>From the end of \<open>pcap_loop\<close> to the \<open>return\<close> of the successful path.\<close>

definition finish :: "host \<Rightarrow> addr \<Rightarrow> ptr \<Rightarrow> event list" where
  "finish os p rk =
     Pcap_stats p #
     (case stats_ret os of (r, st) \<Rightarrow> if r \<ge> 0 then print_stats st else []) @
     [Log, Set_running 0, Thread_join, Mutex_destroy, Pcap_close p] @
     map Kafka (kafka_client_cleanup rk) @ [Wait_destroyed 5000, Log]"

text \<open>From the libpcap set-up on, with both the producer and the flush thread running.\<close>

definition capture_phase :: "host \<Rightarrow> string \<Rightarrow> ptr \<Rightarrow> int \<times> event list" where
  "capture_phase os iface rk =
     (if init_ret os = PCAP_ERROR then (EXIT_FAILURE, [Pcap_init, Log] @ err_thread rk)
      else
        case setup_pcap os iface of (global, es) \<Rightarrow>
          let es = Pcap_init # es @ [Set_handle global] in
          (case global of
             None \<Rightarrow> (EXIT_FAILURE, es @ err_thread rk)
           | Some p \<Rightarrow>
               (EXIT_SUCCESS, es @ [Signal_sigint,
                  Stdout (''Captura iniciada: monitorando a interface '' @ iface @ newline),
                  Pcap_loop p] @ finish os p rk)))"

definition main :: "host \<Rightarrow> string list \<Rightarrow> int \<times> event list" where
  "main os argv =
     (if length argv < 2 then (EXIT_FAILURE, Log # list_devs os)
      else
        let iface = argv ! 1 in
        case lookupnet os iface of (r, ip, msk) \<Rightarrow>
        let (nip, nmask) = (if r = -1 then (0, 0) else (ip, msk));
            es = Lookupnet iface # (if r = -1 then [Log] else []) in
        case kafka_client_init (conf_set_ok os) (new_producer os) brokers of (rk, ks) \<Rightarrow>
        let es = es @ map Kafka ks in
        if rk = None then (EXIT_FAILURE, es)
        else
          let ctx = \<lparr>tables = [None, None], active_idx = 0, mutex = None, net_ip = nip,
                net_mask = nmask, is_running = 1, kafka_producer = rk\<rparr>;
              es = es @ [Set_running 1, Mutex_init, Thread_create ctx] in
          if thread_create os \<noteq> 0 then (EXIT_FAILURE, es @ [Log] @ err_kafka rk)
          else (case capture_phase os iface rk of (code, es2) \<Rightarrow> (code, es @ es2)))"

section \<open>The capture length\<close>

lemma load_take:
  "i < n \<Longrightarrow> load_u8 (take n bs) i = load_u8 bs i"
  "i + 1 < n \<Longrightarrow> load_u16 (take n bs) i = load_u16 bs i"
  "i + 3 < n \<Longrightarrow> load_u32 (take n bs) i = load_u32 bs i"
  by (simp_all add: load_u8_def load_u16_def load_u32_def)

lemma parse_ether_offset:
  "parse_ether bs = Ok (Some offset) \<Longrightarrow> offset = 14 \<or> offset = 18"
  by (auto simp: parse_ether_def Let_def sizeof_ether_header_def seq_eq_Ok_iff split: if_splits prod.splits)

lemma parse_ether_take: "parse_ether (take 128 bs) = parse_ether bs"
  by (simp add: parse_ether_def load_take sizeof_ether_header_def Let_def cong: if_cong)

lemma parse_transport_take:
  assumes "offset \<le> 18" "hl \<le> 60" "128 \<le> unat c" "128 \<le> unat c'"
  shows "parse_transport (h\<lparr>caplen := c\<rparr>) (take 128 bs) offset hl tot st =
    parse_transport (h\<lparr>caplen := c'\<rparr>) bs offset hl tot st"
  using assms by (simp add: parse_transport_def load_take sizeof_tcphdr_def sizeof_udphdr_def Let_def cong: if_cong)

text \<open>
  C25: the snapshot length the capture is opened with loses nothing the parser looks at:
  the first \<open>CAPLEN\<close> bytes of a frame give the same statistics as the whole frame would.
\<close>

theorem capture_length_suffices:
  assumes "length bytes < 2 ^ 32"
  shows "parse_packet (h\<lparr>caplen := of_nat (min (nat CAPLEN) (length bytes))\<rparr>) (take (nat CAPLEN) bytes) =
    parse_packet (h\<lparr>caplen := of_nat (length bytes)\<rparr>) bytes"
proof (cases "length bytes \<le> 128")
  case True
  then show ?thesis by (simp add: CAPLEN_def)
next
  case False
  let ?h = "h\<lparr>caplen := 128\<rparr>" and ?h' = "h\<lparr>caplen := of_nat (length bytes)\<rparr>"
  have cap: "128 \<le> unat (of_nat (length bytes) :: u32)"
    using False assms by (simp add: unat_of_nat)
  have hl: "unat (v AND 0x0F) * 4 \<le> 60" for v :: u8
  proof -
    have "v AND 0x0F \<le> 0x0F" by (rule word_and_le1)
    then have "unat (v AND 0x0F) \<le> 15" by (simp add: word_le_nat_alt)
    then show ?thesis by simp
  qed
  have "parse_packet ?h (take 128 bytes) = parse_packet ?h' bytes"
    unfolding parse_packet_def parse_ether_take
  proof (rule seq_cong [OF refl], goal_cases)
    case (1 r)
    show ?case
    proof (cases r)
      case (Some offset)
      then have "offset \<le> 18" using 1 parse_ether_offset by fastforce
      then show ?thesis
        using cap hl by (simp add: Some load_take sizeof_ip_def Let_def parse_transport_take [of _ _ 128] cong: if_cong)
    qed simp
  qed
  then show ?thesis using False by (simp add: CAPLEN_def)
qed

theorem capture_length_suffices_witness:
  "parse_packet (example_hdr\<lparr>caplen := 128\<rparr>) (take 128 (example_frame @ replicate 200 0)) =
   parse_packet (example_hdr\<lparr>caplen := of_nat (length (example_frame @ replicate 200 0))\<rparr>) (example_frame @ replicate 200 0)"
  using capture_length_suffices [of "example_frame @ replicate 200 0" example_hdr]
  by (simp add: example_frame_def CAPLEN_def)

end
