(* ===== verification/Main_Resources.thy ===== *)
theory Main_Resources
  imports Main_Program
begin

text \<open>
  The calls \<open>main\<close> makes, checked against the rules of the resources they create and give up:
  nothing leaks and nothing is used after its release on any path; the signal handler is within
  the rules until the handle is closed; and the flush thread starts in the initial state of
  theory Sniffer.
\<close>

section \<open>The rules of the resources\<close>

datatype resource = Devs | Conf | Producer | Mutex | Thread | Pcap addr

text \<open>
  The resources held, and the two variables that other threads and the signal handler read.
  \<open>Fl_running\<close> of a flush thread that is never told to stop would make \<open>pthread_join\<close>
  wait for ever, so joining asks for \<open>is_running\<close> to be 0.
\<close>

record ledger =
  held :: "resource set"
  running :: int
  handle :: ptr

definition acquire :: "resource \<Rightarrow> ledger \<Rightarrow> ledger option" where
  "acquire r l = (if r \<in> held l then None else Some (l\<lparr>held := insert r (held l)\<rparr>))"

definition release :: "resource \<Rightarrow> ledger \<Rightarrow> ledger option" where
  "release r l = (if r \<in> held l then Some (l\<lparr>held := held l - {r}\<rparr>) else None)"

definition need :: "resource \<Rightarrow> ledger \<Rightarrow> ledger option" where
  "need r l = (if r \<in> held l then Some l else None)"

definition unless_thread :: "(ledger \<Rightarrow> ledger option) \<Rightarrow> ledger \<Rightarrow> ledger option" where
  "unless_thread g l = (if Thread \<in> held l then None else g l)"

text \<open>
  One call.  \<open>rd_kafka_new\<close> consumes the configuration when it makes a producer.  The flush
  thread uses the mutex and the producer, so both must exist when it is created and it must
  have been joined when they are destroyed.
\<close>

fun kafka_rule :: "host \<Rightarrow> kafka_call \<Rightarrow> ledger \<Rightarrow> ledger option" where
  "kafka_rule os Conf_new = acquire Conf"
| "kafka_rule os (Conf_set k v) = need Conf"
| "kafka_rule os Conf_set_dr_msg_cb = need Conf"
| "kafka_rule os Conf_destroy = release Conf"
| "kafka_rule os Producer_new = (\<lambda>l. if new_producer os = None then need Conf l
     else Option.bind (release Conf l) (acquire Producer))"
| "kafka_rule os (Producev t v) = need Producer"
| "kafka_rule os (Poll t) = need Producer"
| "kafka_rule os (Flush t) = need Producer"
| "kafka_rule os Destroy = unless_thread (release Producer)"

fun rule_of :: "host \<Rightarrow> event \<Rightarrow> ledger \<Rightarrow> ledger option" where
  "rule_of os (Kafka c) = kafka_rule os c"
| "rule_of os Findalldevs = (\<lambda>l. if fst (findalldevs os) = PCAP_ERROR then Some l else acquire Devs l)"
| "rule_of os Freealldevs = release Devs"
| "rule_of os (Pcap_create i) = (\<lambda>l. case create_ret os i of None \<Rightarrow> Some l | Some p \<Rightarrow> acquire (Pcap p) l)"
| "rule_of os (Pcap_set_snaplen p v) = need (Pcap p)"
| "rule_of os (Pcap_set_promisc p v) = need (Pcap p)"
| "rule_of os (Pcap_set_immediate_mode p v) = need (Pcap p)"
| "rule_of os (Pcap_set_timeout p v) = need (Pcap p)"
| "rule_of os (Pcap_set_buffer_size p v) = need (Pcap p)"
| "rule_of os (Pcap_activate p) = need (Pcap p)"
| "rule_of os (Pcap_geterr p) = need (Pcap p)"
| "rule_of os (Pcap_datalink p) = need (Pcap p)"
| "rule_of os (Pcap_loop p) = need (Pcap p)"
| "rule_of os (Pcap_stats p) = need (Pcap p)"
| "rule_of os (Pcap_breakloop p) = need (Pcap p)"
| "rule_of os (Pcap_close p) = release (Pcap p)"
| "rule_of os Mutex_init = acquire Mutex"
| "rule_of os Mutex_destroy = unless_thread (release Mutex)"
| "rule_of os (Thread_create c) = (\<lambda>l. if thread_create os \<noteq> 0 then Some l
     else Option.bind (need Mutex l) (\<lambda>l. Option.bind (need Producer l) (acquire Thread)))"
| "rule_of os Thread_join = (\<lambda>l. if running l = 0 then release Thread l else None)"
| "rule_of os (Set_handle p) = (\<lambda>l. Some (l\<lparr>handle := p\<rparr>))"
| "rule_of os (Set_running r) = (\<lambda>l. Some (l\<lparr>running := r\<rparr>))"
| "rule_of os e = Some"

fun play :: "host \<Rightarrow> event list \<Rightarrow> ledger \<Rightarrow> ledger option" where
  "play os [] l = Some l"
| "play os (e # es) l = Option.bind (rule_of os e l) (play os es)"

text \<open>Static storage: no handle and nothing held.\<close>

definition start_ledger :: ledger where
  "start_ledger = \<lparr>held = {}, running = 0, handle = None\<rparr>"

named_theorems ledger_simps \<open>evaluation of the resource rules\<close>

lemmas [ledger_simps] = acquire_def release_def need_def unless_thread_def

lemma play_append: "play os (xs @ ys) l = Option.bind (play os xs l) (play os ys)"
proof (induction xs arbitrary: l)
  case (Cons e xs)
  then show ?case by (cases "rule_of os e l") simp_all
qed simp

lemma play_Stdout: "list_all (\<lambda>e. \<exists>s. e = Stdout s) es \<Longrightarrow> play os es l = Some l"
  by (induction es) auto

lemma play_list_devs: "Devs \<notin> held l \<Longrightarrow> play os (list_devs os) l = Some l"
  by (auto simp: list_devs_def play_append play_Stdout list_all_iff ledger_simps split: prod.split)

lemma play_options:
  "Pcap p \<in> held l \<Longrightarrow> play os (snd (try_calls (pcap_options os p))) l = Some l"
  by (simp add: pcap_options_def ledger_simps)

lemma play_setup:
  assumes "\<And>p. Pcap p \<notin> held l"
  shows "play os (snd (setup_pcap os i)) l =
    Some (case fst (setup_pcap os i) of None \<Rightarrow> l | Some p \<Rightarrow> l\<lparr>held := insert (Pcap p) (held l)\<rparr>)"
proof (cases "create_ret os i")
  case None
  then show ?thesis by (simp add: setup_pcap_def)
next
  case (Some p)
  obtain ok cs where tc: "try_calls (pcap_options os p) = (ok, cs)" by fastforce
  have cs: "play os cs l' = Some l'" if "Pcap p \<in> held l'" for l'
    using play_options [OF that, of os] by (simp add: tc)
  show ?thesis
    using assms [of p]
    by (simp add: setup_pcap_def Some tc Let_def cs play_append ledger_simps Diff_insert_absorb)
qed

lemma play_cleanup:
  "Producer \<in> held l \<Longrightarrow> Thread \<notin> held l \<Longrightarrow> rk \<noteq> None \<Longrightarrow>
   play os (map Kafka (kafka_client_cleanup rk)) l = Some (l\<lparr>held := held l - {Producer}\<rparr>)"
  by (simp add: kafka_client_cleanup_def ledger_simps)

lemma play_err_kafka:
  "Producer \<in> held l \<Longrightarrow> Mutex \<in> held l \<Longrightarrow> Thread \<notin> held l \<Longrightarrow> rk \<noteq> None \<Longrightarrow>
   play os (err_kafka rk) l = Some (l\<lparr>held := held l - {Mutex} - {Producer}\<rparr>)"
  by (simp add: err_kafka_def play_cleanup ledger_simps)

lemma play_err_thread:
  "held l = {Producer, Mutex, Thread} \<Longrightarrow> rk \<noteq> None \<Longrightarrow>
   play os (err_thread rk) l = Some (l\<lparr>running := 0, held := {}\<rparr>)"
  by (simp add: err_thread_def play_err_kafka ledger_simps insert_Diff_if)

lemma play_print_stats [simp]: "play os (print_stats st) l = Some l"
  by (simp add: print_stats_def)

lemma play_finish:
  "held l = {Pcap p, Producer, Mutex, Thread} \<Longrightarrow> rk \<noteq> None \<Longrightarrow>
   play os (finish os p rk) l = Some (l\<lparr>running := 0, held := {}\<rparr>)"
  by (simp add: finish_def play_append play_cleanup ledger_simps insert_Diff_if split: prod.split)

lemma play_capture_phase:
  assumes "held l = {Producer, Mutex, Thread}" "rk \<noteq> None"
  shows "\<exists>l'. play os (snd (capture_phase os i rk)) l = Some l' \<and> held l' = {}"
proof -
  obtain g es where st: "setup_pcap os i = (g, es)" by fastforce
  have es: "play os es l = Some (case g of None \<Rightarrow> l | Some p \<Rightarrow> l\<lparr>held := insert (Pcap p) (held l)\<rparr>)"
    using play_setup [of l os i] assms by (simp add: st)
  show ?thesis
    using assms es
    by (cases g) (simp_all add: capture_phase_def st Let_def play_append play_err_thread play_finish ledger_simps)
qed

lemma play_init:
  assumes "kafka_client_init (conf_set_ok os) (new_producer os) b = (rk, ks)"
    and "Conf \<notin> held l" and "Producer \<notin> held l"
  shows "play os (map Kafka ks) l =
    Some (if rk = None then l else l\<lparr>held := insert Producer (held l)\<rparr>)"
  using assms
  by (auto simp: kafka_client_init_def Let_def ledger_simps insert_Diff_if split: option.splits if_splits)

section \<open>Properties\<close>

text \<open>
  C8: whatever the libraries answer, \<open>main\<close> follows the rules of every resource: the
  device list, the Kafka configuration and producer, the mutex, the flush thread and the
  capture handle are used only while they exist, the thread is told to stop before it is joined and
  is joined before the mutex and the producer go, nothing is released twice, and nothing is
  held when \<open>main\<close> returns, on the successful and on every failing path.
\<close>

theorem main_gives_back_everything:
  "\<exists>l. play os (snd (main os argv)) start_ledger = Some l \<and> held l = {}"
proof (cases "length argv < 2")
  case True
  then show ?thesis by (simp add: main_def start_ledger_def play_list_devs)
next
  case False
  obtain r ip msk where ln: "lookupnet os (argv ! 1) = (r, ip, msk)" by (metis prod_cases3)
  obtain rk ks where ki: "kafka_client_init (conf_set_ok os) (new_producer os) brokers = (rk, ks)"
    by fastforce
  obtain code es where cp: "capture_phase os (argv ! 1) rk = (code, es)" by fastforce
  have es: "\<exists>l'. play os es l = Some l' \<and> held l' = {}"
    if "held l = {Producer, Mutex, Thread}" "rk \<noteq> None" for l
    using play_capture_phase [OF that, of os "argv ! 1"] by (simp add: cp del: One_nat_def)
  have ks: "play os (map Kafka ks) start_ledger =
      Some (if rk = None then start_ledger else start_ledger\<lparr>held := {Producer}\<rparr>)"
    using play_init [OF ki, of start_ledger] by (simp add: start_ledger_def)
  show ?thesis
  proof (cases "rk = None")
    case True
    then show ?thesis using False ln ki ks
      by (simp add: main_def Let_def play_append start_ledger_def split: prod.split)
  next
    case rk: False
    let ?l = "start_ledger\<lparr>held := {Mutex, Producer}, running := 1\<rparr>"
    obtain l2 where l2: "play os es (?l\<lparr>held := {Producer, Mutex, Thread}\<rparr>) = Some l2" "held l2 = {}"
      using es [of "?l\<lparr>held := {Producer, Mutex, Thread}\<rparr>"] rk by auto
    show ?thesis
    proof (cases "thread_create os = 0")
      case True
      then show ?thesis using False ln ki ks rk cp l2
        by (auto simp: main_def Let_def play_append ledger_simps insert_commute split: prod.split)
    next
      case tc: False
      show ?thesis using False ln ki ks rk tc
        by (auto simp: main_def Let_def play_append ledger_simps play_err_kafka insert_Diff_if split: prod.split)
    qed
  qed
qed

text \<open>Every option of the capture handle is accepted.\<close>

definition options_ok :: "host \<Rightarrow> bool" where
  "options_ok os \<longleftrightarrow> set_snaplen_ret os = 0 \<and> set_promisc_ret os = 0 \<and> set_immediate_ret os = 0 \<and>
     set_timeout_ret os = 0 \<and> set_buffer_ret os = 0"

lemma try_options: "fst (try_calls (pcap_options os p)) = options_ok os"
  "Pcap_loop q \<notin> set (snd (try_calls (pcap_options os p)))"
  by (simp_all add: pcap_options_def options_ok_def)

lemma fst_setup:
  "fst (setup_pcap os i) =
     (if options_ok os \<and> 0 \<le> activate_ret os \<and> datalink_ret os = DLT_EN10MB then create_ret os i else None)"
proof (cases "create_ret os i")
  case (Some p)
  obtain ok cs where tc: "try_calls (pcap_options os p) = (ok, cs)" by fastforce
  show ?thesis
    using try_options(1) [of os p] by (auto simp: setup_pcap_def Some Let_def not_less tc)
qed (simp add: setup_pcap_def)

lemma setup_no_loop: "Pcap_loop q \<notin> set (snd (setup_pcap os i))"
proof (cases "create_ret os i")
  case (Some p)
  obtain ok cs where tc: "try_calls (pcap_options os p) = (ok, cs)" by fastforce
  show ?thesis
    using try_options(2) [of q os p] by (simp add: setup_pcap_def Some Let_def tc)
qed (simp add: setup_pcap_def)

lemma kafka_init_result:
  "fst (kafka_client_init ok new b) = (if ok ''bootstrap.servers'' b then new else None)"
  by (simp add: kafka_client_init_def Let_def split: option.split)

lemma no_loop [simp]:
  "Pcap_loop q \<notin> set (list_devs os)" "Pcap_loop q \<notin> set (err_kafka rk)" "Pcap_loop q \<notin> set (err_thread rk)"
  by (auto simp: list_devs_def err_kafka_def err_thread_def split: prod.splits if_splits)

lemma capture_phase_succeeds_iff:
  "(fst (capture_phase os i rk) = EXIT_SUCCESS \<longleftrightarrow> init_ret os \<noteq> PCAP_ERROR \<and> fst (setup_pcap os i) \<noteq> None) \<and>
   (fst (capture_phase os i rk) = EXIT_SUCCESS \<longleftrightarrow> (\<exists>p. Pcap_loop p \<in> set (snd (capture_phase os i rk)))) \<and>
   fst (capture_phase os i rk) \<in> {EXIT_SUCCESS, EXIT_FAILURE}"
  using setup_no_loop [of _ os i]
  by (auto simp: capture_phase_def Let_def EXIT_SUCCESS_def EXIT_FAILURE_def split: prod.splits option.splits)

text \<open>
  C15: \<open>main\<close> reaches the capture loop exactly when an interface is named and every step of the
  start-up succeeds: the brokers are accepted, the producer and the flush thread are created, the
  capture handle is opened, takes all its options, is activated, if with a warning, and has an Ethernet
  link.  Only then it returns \<open>EXIT_SUCCESS\<close>; otherwise it captures nothing and returns
  \<open>EXIT_FAILURE\<close>.  The list of devices, the network of the interface and the other settings of the
  producer may fail.
\<close>

theorem main_succeeds_iff:
  "(fst (main os argv) = EXIT_SUCCESS \<longleftrightarrow>
      2 \<le> length argv \<and> conf_set_ok os ''bootstrap.servers'' brokers \<and> new_producer os \<noteq> None \<and>
      thread_create os = 0 \<and> init_ret os \<noteq> PCAP_ERROR \<and> create_ret os (argv ! 1) \<noteq> None \<and>
      options_ok os \<and>
      activate_ret os \<ge> 0 \<and> datalink_ret os = DLT_EN10MB) \<and>
   (fst (main os argv) = EXIT_SUCCESS \<longleftrightarrow> (\<exists>p. Pcap_loop p \<in> set (snd (main os argv)))) \<and>
   fst (main os argv) \<in> {EXIT_SUCCESS, EXIT_FAILURE}"
proof (cases "length argv < 2")
  case True
  then show ?thesis by (auto simp: main_def EXIT_SUCCESS_def EXIT_FAILURE_def)
next
  case False
  obtain r ip msk where ln: "lookupnet os (argv ! 1) = (r, ip, msk)" by (metis prod_cases3)
  obtain rk ks where ki: "kafka_client_init (conf_set_ok os) (new_producer os) brokers = (rk, ks)"
    by fastforce
  have rk: "rk = (if conf_set_ok os ''bootstrap.servers'' brokers then new_producer os else None)"
    using kafka_init_result [of "conf_set_ok os" "new_producer os" brokers] by (simp add: ki)
  consider "rk = None" | "rk \<noteq> None" "thread_create os \<noteq> 0" | "rk \<noteq> None" "thread_create os = 0" by blast
  then show ?thesis
  proof cases
    case 3
    then show ?thesis
      using False ln ki rk capture_phase_succeeds_iff [of os "argv ! 1" rk] fst_setup [of os "argv ! 1"]
      by (auto simp: main_def Let_def split: prod.splits if_splits)
  qed (use False ln ki rk in \<open>auto simp: main_def Let_def EXIT_SUCCESS_def EXIT_FAILURE_def split: prod.splits if_splits\<close>)
qed

text \<open>A stretch of calls that opens no capture handle and does not assign the global one.\<close>

definition no_handle_change :: "event list \<Rightarrow> bool" where
  "no_handle_change es \<longleftrightarrow> list_all (\<lambda>e. case e of Set_handle p \<Rightarrow> False | Pcap_create i \<Rightarrow> False | _ \<Rightarrow> True) es"

lemma kafka_rule_keeps:
  "kafka_rule os c l = Some l' \<Longrightarrow> handle l' = handle l \<and> (Pcap p \<in> held l' \<longleftrightarrow> Pcap p \<in> held l)"
  by (cases c) (auto simp: ledger_simps split: if_splits bind_splits)

lemma rule_of_keeps:
  assumes "rule_of os e l = Some l'" and "no_handle_change [e]"
  shows "handle l' = handle l \<and> (Pcap p \<in> held l' \<longleftrightarrow> Pcap p \<in> held l \<and> e \<noteq> Pcap_close p)"
proof (cases e)
  case (Kafka c)
  then show ?thesis using assms(1) kafka_rule_keeps by simp
qed (use assms in \<open>auto simp: no_handle_change_def ledger_simps split: if_splits bind_splits\<close>)

lemma play_keeps:
  "play os es l = Some l' \<Longrightarrow> no_handle_change es \<Longrightarrow>
   handle l' = handle l \<and> (Pcap p \<in> held l' \<longleftrightarrow> Pcap p \<in> held l \<and> Pcap_close p \<notin> set es)"
proof (induction es arbitrary: l)
  case (Cons e es)
  then obtain l1 where l1: "rule_of os e l = Some l1" "play os es l1 = Some l'"
    by (auto split: bind_splits)
  have "no_handle_change [e]" "no_handle_change es" using Cons.prems(2) by (auto simp: no_handle_change_def)
  then show ?case using Cons.IH [OF l1(2)] rule_of_keeps [OF l1(1), of p] by auto
qed simp

lemma no_handle_change_simps [simp]:
  "no_handle_change (xs @ ys) \<longleftrightarrow> no_handle_change xs \<and> no_handle_change ys"
  "no_handle_change (map Kafka cs)" "no_handle_change (print_stats st)"
  by (auto simp: no_handle_change_def list_all_iff print_stats_def)

lemma finish_facts:
  "no_handle_change (finish os p rk)" "Signal_sigint \<notin> set (finish os p rk)"
  "Pcap_close q \<in> set (finish os p rk) \<longleftrightarrow> q = p"
  by (auto simp: finish_def print_stats_def no_handle_change_def list_all_iff split: prod.split)

lemma setup_no_close: "fst (setup_pcap os i) \<noteq> None \<Longrightarrow> Pcap_close q \<notin> set (snd (setup_pcap os i))"
  by (auto simp: setup_pcap_def pcap_options_def Let_def split: prod.splits option.splits if_splits)

lemma setup_no_signal: "Signal_sigint \<notin> set (snd (setup_pcap os i))"
  by (auto simp: setup_pcap_def pcap_options_def Let_def split: prod.splits option.splits if_splits)

text \<open>The run of \<open>main\<close> around the installation of the handler.\<close>

lemma capture_phase_signal:
  assumes "Signal_sigint \<in> set (snd (capture_phase os i rk))" and "held l = {Producer, Mutex, Thread}"
  shows "\<exists>A p s. snd (capture_phase os i rk) = A @ Signal_sigint # Stdout s # Pcap_loop p # finish os p rk \<and>
    Signal_sigint \<notin> set A \<and> (\<forall>q. Pcap_close q \<notin> set A) \<and>
    (\<exists>l'. play os A l = Some l' \<and> handle l' = Some p \<and> Pcap p \<in> held l')"
proof -
  obtain g es where st: "setup_pcap os i = (g, es)" by fastforce
  have es: "play os es l = Some (case g of None \<Rightarrow> l | Some p \<Rightarrow> l\<lparr>held := insert (Pcap p) (held l)\<rparr>)"
    using play_setup [of l os i] assms(2) by (simp add: st)
  have sg: "Signal_sigint \<notin> set es" using setup_no_signal [of os i] by (simp add: st)
  have ne: "init_ret os \<noteq> PCAP_ERROR" "g \<noteq> None"
    using assms(1) sg
    by (auto simp: capture_phase_def st Let_def err_thread_def err_kafka_def split: if_splits option.splits)
  then obtain p where p: "g = Some p" by auto
  show ?thesis
    using ne sg es setup_no_close [of os i]
    by (intro exI [of _ "Pcap_init # es @ [Set_handle (Some p)]"] exI [of _ p]
          exI [of _ "''Captura iniciada: monitorando a interface '' @ i @ newline"])
       (simp add: capture_phase_def st Let_def p play_append)
qed

lemma init_no_thread_call: "Thread_create c \<notin> set (snd (capture_phase os i rk))"
proof -
  have "Thread_create c \<notin> set (snd (setup_pcap os i))"
    by (auto simp: setup_pcap_def pcap_options_def Let_def split: prod.splits option.splits if_splits)
  then show ?thesis
    by (auto simp: capture_phase_def err_thread_def err_kafka_def finish_def print_stats_def Let_def
        split: prod.splits option.splits if_splits)
qed

text \<open>The run of \<open>main\<close> up to the point where the flush thread runs.\<close>

lemma main_started:
  assumes "Thread_create c \<in> set (snd (main os argv)) \<and> thread_create os = 0 \<or> Signal_sigint \<in> set (snd (main os argv))"
  obtains B rk l where "snd (main os argv) = B @ snd (capture_phase os (argv ! 1) rk)"
    and "fst (main os argv) = fst (capture_phase os (argv ! 1) rk)" and "rk \<noteq> None"
    and "Signal_sigint \<notin> set B" and "\<And>q. Pcap_close q \<notin> set B" and "play os B start_ledger = Some l"
    and "held l = {Producer, Mutex, Thread}"
proof -
  obtain r ip msk where ln: "lookupnet os (argv ! 1) = (r, ip, msk)" by (metis prod_cases3)
  obtain rk ks where ki: "kafka_client_init (conf_set_ok os) (new_producer os) brokers = (rk, ks)"
    by fastforce
  define ctx where "ctx = (case if r = -1 then (0, 0) else (ip, msk) of (nip, nmask) \<Rightarrow>
    \<lparr>tables = [None, None], active_idx = 0, mutex = None, net_ip = nip,
      net_mask = nmask, is_running = 1, kafka_producer = rk\<rparr>)"
  define B where "B = Lookupnet (argv ! 1) # (if r = -1 then [Log] else []) @ map Kafka ks @
    [Set_running 1, Mutex_init, Thread_create ctx]"
  have argc: "2 \<le> length argv" and rk: "rk \<noteq> None" and tc: "thread_create os = 0"
    using assms ln ki
    by (auto simp: main_def list_devs_def err_kafka_def Let_def split: prod.splits if_splits)
  have ks: "play os (map Kafka ks) start_ledger = Some (start_ledger\<lparr>held := {Producer}\<rparr>)"
    using play_init [OF ki, of start_ledger] rk by (auto simp: start_ledger_def)
  have "play os B start_ledger = Some (start_ledger\<lparr>held := {Producer, Mutex, Thread}, running := 1\<rparr>)"
    using ks tc by (auto simp: B_def play_append ledger_simps insert_commute)
  moreover have "main os argv = (fst (capture_phase os (argv ! 1) rk), B @ snd (capture_phase os (argv ! 1) rk))"
    using argc rk tc ln ki by (auto simp: main_def B_def ctx_def Let_def split: prod.split)
  moreover have "Signal_sigint \<notin> set B" "\<And>q. Pcap_close q \<notin> set B" by (auto simp: B_def)
  ultimately show thesis using that [of B rk] rk by simp
qed

text \<open>
  C28: the signal handler is installed once the capture handle exists.  From then on an
  interrupt at any moment finds the handle in the global variable, and breaking the loop with it
  is allowed up to \<open>pcap_close\<close>.  After \<open>pcap_close\<close> the variable still holds the closed handle, so
  a second interrupt during the remaining clean-up passes freed memory to \<open>pcap_breakloop\<close>.
\<close>

theorem sigint_allowed_until_close:
  assumes "snd (main os argv) = pre @ post" and "Signal_sigint \<in> set pre"
    and "play os pre start_ledger = Some l"
  shows "\<exists>p. handle l = Some p \<and>
    play os (handle_sigint (handle l)) l = (if Pcap_close p \<in> set pre then None else Some l)"
proof -
  obtain B rk l0 where m: "snd (main os argv) = B @ snd (capture_phase os (argv ! 1) rk)"
    and B: "Signal_sigint \<notin> set B" "\<And>q. Pcap_close q \<notin> set B" "play os B start_ledger = Some l0" "held l0 = {Producer, Mutex, Thread}"
    using main_started [of undefined os argv] assms(1,2) by (metis UnI1 set_append)
  have "Signal_sigint \<in> set (snd (capture_phase os (argv ! 1) rk))"
    using m B(1) assms(1,2) by (metis UnE UnI1 set_append)
  then obtain A p s l1 where cp: "snd (capture_phase os (argv ! 1) rk) = A @ Signal_sigint # Stdout s # Pcap_loop p # finish os p rk"
    and A: "Signal_sigint \<notin> set A" "\<And>q. Pcap_close q \<notin> set A" "play os A l0 = Some l1" "handle l1 = Some p" "Pcap p \<in> held l1"
    using capture_phase_signal [OF _ B(4)] by blast
  obtain P C where pre: "pre = P @ Signal_sigint # C" "Signal_sigint \<notin> set P"
    using assms(2) by (meson split_list_first)
  have "(B @ A) @ Signal_sigint # (Stdout s # Pcap_loop p # finish os p rk) = P @ Signal_sigint # (C @ post)"
    using m cp assms(1) pre(1) by simp
  then have eq: "B @ A = P" "Stdout s # Pcap_loop p # finish os p rk = C @ post"
    using append_Cons_eq_iff [of Signal_sigint "B @ A" "Stdout s # Pcap_loop p # finish os p rk"] B(1) A(1)
      finish_facts(2) by auto
  have "no_handle_change (Stdout s # Pcap_loop p # finish os p rk)"
    using finish_facts(1) by (simp add: no_handle_change_def)
  then have C: "no_handle_change C" unfolding eq(2) by simp
  have "play os C l1 = Some l"
    using assms(3) B(3) A(3) by (simp add: pre(1) eq(1) [symmetric] play_append)
  then have l: "handle l = Some p" "Pcap p \<in> held l \<longleftrightarrow> Pcap_close p \<notin> set C"
    using play_keeps [OF _ C, of os l1 l p] A by auto
  have "Pcap_close p \<notin> set (B @ A)"
    using A(2) B(2) by simp
  then show ?thesis
    using l by (auto simp: pre(1) eq(1) [symmetric] handle_sigint_def ledger_simps)
qed

text \<open>A machine on which everything succeeds.\<close>

definition example_host :: host where
  "example_host = \<lparr>findalldevs = (0, [''eth0'']), lookupnet = (\<lambda>i. (0, 0x0A, 0xFF)),
     conf_set_ok = (\<lambda>k v. True), new_producer = Some 0, thread_create = 0, init_ret = 0,
     create_ret = (\<lambda>i. Some 7), set_snaplen_ret = 0, set_promisc_ret = 0, set_immediate_ret = 0,
     set_timeout_ret = 0, set_buffer_ret = 0, activate_ret = 0, datalink_ret = 1,
     stats_ret = (0, \<lparr>ps_recv = 3, ps_drop = 0, ps_ifdrop = 0\<rparr>)\<rparr>"

definition example_ctx0 :: sniffer_context where
  "example_ctx0 = sctx (main_init 0x0A 0xFF (Some 0) empty_mem)"

definition example_start :: "event list" where
  "example_start =
     [Lookupnet ''eth0'', Kafka Conf_new, Kafka (Conf_set ''bootstrap.servers'' brokers),
      Kafka (Conf_set ''queue.buffering.max.ms'' ''10''), Kafka (Conf_set ''acks'' ''0''),
      Kafka Conf_set_dr_msg_cb, Kafka Producer_new, Set_running 1, Mutex_init,
      Thread_create example_ctx0, Pcap_init, Pcap_create ''eth0'', Pcap_set_snaplen 7 128,
      Pcap_set_promisc 7 1, Pcap_set_immediate_mode 7 0, Pcap_set_timeout 7 10,
      Pcap_set_buffer_size 7 32000000, Pcap_activate 7, Pcap_datalink 7, Set_handle (Some 7),
      Signal_sigint]"

lemma example_main:
  "\<exists>post. snd (main example_host [''sniffer'', ''eth0'']) = example_start @ post"
  by (simp add: main_def example_host_def kafka_client_init_def capture_phase_def setup_pcap_def
      pcap_options_def example_start_def example_ctx0_def main_init_def PCAP_ERROR_def DLT_EN10MB_def
      CAPLEN_def CAPBUFFER_SIZE_def Let_def)

lemma example_play:
  "play example_host example_start start_ledger =
     Some \<lparr>held = {Pcap 7, Thread, Mutex, Producer}, running = 1, handle = Some 7\<rparr>"
  by (simp add: example_start_def example_host_def start_ledger_def ledger_simps insert_Diff_if)

theorem sigint_allowed_until_close_witness:
  "play example_host (handle_sigint (Some 7)) \<lparr>held = {Pcap 7, Thread, Mutex, Producer}, running = 1, handle = Some 7\<rparr> =
     Some \<lparr>held = {Pcap 7, Thread, Mutex, Producer}, running = 1, handle = Some 7\<rparr>"
proof -
  obtain post where "snd (main example_host [''sniffer'', ''eth0'']) = example_start @ post"
    using example_main by blast
  from sigint_allowed_until_close [OF this _ example_play] show ?thesis
    by (auto simp: example_start_def)
qed

text \<open>
  The state in which \<open>main\<close> creates the flush thread is the initial state of the two threads, on every
  machine: both tables \<open>NULL\<close>, the running flag set, the network as \<open>pcap_lookupnet\<close> gave it or zero,
  and a producer.
\<close>

theorem thread_starts_in_main_init:
  assumes "Thread_create c \<in> set (snd (main os argv))"
  shows "sctx (main_init (net_ip c) (net_mask c) (kafka_producer c) m) = c" "kafka_producer c \<noteq> None"
proof -
  obtain r0 ip msk where ln: "lookupnet os (argv ! 1) = (r0, ip, msk)" by (metis prod_cases3)
  obtain rk ks where ki: "kafka_client_init (conf_set_ok os) (new_producer os) brokers = (rk, ks)"
    by fastforce
  have "c = sctx (main_init (net_ip c) (net_mask c) (kafka_producer c) m) \<and> kafka_producer c \<noteq> None"
    using assms(1) ln ki init_no_thread_call [of c os "argv ! 1" rk]
    by (auto simp: main_def main_init_def list_devs_def err_kafka_def Let_def split: prod.splits if_splits)
  then show "sctx (main_init (net_ip c) (net_mask c) (kafka_producer c) m) = c" "kafka_producer c \<noteq> None"
    by simp_all
qed

lemma example_thread: "Thread_create example_ctx0 \<in> set (snd (main example_host [''sniffer'', ''eth0'']))"
proof -
  have "Thread_create example_ctx0 \<in> set example_start" by (simp add: example_start_def)
  then show ?thesis using example_main by auto
qed

theorem thread_starts_in_main_init_witness:
  "sctx (main_init 0x0A 0xFF (Some 0) empty_mem) = example_ctx0"
  using thread_starts_in_main_init(1) [OF example_thread, of empty_mem]
  by (simp add: example_ctx0_def main_init_def)

end
