(* ===== verification/Shutdown.thy ===== *)
theory Shutdown
  imports Sniffer_Props
begin

text \<open>
  The end of the program: what is exported and what is lost when both threads have ended, and
  that the flush thread does end once the capture has stopped, so that \<open>pthread_join\<close> in
  \<open>main\<close> returns.
\<close>

section \<open>The state at the end\<close>

text \<open>
  When both threads have ended, every packet was exported except those of the last,
  unfinished window: their records are still in the active table, and no message for them was
  handed to Kafka.
\<close>

theorem shutdown_state:
  assumes "heap_empty m" and "rk \<noteq> None" and "reachable (main_init ip msk rk m) (Ok s)"
    and "capture s = Cap_stopped" and "flush s = Fl_exit"
  shows "accepted s = concat (windows s) @ current s \<and>
    calls s = concat (map (export_calls ip msk) (windows s)) \<and>
    (\<exists>tp xs. hash_rep (heap s) (tables (sctx s) ! nat (active_idx (sctx s))) tp xs \<and>
       table_abs (heap s) xs = window ip msk (current s))"
proof -
  have I: "inv ip msk s" using reachable_inv [OF assms(1-3)] by simp
  then have "tables_ok ip msk s" by (simp add: inv_def)
  then have "pending s = []" and "\<exists>tp xs. hash_rep (heap s) (tables (sctx s) ! nat (active_idx (sctx s))) tp xs \<and>
       table_abs (heap s) xs = window ip msk (current s)"
    unfolding tables_ok_def heap_ok_def flush_ok_def using assms(5) by auto
  then show ?thesis using I by (simp add: inv_def)
qed

lemma example_captured: "captured example_hdr example_frame"
  by (simp add: captured_def example_hdr_def example_frame_def)

text \<open>A run: an empty first window, then one packet.\<close>

lemma example_packet:
  fixes ip msk :: u32
  shows
  "\<exists>s. reachable (main_init ip msk (Some 0) empty_mem) (Ok s) \<and>
     capture s = Cap_loop \<and> flush s = Fl_sleep \<and> calls s = [] \<and> accepted s = [example_udp_stats]"
proof -
  define s0 where "s0 = main_init ip msk (Some 0) empty_mem"
  define c0 where "c0 = sctx s0"
  define s1 where "s1 = s0\<lparr>flush := Fl_lock\<rparr>"
  define s2 where "s2 = set_mutex (Some Flush_thread) (s1\<lparr>flush := Fl_critical\<rparr>)"
  define c3 where "c3 = (sctx s2)\<lparr>active_idx := 1, tables := [None, None]\<rparr>"
  define s3 where "s3 = s2\<lparr>sctx := c3, flush := Fl_unlock None, pending := [], current := []\<rparr>"
  define s4 where "s4 = set_mutex None (s3\<lparr>flush := Fl_export None\<rparr>)"
  define s5 where "s5 = finish_window [] s4"
  define s6 where "s6 = s5\<lparr>capture := Cap_lock example_udp_stats\<rparr>"
  define s7 where "s7 = set_mutex (Some Capture_thread) (s6\<lparr>capture := Cap_critical example_udp_stats\<rparr>)"
  note defs = s7_def s6_def s5_def s4_def s3_def c3_def s2_def s1_def s0_def main_init_def
    set_mutex_def finish_window_def
  have r1: "reachable s0 (Ok s1)"
    using reach_step [OF reach_start step_on.fl_test, of s0] by (simp add: defs)
  have r2: "reachable s0 (Ok s2)"
    using reach_step [OF r1 step_on.fl_lock] by (simp add: defs)
  have sw: "swap s2 = Ok s3"
    by (simp add: swap_def swap_tables_def get_table_def set_table_def Let_def defs)
  have r3: "reachable s0 (Ok s3)"
    using reach_step [OF r2 step_on.fl_swap] unfolding sw by (simp add: s2_def set_mutex_def)
  have r4: "reachable s0 (Ok s4)"
    using reach_step [OF r3 step_on.fl_unlock [of s3 None]] by (simp add: s3_def s4_def)
  have ex: "start_export None s4 = Ok s5" by (simp add: start_export_def s5_def)
  have r5: "reachable s0 (Ok s5)"
    using reach_step [OF r4 step_on.fl_export [of s4 None]] unfolding ex by (simp add: s4_def set_mutex_def)
  have rc: "receive example_hdr example_frame s5 = Ok s6"
    by (simp add: receive_def example_parse s6_def)
  have r6: "reachable s0 (Ok s6)"
    using reach_step [OF r5 step_on.cap_receive [OF _ example_captured]] unfolding rc by (simp add: defs)
  have r7: "reachable s0 (Ok s7)"
    using reach_step [OF r6 step_on.cap_lock [of s6 example_udp_stats]] by (simp add: defs)
  have h7: "heap s7 = empty_mem" "get_table (sctx s7) (active_idx (sctx s7)) = Ok None"
    "accepted s7 = []" "calls s7 = []" "flush s7 = Fl_sleep" "capture s7 = Cap_critical example_udp_stats"
    by (simp_all add: defs get_table_def)
  have "safe (\<lambda>c. c \<in> {1, -1} \<and> process_oom empty_mem None)
    (\<lambda>(c, m). step_result (sctx s7) example_udp_stats empty_mem None [] c m)
    (flow_process_packet (sctx s7) example_udp_stats empty_mem)"
    by (rule flow_process_packet_step [OF h7(2)]) (simp_all add: empty_mem_facts)
  then have "\<exists>x. flow_process_packet (sctx s7) example_udp_stats empty_mem = Ok x"
    using empty_mem_facts(4) by (cases "flow_process_packet (sctx s7) example_udp_stats empty_mem") auto
  then obtain c8 m8 where "flow_process_packet (sctx s7) example_udp_stats empty_mem = Ok (c8, m8)" by auto
  then have pr: "process example_udp_stats s7 = Ok (s7\<lparr>sctx := c8, heap := m8, capture := Cap_unlock,
      accepted := [example_udp_stats], current := current s7 @ [example_udp_stats]\<rparr>)"
    by (simp add: process_def h7)
  define s8 where "s8 = s7\<lparr>sctx := c8, heap := m8, capture := Cap_unlock,
      accepted := [example_udp_stats], current := current s7 @ [example_udp_stats]\<rparr>"
  have r8: "reachable s0 (Ok s8)"
    using reach_step [OF r7 step_on.cap_process [OF h7(6)]] unfolding pr by (simp add: s8_def)
  define s9 where "s9 = set_mutex None (s8\<lparr>capture := Cap_loop\<rparr>)"
  have r9: "reachable s0 (Ok s9)"
    using reach_step [OF r8 step_on.cap_unlock] by (simp add: s9_def s8_def)
  show ?thesis
    unfolding s0_def [symmetric]
    using r9 by (intro exI [of _ s9]) (simp add: s9_def s8_def set_mutex_def h7)
qed

text \<open>Then the end of the capture.\<close>

lemma example_run:
  "\<exists>s. reachable (main_init 0x0A 0xFF (Some 0) empty_mem) (Ok s) \<and>
     capture s = Cap_stopped \<and> flush s = Fl_exit \<and> calls s = [] \<and> accepted s = [example_udp_stats]"
proof -
  obtain s9 where r9: "reachable (main_init 0x0A 0xFF (Some 0) empty_mem) (Ok s9)"
    and s9: "capture s9 = Cap_loop" "flush s9 = Fl_sleep" "calls s9 = []" "accepted s9 = [example_udp_stats]"
    using example_packet by blast
  define s10 where "s10 = s9\<lparr>capture := Cap_stopped, sctx := (sctx s9)\<lparr>is_running := 0\<rparr>\<rparr>"
  have r10: "reachable (main_init 0x0A 0xFF (Some 0) empty_mem) (Ok s10)"
    using reach_step [OF r9 step_on.cap_stop [OF s9(1)]] by (simp add: s10_def)
  define s11 where "s11 = s10\<lparr>flush := Fl_test\<rparr>"
  have r11: "reachable (main_init 0x0A 0xFF (Some 0) empty_mem) (Ok s11)"
    using reach_step [OF r10 step_on.fl_sleep] s9 by (simp add: s11_def s10_def)
  have "reachable (main_init 0x0A 0xFF (Some 0) empty_mem) (Ok (s11\<lparr>flush := Fl_exit\<rparr>))"
    using reach_step [OF r11 step_on.fl_test] by (simp add: s11_def s10_def)
  then show ?thesis using s9 by (intro exI [of _ "s11\<lparr>flush := Fl_exit\<rparr>"]) (simp add: s11_def s10_def)
qed

theorem shutdown_state_witness:
  "\<exists>s::sys. capture s = Cap_stopped \<and> flush s = Fl_exit \<and> calls s = [] \<and>
     [example_udp_stats] = concat (windows s) @ current s"
proof -
  obtain s where s: "reachable (main_init 0x0A 0xFF (Some 0) empty_mem) (Ok s)" "capture s = Cap_stopped"
    "flush s = Fl_exit" "calls s = []" "accepted s = [example_udp_stats]"
    using example_run by blast
  have "accepted s = concat (windows s) @ current s"
    using shutdown_state [OF heap_empty_mem _ s(1-3)] by simp
  then show ?thesis using s(2-5) by metis
qed

text \<open>
  C39: packets can be lost at shutdown: there is a run in which a packet is accepted, both
  threads end, and nothing was ever handed to Kafka.
\<close>

theorem shutdown_loses_packets:
  "\<exists>s. reachable (main_init 0x0A 0xFF (Some 0) empty_mem) (Ok s) \<and>
     capture s = Cap_stopped \<and> flush s = Fl_exit \<and> accepted s \<noteq> [] \<and> calls s = []"
  using example_run by fastforce

section \<open>The flush thread ends\<close>

lemma swap_tables_is_running:
  "swap_tables c = Ok (t, c') \<Longrightarrow> is_running c' = is_running c"
  by (auto simp: swap_tables_def get_table_def set_table_def Let_def split: if_splits)

text \<open>The flag is cleared when the capture stops and nothing sets it again.\<close>

definition stop_ok :: "sys \<Rightarrow> bool" where
  "stop_ok s \<longleftrightarrow> capture s \<noteq> Cap_stopped \<or> is_running (sctx s) = 0"

lemma stop_ok_step: "step s (Ok s') \<Longrightarrow> stop_ok s \<Longrightarrow> stop_ok s'"
  by (erule step_on.cases)
     (auto dest!: sym [of "Ok s'"] simp: stop_ok_def receive_def process_def swap_def start_export_def export_one_def
        set_mutex_def finish_window_def seq_eq_Ok_iff dest!: swap_tables_is_running
        split: if_splits option.splits prod.splits)

lemma stop_ok_reachable:
  "reachable (main_init ip msk rk m) r \<Longrightarrow> r = Ok s \<Longrightarrow> stop_ok s"
proof (induction arbitrary: s rule: reachable_on.induct)
  case reach_start
  then show ?case by (auto simp: stop_ok_def main_init_def)
next
  case (reach_step s1 r)
  then show ?case using stop_ok_step by blast
qed

text \<open>
  What the flush thread still has to do: the control points left before it tests
  \<open>is_running\<close>, and one iteration for every node on the heap.
\<close>

fun points_left :: "flush_pc \<Rightarrow> nat" where
  "points_left Fl_exit = 0"
| "points_left Fl_test = 1"
| "points_left Fl_sleep = 2"
| "points_left (Fl_iter el tmp head out) = 3"
| "points_left (Fl_export t) = 4"
| "points_left (Fl_unlock t) = 5"
| "points_left Fl_critical = 6"
| "points_left Fl_lock = 7"

definition nodes :: "mem \<Rightarrow> addr set" where
  "nodes m = {a. valid m a}"

definition steps_left :: "sys \<Rightarrow> nat" where
  "steps_left s = points_left (flush s) + card (nodes (heap s))"

lemma finite_nodes: "mem_wf m \<Longrightarrow> finite (nodes m)"
  by (rule finite_subset [of _ "{..<fresh m}"]) (auto simp: nodes_def mem_wf_fresh)

lemma points_left_le: "points_left f \<le> 7"
  by (cases f) simp_all

lemma step_after_stop:
  assumes I: "inv ip msk s" and st: "step s r" and stop: "capture s = Cap_stopped" "stop_ok s"
  shows "\<exists>s'. r = Ok s' \<and> steps_left s' < steps_left s \<and> capture s' = Cap_stopped"
  using st
proof cases
  case fl_test
  then show ?thesis using stop by (auto simp: steps_left_def stop_ok_def)
next
  case fl_swap
  have "\<exists>t c. swap_tables (sctx s) = Ok (t, c)"
    using I by (auto simp: inv_def swap_tables_def get_table_def set_table_def Let_def)
  then show ?thesis using fl_swap stop by (auto simp: swap_def steps_left_def)
next
  case (fl_export t)
  obtain tp' ys where rep: "hash_rep (heap s) t tp' ys"
    using I fl_export by (auto simp: inv_def tables_ok_def heap_ok_def)
  then have "\<exists>q. next_or_null t (heap s) = Ok q"
    using next_or_null_rep [OF rep] hash_rep_head [OF rep] by simp
  then show ?thesis using fl_export stop by (auto simp: start_export_def finish_window_def steps_left_def)
next
  case (fl_iter a tmp head out)
  obtain zs m2 tp' where dr: "drained (heap s) m2 a zs tp'" and va: "valid (heap s) a" and wf: "mem_wf (heap s)"
    and run: "export_one a tmp head out s = Ok (s\<lparr>heap := m2, flush := Fl_iter (hd_opt zs) (hd_opt (tl zs))
      (hd_opt zs) (out @ [Producev topic_name (json_payload (stats_of (flow_at (heap s) a)))])\<rparr>)"
    by (rule export_one_run [OF I fl_iter(2)]) (auto simp: heap_ok_def)
  have "nodes m2 = nodes (heap s) - {a}" using dr by (auto simp: nodes_def drained_def)
  moreover have "a \<in> nodes (heap s)" using va by (simp add: nodes_def)
  ultimately have "card (nodes m2) < card (nodes (heap s))"
    using finite_nodes [OF wf] card_Diff1_less by metis
  then show ?thesis using run fl_iter stop by (simp add: steps_left_def)
qed (use stop in \<open>auto simp: steps_left_def set_mutex_def finish_window_def\<close>)

text \<open>Runs with their number of steps.\<close>

inductive run_of :: "sys \<Rightarrow> nat \<Rightarrow> sys outcome \<Rightarrow> bool" where
  run_none: "run_of s 0 (Ok s)"
| run_more: "run_of s n (Ok s') \<Longrightarrow> step s' r \<Longrightarrow> run_of s (Suc n) r"

lemma run_after_stop:
  assumes "run_of s n r" and "inv ip msk s" and "capture s = Cap_stopped" and "stop_ok s"
  shows "\<exists>s'. r = Ok s' \<and> n + steps_left s' \<le> steps_left s \<and> capture s' = Cap_stopped \<and>
    stop_ok s' \<and> inv ip msk s'"
  using assms
proof (induction rule: run_of.induct)
  case (run_none s)
  then show ?case by simp
next
  case (run_more s n s' r)
  then have s': "n + steps_left s' \<le> steps_left s" "capture s' = Cap_stopped" "stop_ok s'" "inv ip msk s'"
    by auto
  from step_after_stop [OF s'(4) run_more.hyps(2) s'(2,3)] obtain s2 where
    s2: "r = Ok s2" "steps_left s2 < steps_left s'" "capture s2 = Cap_stopped" by blast
  moreover have "stop_ok s2" using stop_ok_step run_more.hyps(2) s2(1) s'(3) by blast
  moreover have "inv ip msk s2" by (rule inv_step [OF s'(4) run_more.hyps(2) [unfolded s2(1)]])
  ultimately show ?case using s'(1) by auto
qed

text \<open>
  C19: once the capture has stopped, the flush thread ends: every run from there has at most
  seven steps more than there are nodes on the heap, no step of it exits or faults, and
  it can go on until the thread has returned.
\<close>

theorem shutdown_terminates:
  assumes "heap_empty m" and "rk \<noteq> None" and "reachable (main_init ip msk rk m) (Ok s)"
    and "capture s = Cap_stopped" and "run_of s n r"
  shows "n \<le> 7 + card (nodes (heap s)) \<and> (\<exists>s'. r = Ok s' \<and> (flush s' = Fl_exit \<or> (\<exists>r'. step s' r')))"
proof -
  have I: "inv ip msk s" and st: "stop_ok s"
    using reachable_inv [OF assms(1-3)] stop_ok_reachable [OF assms(3)] by auto
  from run_after_stop [OF assms(5) I assms(4) st] obtain s' where
    s': "r = Ok s'" "n + steps_left s' \<le> steps_left s" "inv ip msk s'" by blast
  moreover have "flush s' = Fl_exit \<or> (\<exists>r'. step s' r')" using step_exists [OF s'(3)] by blast
  moreover have "n \<le> 7 + card (nodes (heap s))"
    using s'(2) points_left_le [of "flush s"] by (simp add: steps_left_def)
  ultimately show ?thesis by blast
qed

theorem shutdown_terminates_witness:
  "\<exists>s::sys. capture s = Cap_stopped \<and> flush s = Fl_exit \<and> (0::nat) \<le> 7 + card (nodes (heap s))"
proof -
  obtain s where s: "reachable (main_init 0x0A 0xFF (Some 0) empty_mem) (Ok s)" "capture s = Cap_stopped"
    "flush s = Fl_exit"
    using example_run by blast
  then show ?thesis using shutdown_terminates [OF heap_empty_mem _ s(1,2) run_none] by auto
qed

end
