(* ===== verification/Liveness.thy ===== *)
theory Liveness
  imports Shutdown
begin

text \<open>
  What the sniffer can always do: while the capture goes on, the flush thread by itself exports
  everything that has been accepted; and what every message it sends is made of.
\<close>

section \<open>The flush thread makes progress by itself\<close>

text \<open>While the capture goes on, the flag is set and the flush thread has not ended.\<close>

definition running_ok :: "sys \<Rightarrow> bool" where
  "running_ok s \<longleftrightarrow> capture s = Cap_stopped \<or> is_running (sctx s) \<noteq> 0 \<and> flush s \<noteq> Fl_exit"

lemma flow_process_packet_is_running:
  "flow_process_packet c st m = Ok (c', m') \<Longrightarrow> is_running c' = is_running c"
  by (auto simp: flow_process_packet_def get_table_def set_table_def Let_def seq_eq_Ok_iff
      split: if_splits option.splits prod.splits)

lemma running_ok_step: "step s (Ok s') \<Longrightarrow> running_ok s \<Longrightarrow> running_ok s'"
  by (erule step_on.cases)
     (auto dest!: sym [of "Ok s'"] simp: running_ok_def receive_def process_def swap_def start_export_def export_one_def
        set_mutex_def finish_window_def seq_eq_Ok_iff dest!: swap_tables_is_running flow_process_packet_is_running
        split: if_splits option.splits prod.splits)

lemma running_ok_reachable:
  "reachable (main_init ip msk rk m) r \<Longrightarrow> r = Ok s \<Longrightarrow> running_ok s"
proof (induction arbitrary: s rule: reachable_on.induct)
  case reach_start
  then show ?case by (auto simp: running_ok_def main_init_def)
next
  case (reach_step s1 r)
  then show ?case using running_ok_step by blast
qed

text \<open>
  Runs of the flush thread alone: only its steps move the place where it is, and they move nothing of
  the capture thread.
\<close>

inductive flush_run :: "sys \<Rightarrow> sys \<Rightarrow> bool" for s where
  flush_stays: "flush_run s s"
| flush_moves: "flush_run s s1 \<Longrightarrow> step s1 (Ok s2) \<Longrightarrow> flush s2 \<noteq> flush s1 \<Longrightarrow> flush_run s s2"

lemma flush_step_keeps:
  "step s (Ok s') \<Longrightarrow> flush s' \<noteq> flush s \<Longrightarrow>
     capture s' = capture s \<and> accepted s' = accepted s \<and> is_running (sctx s') = is_running (sctx s)"
  by (erule step_on.cases)
     (auto dest!: sym [of "Ok s'"] simp: receive_def process_def swap_def start_export_def export_one_def
        set_mutex_def finish_window_def seq_eq_Ok_iff dest!: swap_tables_is_running
        split: if_splits option.splits prod.splits)

lemma flush_run_keeps:
  "flush_run s s' \<Longrightarrow>
     capture s' = capture s \<and> accepted s' = accepted s \<and> is_running (sctx s') = is_running (sctx s)"
  by (induction rule: flush_run.induct) (auto dest: flush_step_keeps)

lemma flush_run_reachable: "flush_run s s' \<Longrightarrow> reachable s (Ok s')"
  by (induction rule: flush_run.induct) (auto intro: reach_start reach_step)

lemma flush_run_step: "step s (Ok s') \<Longrightarrow> flush s' \<noteq> flush s \<Longrightarrow> flush_run s s'"
  by (rule flush_moves [OF flush_stays])

lemma flush_run_trans: "flush_run s' s'' \<Longrightarrow> flush_run s s' \<Longrightarrow> flush_run s s''"
  by (induction rule: flush_run.induct) (auto intro: flush_moves)

lemma reachable_trans: "reachable s r \<Longrightarrow> reachable s0 (Ok s) \<Longrightarrow> reachable s0 r"
  by (induction rule: reachable_on.induct) (auto intro: reach_step)

lemma flush_run_inv: "flush_run s s' \<Longrightarrow> inv ip msk s \<Longrightarrow> inv ip msk s'"
  using reachable_good [OF flush_run_reachable] by fastforce

text \<open>The capture thread is running and does not hold the mutex.\<close>

definition outside :: "sys \<Rightarrow> bool" where
  "outside s \<longleftrightarrow> capture s = Cap_loop \<or> (\<exists>st. capture s = Cap_lock st)"

lemma flush_run_outside: "flush_run s s' \<Longrightarrow> outside s' \<longleftrightarrow> outside s"
  using flush_run_keeps [of s s'] by (simp add: outside_def)

text \<open>Inside a round, from the lock to the end of the export, a step is possible and brings the end nearer.\<close>

definition in_round :: "flush_pc \<Rightarrow> bool" where
  "in_round f \<longleftrightarrow> f \<notin> {Fl_test, Fl_sleep, Fl_exit}"

lemma round_step:
  assumes I: "inv ip msk s" and cap: "outside s" and pc: "in_round (flush s)"
  shows "\<exists>s'. flush_run s s' \<and> steps_left s' < steps_left s \<and> (in_round (flush s') \<or> flush s' = Fl_sleep) \<and>
    flush s' \<noteq> Fl_lock \<and> (flush s' = Fl_critical \<longleftrightarrow> flush s = Fl_lock) \<and>
    current s' = (if flush s = Fl_critical then [] else current s)"
proof (cases "flush s")
  case Fl_lock
  have "mutex (sctx s) = None"
    using I cap Fl_lock unfolding outside_def inv_def mutex_ok_def by (cases "mutex (sctx s)"; cases "the (mutex (sctx s))") auto
  then have st: "step s (Ok (set_mutex (Some Flush_thread) (s\<lparr>flush := Fl_critical\<rparr>)))"
    using Fl_lock by (rule step_on.fl_lock [rotated])
  show ?thesis
    by (intro exI conjI, rule flush_run_step [OF st])
       (use Fl_lock in \<open>simp_all add: set_mutex_def steps_left_def in_round_def\<close>)
next
  case Fl_critical
  have "\<exists>t c. swap_tables (sctx s) = Ok (t, c)"
    using I by (auto simp: inv_def swap_tables_def get_table_def set_table_def Let_def)
  then obtain t c where sw: "swap_tables (sctx s) = Ok (t, c)" by blast
  then have st: "step s (Ok (s\<lparr>sctx := c, flush := Fl_unlock t, pending := current s, current := []\<rparr>))"
    using step_on.fl_swap [OF Fl_critical] by (simp add: swap_def)
  show ?thesis
    by (intro exI conjI, rule flush_run_step [OF st])
       (use Fl_critical swap_tables_is_running [OF sw] in \<open>simp_all add: steps_left_def in_round_def\<close>)
next
  case (Fl_unlock t)
  show ?thesis
    by (intro exI conjI, rule flush_run_step [OF step_on.fl_unlock [OF Fl_unlock]])
       (use Fl_unlock in \<open>simp_all add: set_mutex_def steps_left_def in_round_def\<close>)
next
  case (Fl_export t)
  obtain tp' ys where rep: "hash_rep (heap s) t tp' ys"
    using I Fl_export by (auto simp: inv_def tables_ok_def heap_ok_def)
  then obtain q where q: "next_or_null t (heap s) = Ok q"
    using next_or_null_rep [OF rep] hash_rep_head [OF rep] by simp
  define s' where "s' = (if t = None \<or> kafka_producer (sctx s) = None then finish_window [] s
    else s\<lparr>flush := Fl_iter t q t []\<rparr>)"
  have "start_export t s = Ok s'" by (simp add: start_export_def s'_def q)
  then show ?thesis
    using step_on.fl_export [OF Fl_export] Fl_export
    by (intro exI [of _ s'] conjI flush_run_step) (auto simp: s'_def finish_window_def steps_left_def in_round_def)
next
  case (Fl_iter el tmp head out)
  show ?thesis
  proof (cases el)
    case None
    show ?thesis
      by (intro exI conjI, rule flush_run_step [OF step_on.fl_done [OF Fl_iter [unfolded None]]])
         (use Fl_iter in \<open>simp_all add: finish_window_def steps_left_def in_round_def\<close>)
  next
    case (Some a)
    obtain zs m2 tp' where dr: "drained (heap s) m2 a zs tp'" and va: "valid (heap s) a" and wf: "mem_wf (heap s)"
      and run: "export_one a tmp head out s = Ok (s\<lparr>heap := m2, flush := Fl_iter (hd_opt zs) (hd_opt (tl zs))
        (hd_opt zs) (out @ [Producev topic_name (json_payload (stats_of (flow_at (heap s) a)))])\<rparr>)"
      by (rule export_one_run [OF I Fl_iter [unfolded Some]]) (auto simp: heap_ok_def)
    have "nodes m2 = nodes (heap s) - {a}" using dr by (auto simp: nodes_def drained_def)
    moreover have "a \<in> nodes (heap s)" using va by (simp add: nodes_def)
    ultimately have less: "card (nodes m2) < card (nodes (heap s))"
      using finite_nodes [OF wf] card_Diff1_less by metis
    show ?thesis
      by (intro exI conjI, rule flush_run_step [OF step_on.fl_iter [OF Fl_iter [unfolded Some], unfolded run]])
         (use Fl_iter less in \<open>simp_all add: steps_left_def in_round_def\<close>)
  qed
qed (use pc in \<open>simp_all add: in_round_def\<close>)

lemma round_ends:
  assumes "inv ip msk s" and "outside s" and "in_round (flush s)"
  shows "\<exists>s'. flush_run s s' \<and> flush s' = Fl_sleep \<and>
    current s' = (if flush s = Fl_lock \<or> flush s = Fl_critical then [] else current s)"
  using assms
proof (induction "steps_left s" arbitrary: s rule: less_induct)
  case less
  obtain s1 where s1: "flush_run s s1" "steps_left s1 < steps_left s" "in_round (flush s1) \<or> flush s1 = Fl_sleep"
    "flush s1 \<noteq> Fl_lock" "flush s1 = Fl_critical \<longleftrightarrow> flush s = Fl_lock"
    "current s1 = (if flush s = Fl_critical then [] else current s)"
    using round_step [OF less.prems] by blast
  have I1: "inv ip msk s1" and c1: "outside s1"
    using flush_run_inv [OF s1(1) less.prems(1)] flush_run_outside [OF s1(1)] less.prems(2) by simp_all
  show ?case
  proof (cases "flush s1 = Fl_sleep")
    case True
    then show ?thesis using s1 by auto
  next
    case False
    then obtain s2 where "flush_run s1 s2" "flush s2 = Fl_sleep"
      "current s2 = (if flush s1 = Fl_lock \<or> flush s1 = Fl_critical then [] else current s1)"
      using less.hyps [OF s1(2) I1 c1] s1(3) by blast
    then show ?thesis using s1 flush_run_trans by (intro exI [of _ s2]) auto
  qed
qed

text \<open>Two rounds at most export everything: one under way, and one for the current window.\<close>

lemma test_to_lock:
  assumes "outside s" and "running_ok s" and "flush s = Fl_test \<or> flush s = Fl_sleep"
  shows "\<exists>s'. flush_run s s' \<and> flush s' = Fl_lock"
proof -
  have test: "\<exists>s'. flush_run s s' \<and> flush s' = Fl_lock" if "flush s = Fl_test" "is_running (sctx s) \<noteq> 0" for s
    using flush_run_step [OF step_on.fl_test [OF that(1)]] that
    by (intro exI [of _ "s\<lparr>flush := Fl_lock\<rparr>"]) simp
  have r: "is_running (sctx s) \<noteq> 0" using assms(1,2) by (auto simp: running_ok_def outside_def)
  show ?thesis
  proof (cases "flush s = Fl_test")
    case True
    then show ?thesis using test r by blast
  next
    case False
    then have sl: "flush s = Fl_sleep" using assms(3) by simp
    have "flush_run s (s\<lparr>flush := Fl_test\<rparr>)" by (rule flush_run_step [OF step_on.fl_sleep [OF sl]]) (simp add: sl)
    then show ?thesis using test [of "s\<lparr>flush := Fl_test\<rparr>"] r flush_run_trans by fastforce
  qed
qed

lemma all_exported:
  assumes I: "inv ip msk s" and cap: "outside s" and run: "running_ok s"
  shows "\<exists>s'. flush_run s s' \<and> flush s' = Fl_sleep \<and> current s' = []"
proof -
  obtain s1 where s1: "flush_run s s1" "flush s1 = Fl_lock \<or> flush s1 = Fl_sleep \<or> flush s1 = Fl_test"
  proof (cases "in_round (flush s)")
    case True
    then show ?thesis using round_ends [OF I cap] that by blast
  next
    case False
    then show ?thesis using that [OF flush_stays] run cap by (auto simp: in_round_def running_ok_def outside_def)
  qed
  have c1: "outside s1" "running_ok s1"
    using flush_run_outside [OF s1(1)] flush_run_keeps [OF s1(1)] s1(2) cap run
    by (auto simp: running_ok_def outside_def)
  obtain s2 where s2: "flush_run s1 s2" "flush s2 = Fl_lock"
    using s1(2) test_to_lock [OF c1] flush_stays by blast
  have q2: "flush_run s s2" by (rule flush_run_trans [OF s2(1) s1(1)])
  have I2: "inv ip msk s2" and c2: "outside s2"
    using flush_run_inv [OF q2 I] flush_run_outside [OF q2] cap by simp_all
  obtain s3 where "flush_run s2 s3" "flush s3 = Fl_sleep" "current s3 = []"
    using round_ends [OF I2 c2] s2(2) by (auto simp: in_round_def)
  then show ?thesis using q2 flush_run_trans by blast
qed

lemma idle_empty:
  assumes I: "inv ip msk s" and "flush s = Fl_sleep" and "current s = []"
  shows "pending s = []" "nodes (heap s) = {}"
proof -
  obtain tp xs tp' ys where ok: "heap_ok (heap s) (tables (sctx s) ! nat (active_idx (sctx s))) tp xs None tp' ys"
    and abs: "table_abs (heap s) xs = window ip msk (current s)" and fl: "flush_ok ip msk s ys"
    using I assms(2) by (auto simp: inv_def tables_ok_def)
  show "pending s = []" using fl assms(2) by (simp add: flush_ok_def)
  have "xs = []" using abs assms(3) by (simp add: window_Nil)
  moreover have "ys = []" using heap_ok_empty_held [OF ok] by simp
  ultimately show "nodes (heap s) = {}" using ok by (simp add: heap_ok_def nodes_def)
qed

section \<open>Properties\<close>


lemma example_export:
  fixes ip msk :: u32
  shows
  "\<exists>s. reachable (main_init ip msk (Some 0) empty_mem) (Ok s) \<and> concat (windows s) = [example_udp_stats] \<and>
     accepted s = [example_udp_stats]"
proof -
  obtain s where s: "reachable (main_init ip msk (Some 0) empty_mem) (Ok s)" "capture s = Cap_loop"
    "accepted s = [example_udp_stats]" using example_packet by blast
  have I: "inv ip msk s" using reachable_inv [OF heap_empty_mem _ s(1)] by simp
  have "outside s" using s(2) by (simp add: outside_def)
  then obtain s' where s': "flush_run s s'" "flush s' = Fl_sleep" "current s' = []"
    using all_exported [OF I _ running_ok_reachable [OF s(1)]] by blast
  have I': "inv ip msk s'" by (rule flush_run_inv [OF s'(1) I])
  have "accepted s' = accepted s" using flush_run_keeps [OF s'(1)] by simp
  moreover have "concat (windows s') = accepted s'"
    using I' idle_empty(1) [OF I' s'(2,3)] s'(3) unfolding inv_def by simp
  moreover have "reachable (main_init ip msk (Some 0) empty_mem) (Ok s')"
    by (rule reachable_trans [OF flush_run_reachable [OF s'(1)] s(1)])
  ultimately show ?thesis using s(3) by auto
qed


section \<open>Where the messages come from\<close>

text \<open>A packet as the parser makes it from a captured frame.\<close>

definition from_frame :: "pkt_stats_t \<Rightarrow> bool" where
  "from_frame st \<longleftrightarrow> (\<exists>h bytes. captured h bytes \<and> parse_packet h bytes = Ok (Some st))"

lemma from_frameI: "captured h bytes \<Longrightarrow> parse_packet h bytes = Ok (Some st) \<Longrightarrow> from_frame st"
  unfolding from_frame_def by blast

definition frames_ok :: "sys \<Rightarrow> bool" where
  "frames_ok s \<longleftrightarrow> (\<forall>st \<in> set (accepted s). from_frame st) \<and>
     (\<forall>st. capture s = Cap_lock st \<or> capture s = Cap_critical st \<longrightarrow> from_frame st)"

lemma frames_ok_step: "step s (Ok s') \<Longrightarrow> frames_ok s \<Longrightarrow> frames_ok s'"
  by (erule step_on.cases;
      auto dest!: sym [of "Ok s'"] simp: frames_ok_def receive_def process_def swap_def start_export_def export_one_def
        set_mutex_def finish_window_def seq_eq_Ok_iff split: if_splits option.splits prod.splits;
      blast intro: from_frameI)

lemma frames_ok_reachable:
  "reachable (main_init ip msk rk m) r \<Longrightarrow> r = Ok s \<Longrightarrow> frames_ok s"
proof (induction arbitrary: s rule: reachable_on.induct)
  case reach_start
  then show ?case by (auto simp: frames_ok_def main_init_def)
next
  case (reach_step s1 r)
  then show ?case using frames_ok_step by blast
qed

text \<open>
  C9: every message handed to Kafka is the JSON record of one flow of one exported window: the
  aggregate of the packets with its key, of which there is at least one, and each of them is what the
  parser made of a captured frame.
\<close>

theorem messages_come_from_frames:
  assumes "heap_empty m" and "rk \<noteq> None" and "reachable (main_init ip msk rk m) (Ok s)"
    and "Producev t v \<in> set (calls s)"
  shows "t = topic_name \<and> (\<exists>w \<in> set (windows s). \<exists>k.
    v = json_payload (aggregate ip msk w k) \<and> packets_of k w \<noteq> [] \<and>
    set (packets_of k w) \<subseteq> {st. from_frame st})"
proof -
  have I: "inv ip msk s" using reachable_inv [OF assms(1-3)] by simp
  then have "Producev t v \<in> set (concat (map (export_calls ip msk) (windows s)))"
    using assms(4) by (simp add: inv_def)
  then obtain w where w: "w \<in> set (windows s)" "Producev t v \<in> set (export_calls ip msk w)" by auto
  then have "Producev t v \<in> set (messages (window ip msk w))"
    by (auto simp: export_calls_def split: if_splits)
  then obtain k where k: "k \<in> set (first_keys w)" "t = topic_name" "v = json_payload (aggregate ip msk w k)"
    by (auto simp: messages_def window_group_by)
  have "packets_of k w \<noteq> []" using k(1) by (auto simp: packets_of_def filter_empty_conv)
  moreover have "set (packets_of k w) \<subseteq> set (accepted s)"
    using I w(1) by (auto simp: inv_def packets_of_def)
  then have "set (packets_of k w) \<subseteq> {st. from_frame st}"
    using frames_ok_reachable [OF assms(3) refl] by (auto simp: frames_ok_def)
  ultimately show ?thesis using k w(1) by blast
qed

theorem messages_come_from_frames_witness:
  "\<exists>(s::sys) v. Producev topic_name v \<in> set (calls s) \<and> (\<exists>w \<in> set (windows s). \<exists>k.
     v = json_payload (aggregate 0x0A 0xFF w k) \<and> packets_of k w \<noteq> [])"
proof -
  obtain s where s: "reachable (main_init 0x0A 0xFF (Some 0) empty_mem) (Ok s)"
    "concat (windows s) = [example_udp_stats]" using example_export by blast
  have "inv 0x0A 0xFF s" using reachable_inv [OF heap_empty_mem _ s(1)] by simp
  then have c: "calls s = concat (map (export_calls 0x0A 0xFF) (windows s))" by (simp add: inv_def)
  have "example_udp_stats \<in> set (concat (windows s))" using s(2) by simp
  then obtain w where w: "w \<in> set (windows s)" "example_udp_stats \<in> set w" by auto
  then have ne: "w \<noteq> []" by auto
  then have "window 0x0A 0xFF w \<noteq> []" by simp
  then obtain f fs where "window 0x0A 0xFF w = f # fs" by (cases "window 0x0A 0xFF w") auto
  then have "Producev topic_name (json_payload f) \<in> set (export_calls 0x0A 0xFF w)"
    using ne by (simp add: export_calls_def messages_def)
  then have m: "Producev topic_name (json_payload f) \<in> set (calls s)" using w(1) by (auto simp: c)
  have e: "\<exists>w \<in> set (windows s). \<exists>k. json_payload f = json_payload (aggregate 0x0A 0xFF w k) \<and> packets_of k w \<noteq> []"
    using messages_come_from_frames [OF heap_empty_mem option.distinct(2) s(1) m] by blast
  show ?thesis using m e by blast
qed

end
