(* ===== verification/Debug_Print.thy ===== *)
theory Debug_Print
  imports Kafka_Client Parser
begin

text \<open>
  The two printing functions: \<open>debug_print_stats\<close> of parser.c and \<open>debug_print_flow_table\<close> of
  flow.c.  A function returns the strings it prints, one for each call of \<open>printf\<close>, as the bytes it
  writes; the box-drawing characters are their three UTF-8 bytes.
\<close>

section \<open>Padding and boxes\<close>

definition pad_right :: "nat \<Rightarrow> string \<Rightarrow> string" where
  "pad_right n s = s @ replicate (n - length s) (CHR '' '')"

definition pad_left :: "nat \<Rightarrow> string \<Rightarrow> string" where
  "pad_left n s = replicate (n - length s) (CHR '' '') @ s"

definition pad_zero :: "nat \<Rightarrow> string \<Rightarrow> string" where
  "pad_zero n s = replicate (n - length s) (CHR ''0'') @ s"

text \<open>\<open>%d\<close>, \<open>%06ld\<close> and \<open>%02x\<close>.\<close>

definition fmt_int :: "int \<Rightarrow> string" where
  "fmt_int x = (if x < 0 then CHR ''-'' # dec (nat (- x)) else dec (nat x))"

definition fmt_06ld :: "int \<Rightarrow> string" where
  "fmt_06ld x = (if x < 0 then CHR ''-'' # pad_zero 5 (dec (nat (- x))) else pad_zero 6 (dec (nat x)))"

definition hex_digit :: "nat \<Rightarrow> char" where
  "hex_digit n = (if n < 10 then char_of (48 + n) else char_of (87 + n))"

definition fmt_02x :: "u8 \<Rightarrow> string" where
  "fmt_02x w = [hex_digit (unat w div 16), hex_digit (unat w mod 16)]"

definition box :: "nat \<Rightarrow> string" where
  "box b = [CHR 0xE2, CHR 0x94, char_of b]"

definition hline :: "nat \<Rightarrow> string" where
  "hline n = concat (replicate n (box 0x80))"

definition vline :: string where "vline = box 0x82"
definition endl :: string where "endl = [CHR 0x0A]"

text \<open>A horizontal rule: the left corner, segments separated by a junction, the right corner.\<close>

fun segments :: "nat \<Rightarrow> nat list \<Rightarrow> string" where
  "segments j [] = []"
| "segments j [n] = hline n"
| "segments j (n # ns) = hline n @ box j @ segments j ns"

definition ruler :: "nat \<Rightarrow> nat \<Rightarrow> nat \<Rightarrow> nat list \<Rightarrow> string" where
  "ruler l j r ns = box l @ segments j ns @ box r @ endl"

section \<open>debug_print_stats\<close>

definition TH_PUSH :: u8 where "TH_PUSH = 0x08"
definition TH_URG :: u8 where "TH_URG = 0x20"

text \<open>The \<open>strcat\<close> calls on the 32-byte buffer \<open>flags_str\<close>.\<close>

definition flags_str :: "u8 \<Rightarrow> string" where
  "flags_str fl =
     (let s = '''';
          s = (if fl AND TH_SYN \<noteq> 0 then s @ ''SYN '' else s);
          s = (if fl AND TH_ACK \<noteq> 0 then s @ ''ACK '' else s);
          s = (if fl AND TH_FIN \<noteq> 0 then s @ ''FIN '' else s);
          s = (if fl AND TH_RST \<noteq> 0 then s @ ''RST '' else s);
          s = (if fl AND TH_PUSH \<noteq> 0 then s @ ''PSH '' else s)
      in if fl AND TH_URG \<noteq> 0 then s @ ''URG '' else s)"

text \<open>
  \<open>time_of\<close> stands for \<open>localtime\<close> and \<open>strftime\<close> with the format \<open>%H:%M:%S\<close>: the local time of
  day of a time in seconds.
\<close>

definition debug_print_stats :: "(int \<Rightarrow> string) \<Rightarrow> pkt_stats_t \<Rightarrow> string list" where
  "debug_print_stats time_of stats =
     (let k = pkt_key stats in
      [endl @ ruler 0x8C 0 0x90 [64],
       vline @ '' '' @ time_of (tv_sec (timestamp stats)) @ ''.'' @ fmt_06ld (tv_usec (timestamp stats)) @
         '' | Proto: '' @ pad_right 5 (proto_str (protocol k)) @ '' | Payload: '' @
         pad_right 5 (fmt_int (payload_size stats)) @ '' bytes          '' @ vline @ endl,
       ruler 0x9C 0 0xA4 [64],
       vline @ '' Flow: '' @ pad_left 15 (inet_ntop (src_ip k)) @ '':'' @ pad_right 5 (fmt_u (ntohs (src_port k))) @
         '' -> '' @ pad_left 15 (inet_ntop (dst_ip k)) @ '':'' @ pad_right 5 (fmt_u (ntohs (dst_port k))) @
         ''            '' @ vline @ endl] @
      (if protocol k = IPPROTO_TCP
       then [vline @ '' TCP Flags: ['' @ pad_right 24 (flags_str (tcp_flags stats)) @ ''] (0x'' @
               fmt_02x (tcp_flags stats) @ '')                    '' @ vline @ endl]
       else []) @
      [ruler 0x94 0 0x98 [64]])"

section \<open>debug_print_flow_table\<close>

text \<open>One row of the table: the eight cells of a flow, each in its column.\<close>

definition column_widths :: "nat list" where
  "column_widths = [46, 3, 5, 6, 8, 9, 12, 14]"

definition row :: "string list \<Rightarrow> string" where
  "row cells = concat (map (\<lambda>(n, c). vline @ '' '' @ pad_right n c @ '' '') (zip column_widths cells)) @
     vline @ endl"

definition full_row :: "string \<Rightarrow> string" where
  "full_row text = vline @ '' '' @ pad_right 124 text @ '' '' @ vline @ endl"

definition dump_cells :: "'a flow_stats_scheme \<Rightarrow> string list" where
  "dump_cells f =
     [snprintf 64 (inet_ntop (src_ip (key f)) @ '':'' @ fmt_u (ntohs (src_port (key f))) @ '' -> '' @
        inet_ntop (dst_ip (key f)) @ '':'' @ fmt_u (ntohs (dst_port (key f)))),
      get_dir_string (direction f), proto_str (protocol (key f)),
      fmt_u (packet_count f), fmt_u (byte_count f),
      snprintf 32 (fmt_u (min_packet_size f) @ ''/'' @ fmt_u (max_packet_size f)),
      snprintf 32 (fmt_1f (mean_iat f) @ '' us''),
      if protocol (key f) = IPPROTO_TCP
      then snprintf 32 (fmt_u (tcp_syn_count f) @ ''/'' @ fmt_u (tcp_ack_count f) @ ''/'' @
        fmt_u (tcp_fin_count f) @ ''/'' @ fmt_u (tcp_rst_count f))
      else snprintf 32 ''-'']"

definition dump_title :: "u32 \<Rightarrow> string" where
  "dump_title n = snprintf 128 (''DUMP DA TABELA DE FLUXOS (UTHASH) - Total de Fluxos Ativos: '' @ fmt_u n)"

definition segment_widths :: "nat list" where
  "segment_widths = [48, 5, 7, 8, 10, 11, 14, 16]"

definition dump_head :: "u32 \<Rightarrow> string list" where
  "dump_head n =
     [endl @ ruler 0x8C 0 0x90 [126], full_row (dump_title n), ruler 0x9C 0xAC 0xA4 segment_widths,
      row [''Fluxo (Origem -> Destino)'', ''Dir'', ''Proto'', ''Pkts'', ''Bytes'', ''Min/Max'', ''Mean IAT'',
        ''TCP (S/A/F/R)''],
      ruler 0x9C 0xBC 0xA4 segment_widths] @
     (if n = 0 then [full_row ''TABELA VAZIA''] else [])"

definition print_row :: "addr \<Rightarrow> string list \<Rightarrow> mem \<Rightarrow> (string list \<times> mem) outcome" where
  "print_row a out m = seq (load_flow (Some a) m) (\<lambda>f. Ok (out @ [row (dump_cells f)], m))"

definition debug_print_flow_table :: "ptr \<Rightarrow> mem \<Rightarrow> string list outcome" where
  "debug_print_flow_table table m =
     seq (HASH_COUNT table m) (\<lambda>num_flows.
     seq (HASH_ITER print_row table (dump_head num_flows) m) (\<lambda>(out, _).
     Ok (out @ [ruler 0x94 0xB4 0x98 segment_widths])))"

section \<open>Columns\<close>

text \<open>
  The columns a string takes: its printable ASCII bytes and the bytes that begin a longer UTF-8
  character.
\<close>

definition columns :: "string \<Rightarrow> nat" where
  "columns s = length (filter (\<lambda>c. (32::nat) \<le> of_char c \<and> of_char c < (127::nat) \<or> (192::nat) \<le> of_char c) s)"

definition ascii :: "string \<Rightarrow> bool" where
  "ascii s \<longleftrightarrow> list_all (\<lambda>c. (32::nat) \<le> of_char c \<and> of_char c < (127::nat)) s"

lemma columns_append [simp]: "columns (s @ t) = columns s + columns t"
  by (simp add: columns_def)

lemma columns_simps [simp]:
  "columns [] = 0"
  "columns (c # s) = (if (32::nat) \<le> of_char c \<and> of_char c < (127::nat) \<or> (192::nat) \<le> of_char c then 1 else 0) + columns s"
  by (simp_all add: columns_def)

lemma columns_ascii: "ascii s \<Longrightarrow> columns s = length s"
  unfolding columns_def ascii_def by (induction s) auto

lemma ascii_append [simp]: "ascii (s @ t) \<longleftrightarrow> ascii s \<and> ascii t"
  by (simp add: ascii_def)

lemma ascii_simps [simp]: "ascii []" "ascii (c # s) \<longleftrightarrow> (32::nat) \<le> of_char c \<and> of_char c < (127::nat) \<and> ascii s"
  by (simp_all add: ascii_def)

lemma ascii_replicate [simp]: "(32::nat) \<le> of_char c \<and> of_char c < (127::nat) \<Longrightarrow> ascii (replicate n c)"
  by (simp add: ascii_def list_all_iff)

lemma ascii_take: "ascii s \<Longrightarrow> ascii (take n s)"
  by (auto simp: ascii_def list_all_iff dest: in_set_takeD)

lemma ascii_dec [simp]: "ascii (dec n)"
  using dec_digits [of n] by (auto simp: ascii_def list_all_iff dest!: subsetD)

lemma ascii_texts [simp]:
  "ascii (inet_ntop a)" "ascii (fmt_1f x)" "ascii (proto_str p)" "ascii (get_dir_string d)"
  "ascii (fmt_int i)" "ascii (snprintf k s) \<longleftrightarrow> ascii (take (k - 1) s)"
  by (auto simp: inet_ntop_def fmt_1f_def Let_def proto_str_def fmt_int_def snprintf_def)
     (cases d; simp)

lemma columns_box [simp]: "128 \<le> b \<Longrightarrow> b < 192 \<Longrightarrow> columns (box b) = 1"
  by (simp add: columns_def box_def)

lemma columns_hline [simp]: "columns (hline n) = n"
proof (induction n)
  case 0
  then show ?case by (simp add: hline_def columns_def)
next
  case (Suc n)
  then show ?case by (simp add: hline_def)
qed

lemma columns_vline [simp]: "columns vline = 1"
  by (simp add: vline_def)

lemma columns_pad [simp]:
  "ascii s \<Longrightarrow> columns (pad_right n s) = max n (length s)"
  "ascii s \<Longrightarrow> columns (pad_left n s) = max n (length s)"
  "ascii s \<Longrightarrow> columns (pad_zero n s) = max n (length s)"
  by (simp_all add: pad_right_def pad_left_def pad_zero_def columns_ascii)

lemma columns_endl [simp]: "columns endl = 0"
  by (simp add: endl_def columns_def)

lemma columns_segments:
  "128 \<le> j \<Longrightarrow> j < 192 \<Longrightarrow> ns \<noteq> [] \<Longrightarrow> columns (segments j ns) = sum_list ns + (length ns - 1)"
  by (induction j ns rule: segments.induct) simp_all

lemma columns_ruler:
  assumes "128 \<le> l" "l < 192" "128 \<le> j" "j < 192" "128 \<le> r" "r < 192" "ns \<noteq> []"
  shows "columns (ruler l j r ns) = sum_list ns + length ns + 1"
  using assms columns_segments [OF assms(3,4,7)] by (cases ns) (simp_all add: ruler_def)

lemma columns_ruler_single:
  "128 \<le> l \<Longrightarrow> l < 192 \<Longrightarrow> 128 \<le> r \<Longrightarrow> r < 192 \<Longrightarrow> columns (ruler l 0 r [n]) = n + 2"
  by (simp add: ruler_def)

section \<open>Properties of the packet box\<close>

lemma flags_str_facts: "length (flags_str fl) \<le> 24" "ascii (flags_str fl)"
  by (simp_all add: flags_str_def Let_def)

lemma hex_digit_ascii: "n < 16 \<Longrightarrow> ascii [hex_digit n]"
  by (auto simp: hex_digit_def)

lemma fmt_02x_facts: "length (fmt_02x w) = 2" "ascii (fmt_02x w)"
proof -
  have "unat w < 256" using unsigned_less [of w, where ?'a = nat] by simp
  then have "unat w div 16 < 16" "unat w mod 16 < 16" by simp_all
  then show "ascii (fmt_02x w)" using hex_digit_ascii [of "unat w div 16"] hex_digit_ascii [of "unat w mod 16"]
    by (simp add: fmt_02x_def)
qed (simp add: fmt_02x_def)

lemma fmt_06ld_columns: "0 \<le> x \<Longrightarrow> x < 10 ^ 6 \<Longrightarrow> columns (fmt_06ld x) = 6"
  using length_dec [of "nat x" 6] by (simp add: fmt_06ld_def max_def nat_less_iff)

lemma fmt_int_length: "0 \<le> x \<Longrightarrow> x < 10 ^ 5 \<Longrightarrow> length (fmt_int x) \<le> 5"
  using length_dec [of "nat x" 5] by (simp add: fmt_int_def nat_less_iff)

lemma proto_str_length: "length (proto_str p) \<le> 5"
  by (simp add: proto_str_def)

text \<open>
  The box of a packet is not rectangular: its rules and its first line are the 66 columns
  the comment promises, for every packet the parser accepts, but the line of the flow and the
  line of the TCP flags are always 67.  The flags fill at most 24 bytes of their 32-byte buffer.
\<close>

theorem debug_print_stats_columns:
  assumes "ascii (time_of (tv_sec (timestamp st)))" and "length (time_of (tv_sec (timestamp st))) = 8"
    and "0 \<le> tv_usec (timestamp st)" and "tv_usec (timestamp st) < 10 ^ 6"
    and "0 \<le> payload_size st" and "payload_size st < 10 ^ 5"
  shows "map columns (debug_print_stats time_of st) =
    [66, 66, 66, 67] @ (if protocol (pkt_key st) = IPPROTO_TCP then [67] else []) @ [66] \<and>
    length (flags_str (tcp_flags st)) \<le> 24"
  using assms fmt_06ld_columns [OF assms(3,4)] fmt_int_length [OF assms(5,6)] proto_str_length
    length_fmt_u(2) length_inet_ntop flags_str_facts fmt_02x_facts
  by (simp add: debug_print_stats_def Let_def columns_ruler_single columns_ascii max.absorb1)

theorem debug_print_stats_columns_witness:
  "map columns (debug_print_stats (\<lambda>t. ''12:00:00'') example_udp_stats) = [66, 66, 66, 67, 66]"
  using debug_print_stats_columns [of "\<lambda>t. ''12:00:00''" example_udp_stats]
  by (simp add: example_udp_stats_def IPPROTO_TCP_def IPPROTO_UDP_def)

section \<open>Properties of the table dump\<close>

lemma length_snprintf: "length (snprintf n s) = min (n - 1) (length s)"
  by (simp add: snprintf_def)

lemma ascii_dump_cells: "list_all ascii (dump_cells f)"
  by (simp add: dump_cells_def ascii_take)

lemma columns_row:
  assumes "list_all ascii cs" "length cs = 8"
  shows "columns (row cs) =
    128 + sum_list (map (\<lambda>(n, c). length c - n) (zip column_widths cs))"
proof -
  obtain a b c d e f g h where cs: "cs = [a, b, c, d, e, f, g, h]"
    using assms(2) by (auto simp: length_Suc_conv numeral_eq_Suc)
  show ?thesis
    using assms(1) by (simp add: cs row_def column_widths_def columns_ascii max_def)
qed

lemma dump_fits:
  "length (dump_cells f ! 0) \<le> 46" "length (dump_cells f ! 1) \<le> 3" "length (dump_cells f ! 2) \<le> 5"
proof -
  show "length (dump_cells f ! 0) \<le> 46"
    using length_inet_ntop [of "src_ip (key f)"] length_inet_ntop [of "dst_ip (key f)"]
      length_fmt_u(2) [of "ntohs (src_port (key f))"] length_fmt_u(2) [of "ntohs (dst_port (key f))"]
    by (simp add: dump_cells_def snprintf_def)
  show "length (dump_cells f ! 1) \<le> 3" by (cases "direction f") (simp_all add: dump_cells_def)
  show "length (dump_cells f ! 2) \<le> 5" using proto_str_length by (simp add: dump_cells_def)
qed

lemma columns_full_row: "ascii s \<Longrightarrow> length s \<le> 124 \<Longrightarrow> columns (full_row s) = 128"
  by (simp add: full_row_def max.absorb1)

lemma dump_title_facts: "length (dump_title n) \<le> 124" "ascii (dump_title n)"
  using length_fmt_u(3) [of n] by (simp_all add: dump_title_def snprintf_def ascii_take)

lemma columns_dump_head: "list_all (\<lambda>l. columns l = 128) (dump_head n)"
  by (simp add: dump_head_def columns_full_row dump_title_facts columns_ruler columns_ruler_single
      columns_row segment_widths_def column_widths_def)

text \<open>
  The table dump: every line of the frame is the 126 columns and two borders the comment
  promises.  The row of a flow is as wide when its counters fit their columns; the flow,
  direction and protocol columns always fit, each of the other five widens the row by what it
  has too much, as the sizes of packets above 9999 bytes do.
\<close>

theorem dump_columns:
  "list_all (\<lambda>l. columns l = 128) (dump_head n) \<and>
   columns (ruler 0x94 0xB4 0x98 segment_widths) = 128 \<and>
   columns (row (dump_cells f)) = 128 + (length (fmt_u (packet_count f)) - 6) +
     (length (fmt_u (byte_count f)) - 8) + (length (dump_cells f ! 5) - 9) +
     (length (dump_cells f ! 6) - 12) + (length (dump_cells f ! 7) - 14) \<and>
   length (dump_cells f ! 5) = length (fmt_u (min_packet_size f)) + length (fmt_u (max_packet_size f)) + 1"
proof -
  have len: "length (dump_cells f) = 8" by (simp add: dump_cells_def)
  obtain a b c d e g h i where cs: "dump_cells f = [a, b, c, d, e, g, h, i]"
    using len by (auto simp: length_Suc_conv numeral_eq_Suc)
  have de: "d = fmt_u (packet_count f)" "e = fmt_u (byte_count f)" using cs by (simp_all add: dump_cells_def)
  have "columns (row (dump_cells f)) = 128 + (length d - 6) + (length e - 8) + (length g - 9) +
      (length h - 12) + (length i - 14)"
    using columns_row [OF ascii_dump_cells len] dump_fits [of f]
    by (simp add: cs column_widths_def)
  moreover have "length (dump_cells f ! 5) = length (fmt_u (min_packet_size f)) + length (fmt_u (max_packet_size f)) + 1"
    using length_fmt_u(2) [of "min_packet_size f"] length_fmt_u(2) [of "max_packet_size f"]
    by (simp add: dump_cells_def snprintf_def)
  ultimately show ?thesis
    using columns_dump_head by (simp add: cs de columns_ruler segment_widths_def)
qed

lemma dump_cells_stats_of [simp]: "dump_cells (stats_of f) = dump_cells f"
  by (simp add: dump_cells_def mean_iat_def)

lemma print_row_reads:
  "valid m a \<Longrightarrow> print_row a out m = Ok (out @ [row (dump_cells (stats_of (flow_at m a)))], m)"
  by (simp add: print_row_def run_simps)

text \<open>
  \<open>debug_print_flow_table\<close> on a table prints the title with the number of flows, one row
  for each record in insertion order, and the last rule; it changes nothing and never faults.
\<close>

theorem debug_print_flow_table_prints:
  assumes "table_rep m head xs" and "mem_wf m"
  shows "debug_print_flow_table head m =
    Ok (dump_head (of_nat (length xs)) @ map (\<lambda>f. row (dump_cells f)) (table_abs m xs) @
      [ruler 0x94 0xB4 0x98 segment_widths])"
proof -
  obtain tp where rep: "hash_rep m head tp xs" using assms(1) by (auto simp: table_rep_def)
  have "HASH_ITER print_row head (dump_head (of_nat (length xs))) m =
      Ok (fold (\<lambda>a out. out @ [row (dump_cells (stats_of (flow_at m a)))]) xs (dump_head (of_nat (length xs))), m)"
    by (rule HASH_ITER_read [OF rep assms(2)]) (use print_row_reads hash_rep_valid [OF rep] in auto)
  then show ?thesis
    by (simp add: debug_print_flow_table_def HASH_COUNT_correct [OF rep] fold_append_map table_abs_def)
qed

theorem debug_print_flow_table_prints_witness:
  "\<exists>head m. HASH_ADD None (Some 0) example_mem = Ok (head, m) \<and>
     debug_print_flow_table head m = Ok (dump_head 1 @ [row (dump_cells (stats_of (flow_at m 0))), ruler 0x94 0xB4 0x98 segment_widths])"
proof -
  obtain head m where t: "HASH_ADD None (Some 0) example_mem = Ok (head, m)" "table_rep m head [0]" "mem_wf m"
    using example_table by blast
  show ?thesis using t(1) debug_print_flow_table_prints [OF t(2,3)] by (auto simp: table_abs_def)
qed

end
