(* ===== verification/Flush_Timer.thy ===== *)
theory Flush_Timer
  imports Debug_Print
begin

text \<open>
  The clock of \<open>flush_worker\<close> (main.c): when its iterations begin.  What an iteration does to the
  tables and hands to Kafka is modelled in theory Sniffer; here it takes some time and finds a table
  or none.  The deadline \<open>next_flush\<close> is absolute and moves by one second an iteration, so the
  iterations fall on a grid of seconds from the start of the thread, and a late one does not move
  the grid: the theorem bounds the moment each iteration begins.

  \<open>clock_nanosleep\<close> is a parameter: the moment it returns, given the moment of the call and the
  deadline.  Its result is ignored by the code, so a signal may wake the thread early.
\<close>

section \<open>The loop\<close>

record timespec =
  ts_sec :: int
  ts_nsec :: int

definition nanos :: "timespec \<Rightarrow> int" where
  "nanos t = ts_sec t * 1000000000 + ts_nsec t"

text \<open>
  The local state of the thread, the clock in nanoseconds, and what it prints, a string for each
  call of \<open>printf\<close>.  \<open>begun\<close> is history: the moments at which the iterations began.
\<close>

record flush_state =
  next_flush :: timespec
  count_flushes :: u32
  clock :: int
  printed :: "string list"
  begun :: "int list"

type_synonym sleep_fn = "int \<Rightarrow> timespec \<Rightarrow> int"

text \<open>What one iteration meets: its duration in nanoseconds up to the sleep, and the table it swapped out.\<close>

type_synonym iteration = "nat \<times> ptr"

definition flush_start :: "timespec \<Rightarrow> flush_state" where
  "flush_start now = \<lparr>next_flush = now, count_flushes = 0, clock = nanos now, printed = [], begun = []\<rparr>"

definition tick_text :: "u32 \<Rightarrow> ptr \<Rightarrow> string list" where
  "tick_text count table_to_export =
     [endl @ ''[FLUSH THREAD] Tick '' @ fmt_int (sint count) @ '' '',
      if table_to_export \<noteq> None then ''- Exportando fluxos capturados!'' @ endl
      else ''- Sil'' @ [CHR 0xC3, CHR 0xAA] @ ''ncio na rede (Tabela vazia).'' @ endl]"

definition flush_pass :: "sleep_fn \<Rightarrow> iteration \<Rightarrow> flush_state \<Rightarrow> flush_state" where
  "flush_pass sleep it st =
     (case it of (duration, table_to_export) \<Rightarrow>
        let st = st\<lparr>begun := begun st @ [clock st]\<rparr>;
            st = st\<lparr>next_flush := (next_flush st)\<lparr>ts_sec := ts_sec (next_flush st) + 1\<rparr>\<rparr>;
            st = st\<lparr>count_flushes := count_flushes st + 1\<rparr>;
            st = st\<lparr>printed := printed st @ tick_text (count_flushes st) table_to_export\<rparr>;
            st = st\<lparr>clock := clock st + int duration\<rparr>
        in st\<lparr>clock := sleep (clock st) (next_flush st)\<rparr>)"

text \<open>The iterations for which \<open>is_running\<close> was set; the loop ends after the last of them.\<close>

fun flush_loop :: "sleep_fn \<Rightarrow> iteration list \<Rightarrow> flush_state \<Rightarrow> flush_state" where
  "flush_loop sleep [] st = st"
| "flush_loop sleep (it # its) st = flush_loop sleep its (flush_pass sleep it st)"

section \<open>The grid\<close>

lemma flush_loop_snoc: "flush_loop sleep (its @ [it]) st = flush_pass sleep it (flush_loop sleep its st)"
  by (induction its arbitrary: st) auto

lemma flush_pass_simps [simp]:
  "next_flush (flush_pass sleep it st) = (next_flush st)\<lparr>ts_sec := ts_sec (next_flush st) + 1\<rparr>"
  "count_flushes (flush_pass sleep it st) = count_flushes st + 1"
  "begun (flush_pass sleep it st) = begun st @ [clock st]"
  "clock (flush_pass sleep it st) =
     sleep (clock st + int (fst it)) ((next_flush st)\<lparr>ts_sec := ts_sec (next_flush st) + 1\<rparr>)"
  by (simp_all add: flush_pass_def Let_def split: prod.split)

lemma flush_start_simps [simp]:
  "next_flush (flush_start t) = t" "count_flushes (flush_start t) = 0"
  "clock (flush_start t) = nanos t" "begun (flush_start t) = []"
  by (simp_all add: flush_start_def)

text \<open>Whatever the sleeps do, the deadline after \<open>n\<close> iterations is \<open>n\<close> seconds after the start.\<close>

lemma next_flush_grid:
  "next_flush (flush_loop sleep its (flush_start t)) = t\<lparr>ts_sec := ts_sec t + int (length its)\<rparr>"
  "count_flushes (flush_loop sleep its (flush_start t)) = of_nat (length its)"
  "length (begun (flush_loop sleep its (flush_start t))) = length its"
  by (induction its rule: rev_induct) (simp_all add: flush_loop_snoc add.assoc)

lemma begun_nth:
  "k < length its \<Longrightarrow>
     begun (flush_loop sleep its (flush_start t)) ! k = clock (flush_loop sleep (take k its) (flush_start t))"
proof (induction its rule: rev_induct)
  case (snoc it its)
  then show ?case
    by (cases "k = length its") (simp_all add: flush_loop_snoc nth_append next_flush_grid(3))
qed simp

abbreviation second :: int where "second \<equiv> 1000000000"

text \<open>
  The contract of \<open>clock_nanosleep\<close> with \<open>TIMER_ABSTIME\<close> while no signal arrives: it does not return
  before the deadline.  It may return later; \<open>late_by l\<close> says by how much at most.
\<close>

definition sleeps :: "sleep_fn \<Rightarrow> bool" where
  "sleeps sleep \<longleftrightarrow> (\<forall>now d. max now (nanos d) \<le> sleep now d)"

definition late_by :: "nat \<Rightarrow> sleep_fn \<Rightarrow> bool" where
  "late_by l sleep \<longleftrightarrow> (\<forall>now d. sleep now d \<le> max now (nanos d) + int l)"

text \<open>
  The moment iteration \<open>k\<close> begins: it waits for its place on the grid and for the iterations before it,
  so it begins at the latest moment that an earlier place on the grid and the work done since give.
\<close>

definition begin_of :: "timespec \<Rightarrow> iteration list \<Rightarrow> nat \<Rightarrow> int" where
  "begin_of t its k =
     Max ((\<lambda>j. nanos t + int j * second + (\<Sum>i = j..<k. int (fst (its ! i)))) ` {..k})"

lemma begin_of_0 [simp]: "begin_of t its 0 = nanos t"
  by (simp add: begin_of_def)

lemma begin_of_Suc:
  "begin_of t its (Suc k) = max (begin_of t its k + int (fst (its ! k))) (nanos t + int (Suc k) * second)"
proof -
  let ?f = "\<lambda>k j. nanos t + int j * second + (\<Sum>i = j..<k. int (fst (its ! i)))"
  let ?w = "int (fst (its ! k))"
  have "?f (Suc k) ` {..k} = (\<lambda>x. x + ?w) ` ?f k ` {..k}"
    unfolding image_image by (intro image_cong refl) simp
  moreover have "Max ((\<lambda>x. x + ?w) ` ?f k ` {..k}) = Max (?f k ` {..k}) + ?w"
    by (rule mono_Max_commute [symmetric]) (auto simp: mono_def)
  ultimately have "Max (?f (Suc k) ` {..k}) = begin_of t its k + ?w" by (simp add: begin_of_def)
  moreover have "begin_of t its (Suc k) = max (?f (Suc k) (Suc k)) (Max (?f (Suc k) ` {..k}))"
    unfolding begin_of_def atMost_Suc image_insert by (rule Max_insert) auto
  ultimately show ?thesis by (simp add: max.commute)
qed

lemma begin_of_append: "k \<le> length its \<Longrightarrow> begin_of t (its @ js) k = begin_of t its k"
  unfolding begin_of_def by (intro arg_cong [where f = Max] image_cong refl) (simp add: nth_append)

lemma nanos_Suc:
  "nanos (t\<lparr>ts_sec := ts_sec t + int n + 1\<rparr>) = nanos t + int (Suc n) * second"
  by (simp add: nanos_def algebra_simps)

lemma clock_snoc:
  "clock (flush_loop sleep (its @ [it]) (flush_start t)) =
     sleep (clock (flush_loop sleep its (flush_start t)) + int (fst it)) (t\<lparr>ts_sec := ts_sec t + int (length its) + 1\<rparr>)"
  by (simp add: flush_loop_snoc next_flush_grid)

lemma clock_at_least:
  assumes "sleeps sleep"
  shows "begin_of t its (length its) \<le> clock (flush_loop sleep its (flush_start t))"
proof (induction its rule: rev_induct)
  case (snoc it its)
  let ?c = "clock (flush_loop sleep its (flush_start t))"
  have "max (?c + int (fst it)) (nanos t + int (Suc (length its)) * second) \<le>
      clock (flush_loop sleep (its @ [it]) (flush_start t))"
    unfolding clock_snoc nanos_Suc [symmetric] using assms by (simp only: sleeps_def)
  moreover have "begin_of t (its @ [it]) (length (its @ [it])) =
      max (begin_of t its (length its) + int (fst it)) (nanos t + int (Suc (length its)) * second)"
    by (simp add: begin_of_Suc begin_of_append)
  ultimately show ?case using snoc.IH by simp
qed simp

lemma clock_at_most:
  assumes "late_by l sleep"
  shows "clock (flush_loop sleep its (flush_start t)) \<le> begin_of t (map (apfst ((+) l)) its) (length its) + int l"
proof (induction its rule: rev_induct)
  case (snoc it its)
  let ?c = "clock (flush_loop sleep its (flush_start t))" and ?m = "map (apfst ((+) l))"
  have "clock (flush_loop sleep (its @ [it]) (flush_start t)) \<le>
      max (?c + int (fst it)) (nanos t + int (Suc (length its)) * second) + int l"
    unfolding clock_snoc nanos_Suc [symmetric] using assms by (simp only: late_by_def)
  moreover have "begin_of t (?m (its @ [it])) (length (its @ [it])) =
      max (begin_of t (?m its) (length its) + int l + int (fst it)) (nanos t + int (Suc (length its)) * second)"
    by (cases it) (simp add: begin_of_Suc begin_of_append nth_append)
  ultimately show ?case using snoc.IH by simp
qed simp

lemma begin_of_light:
  assumes "\<forall>it \<in> set its. int (fst it) \<le> second" and "k \<le> length its"
  shows "begin_of t its k = nanos t + int k * second"
  using assms(2)
proof (induction k)
  case (Suc k)
  then have "int (fst (its ! k)) \<le> second" using assms(1) by simp
  then show ?case using Suc by (simp add: begin_of_Suc)
qed simp

section \<open>Properties\<close>

text \<open>
  C18: the flush thread does not drift, as long as no signal interrupts a sleep.  Iteration \<open>k\<close> never
  begins before its place on the grid, \<open>k\<close> seconds after the start, nor before an earlier place and the
  work since then allow.  When the sleeps return at most \<open>l\<close> late, it begins at most \<open>l\<close> after the moment
  those bounds give with \<open>l\<close> added to the work of each iteration: the lateness of the sleeps does
  not add up from iteration to iteration, and an iteration that takes long delays those after it only
  until the lost time is made up.  If no iteration with \<open>l\<close> added takes more than a second, then for
  every \<open>k\<close> iteration \<open>k\<close> begins within \<open>l\<close> of its place on the grid.
\<close>

theorem flush_thread_keeps_the_grid:
  assumes "sleeps sleep" and "k < length its" and "b = begun (flush_loop sleep its (flush_start t)) ! k"
  shows "nanos t + int k * second \<le> b \<and>
    Max ((\<lambda>j. nanos t + int j * second + (\<Sum>i = j..<k. int (fst (its ! i)))) ` {..k}) \<le> b \<and>
    (\<forall>l. late_by l sleep \<longrightarrow>
      b \<le> Max ((\<lambda>j. nanos t + int j * second + (\<Sum>i = j..<k. int (fst (its ! i)) + int l)) ` {..k}) + int l \<and>
      ((\<forall>it \<in> set its. int (fst it) + int l \<le> second) \<longrightarrow> b \<le> nanos t + int k * second + int l))"
proof -
  let ?m = "\<lambda>l. map (apfst ((+) l))"
  have b: "b = clock (flush_loop sleep (take k its) (flush_start t))"
    using begun_nth [OF assms(2)] assms(3) by simp
  have tk: "length (take k its) = k" "begin_of t (take k its) k = begin_of t its k"
    using begin_of_append [of k "take k its" t "drop k its"] assms(2) by simp_all
  have low: "begin_of t its k \<le> b"
    using clock_at_least [OF assms(1), of t "take k its"] by (simp only: b tk)
  have grid: "nanos t + int k * second \<le> begin_of t its k"
    unfolding begin_of_def by (rule Max_ge) (auto intro: image_eqI [of _ _ k])
  have late: "begin_of t (?m l its) k =
      Max ((\<lambda>j. nanos t + int j * second + (\<Sum>i = j..<k. int (fst (its ! i)) + int l)) ` {..k})" for l
    unfolding begin_of_def using assms(2)
    by (intro arg_cong [where f = Max] image_cong refl arg_cong2 [where f = plus] sum.cong) auto
  have up: "b \<le> begin_of t (?m l its) k + int l" if "late_by l sleep" for l
  proof -
    have "begin_of t (?m l (take k its)) k = begin_of t (?m l its) k"
      using begin_of_append [of k "?m l (take k its)" t "?m l (drop k its)"] assms(2) by (simp flip: map_append)
    then show ?thesis using clock_at_most [OF that, of "take k its" t] by (simp only: b tk)
  qed
  have light: "begin_of t (?m l its) k = nanos t + int k * second"
    if "\<forall>it \<in> set its. int (fst it) + int l \<le> second" for l
    using that assms(2) by (intro begin_of_light) auto
  show ?thesis
  proof (intro conjI allI impI)
    show "nanos t + int k * second \<le> b" using grid low by linarith
    show "Max ((\<lambda>j. nanos t + int j * second + (\<Sum>i = j..<k. int (fst (its ! i)))) ` {..k}) \<le> b"
      using low by (simp only: begin_of_def)
    show "b \<le> Max ((\<lambda>j. nanos t + int j * second + (\<Sum>i = j..<k. int (fst (its ! i)) + int l)) ` {..k}) + int l"
      if "late_by l sleep" for l
      using up [OF that] by (simp only: late)
    show "b \<le> nanos t + int k * second + int l"
      if "late_by l sleep" "\<forall>it \<in> set its. int (fst it) + int l \<le> second" for l
      using up [OF that(1)] light [OF that(2)] by linarith
  qed
qed

text \<open>
  A second and a half of work in the first iteration delays the second; the third is back on the grid.
  With sleeps that end seven nanoseconds late each iteration of a long run begins seven late.
\<close>

theorem flush_thread_keeps_the_grid_witness:
  "begun (flush_loop (\<lambda>now d. max now (nanos d)) [(1500000000, Some 0), (300000000, None), (0, None)]
     (flush_start \<lparr>ts_sec = 10, ts_nsec = 0\<rparr>)) = [10000000000, 11500000000, 12000000000] \<and>
   begun (flush_loop (\<lambda>now d. max now (nanos d) + 7) (replicate 100 (1000, None))
     (flush_start \<lparr>ts_sec = 10, ts_nsec = 5\<rparr>)) ! 99 \<in> {109000000005..109000000012}"
proof
  show "begun (flush_loop (\<lambda>now d. max now (nanos d)) [(1500000000, Some 0), (300000000, None), (0, None)]
     (flush_start \<lparr>ts_sec = 10, ts_nsec = 0\<rparr>)) = [10000000000, 11500000000, 12000000000]"
    by (simp add: nanos_def)
  have "sleeps (\<lambda>now d. max now (nanos d) + 7)" "late_by 7 (\<lambda>now d. max now (nanos d) + 7)"
    by (simp_all add: sleeps_def late_by_def)
  then show "begun (flush_loop (\<lambda>now d. max now (nanos d) + 7) (replicate 100 (1000, None))
     (flush_start \<lparr>ts_sec = 10, ts_nsec = 5\<rparr>)) ! 99 \<in> {109000000005..109000000012}"
    using flush_thread_keeps_the_grid [of "\<lambda>now d. max now (nanos d) + 7" 99 "replicate 100 (1000, None)",
        OF _ _ refl, of "\<lparr>ts_sec = 10, ts_nsec = 5\<rparr>"]
    by (auto simp: nanos_def simp del: flush_loop.simps dest!: spec [of _ 7])
qed

end
