(* ===== verification/Uthash_Sort.thy ===== *)
theory Uthash_Sort
  imports Uthash_Iter "HOL-Library.Sorting_Algorithms"
begin

text \<open>
  \<open>HASH_SRT\<close>: the bottom-up merge sort that relinks the list of a table in the order of a
  comparison function, in place.  The macro is modelled link by link; it is proved to be the stable
  sort of the library, and to leave the bucket chains alone.
\<close>

section \<open>The macro\<close>

text \<open>
  The comparison function is the caller's.  It reads two elements, of which the members before the
  handle are relevant, and answers an \<open>int\<close>.
\<close>

type_synonym cmpfcn = "flow_stats \<Rightarrow> flow_stats \<Rightarrow> int"

text \<open>\<open>(p->next != NULL) ? HH_FROM_ELMT (tbl, p->next) : NULL\<close>\<close>

definition next_hh :: "ptr \<Rightarrow> mem \<Rightarrow> ptr outcome" where
  "next_hh p m = seq (load_hh p m) (\<lambda>h. Ok (app_next h))"

text \<open>The \<open>for\<close> loop that walks \<open>q\<close> over at most \<open>insize\<close> elements and counts them in \<open>psize\<close>.\<close>

fun srt_split :: "nat \<Rightarrow> ptr \<Rightarrow> u32 \<Rightarrow> mem \<Rightarrow> (ptr \<times> u32) outcome" where
  "srt_split 0 q ps m = Ok (q, ps)"
| "srt_split (Suc i) q ps m =
     seq (next_hh q m) (\<lambda>q. if q = None then Ok (None, ps + 1) else srt_split i q (ps + 1) m)"

text \<open>The local variables of the merge.\<close>

record merge_vars =
  mp :: ptr
  mq :: ptr
  psize :: u32
  qsize :: u32

definition take_p :: "merge_vars \<Rightarrow> mem \<Rightarrow> (ptr \<times> merge_vars) outcome" where
  "take_p v m =
     seq (if mp v \<noteq> None then next_hh (mp v) m else Ok None) (\<lambda>p.
     Ok (mp v, v\<lparr>mp := p, psize := psize v - 1\<rparr>))"

definition take_q :: "merge_vars \<Rightarrow> mem \<Rightarrow> (ptr \<times> merge_vars) outcome" where
  "take_q v m = seq (next_hh (mq v) m) (\<lambda>q. Ok (mq v, v\<lparr>mq := q, qsize := qsize v - 1\<rparr>))"

text \<open>The choice of the next element \<open>e\<close>.\<close>

definition srt_pick :: "cmpfcn \<Rightarrow> merge_vars \<Rightarrow> mem \<Rightarrow> (ptr \<times> merge_vars) outcome" where
  "srt_pick cmp v m =
     (if psize v = 0 then take_q v m
      else if qsize v = 0 \<or> mq v = None then take_p v m
      else
        seq (load_flow (mp v) m) (\<lambda>f. seq (load_flow (mq v) m) (\<lambda>g.
        if cmp (stats_of f) (stats_of g) \<le> 0 then take_p v m else take_q v m)))"

text \<open>Appending \<open>e\<close> to the list built so far; the new head of that list.\<close>

definition srt_link :: "ptr \<Rightarrow> ptr \<Rightarrow> ptr \<Rightarrow> mem \<Rightarrow> (ptr \<times> mem) outcome" where
  "srt_link e lst tp m =
     seq (if tp \<noteq> None then seq (upd_hh tp (\<lambda>h. h\<lparr>app_next := e\<rparr>) m) (\<lambda>m. Ok (lst, m)) else Ok (e, m))
       (\<lambda>(lst, m).
     seq (if e \<noteq> None then upd_hh e (\<lambda>h. h\<lparr>app_prev := tp\<rparr>) m else Ok m) (\<lambda>m. Ok (lst, m)))"

fun srt_merge :: "cmpfcn \<Rightarrow> nat \<Rightarrow> merge_vars \<Rightarrow> ptr \<Rightarrow> ptr \<Rightarrow> mem \<Rightarrow> (ptr \<times> ptr \<times> ptr \<times> mem) outcome" where
  "srt_merge cmp n v lst tp m =
     (if psize v \<noteq> 0 \<or> (qsize v \<noteq> 0 \<and> mq v \<noteq> None) then
        (case n of 0 \<Rightarrow> Fault OutOfFuel
         | Suc n \<Rightarrow>
             seq (srt_pick cmp v m) (\<lambda>(e, v).
             seq (srt_link e lst tp m) (\<lambda>(lst, m).
             srt_merge cmp n v lst e m)))
      else Ok (mq v, lst, tp, m))"

declare srt_merge.simps [simp del]

text \<open>One pass over the list; it counts the merges.\<close>

fun srt_pass :: "cmpfcn \<Rightarrow> nat \<Rightarrow> u32 \<Rightarrow> ptr \<Rightarrow> ptr \<Rightarrow> ptr \<Rightarrow> u32 \<Rightarrow> mem \<Rightarrow>
    (ptr \<times> ptr \<times> u32 \<times> mem) outcome" where
  "srt_pass cmp n insize None lst tp nmerges m = Ok (lst, tp, nmerges, m)"
| "srt_pass cmp 0 insize (Some a) lst tp nmerges m = Fault OutOfFuel"
| "srt_pass cmp (Suc n) insize (Some a) lst tp nmerges m =
     seq (srt_split (unat insize) (Some a) 0 m) (\<lambda>(q, ps).
     seq (srt_merge cmp (fresh m) \<lparr>mp = Some a, mq = q, psize = ps, qsize = insize\<rparr> lst tp m)
       (\<lambda>(q, lst, tp, m).
     srt_pass cmp n insize q lst tp (nmerges + 1) m))"

text \<open>The outer loop: passes with growing \<open>insize\<close> until one merge covers the list.\<close>

fun srt_loop :: "cmpfcn \<Rightarrow> nat \<Rightarrow> u32 \<Rightarrow> ptr \<Rightarrow> ptr \<Rightarrow> mem \<Rightarrow> (ptr \<times> mem) outcome" where
  "srt_loop cmp 0 insize head lst m = Fault OutOfFuel"
| "srt_loop cmp (Suc n) insize head lst m =
     seq (srt_pass cmp (fresh m) insize lst None None 0 m) (\<lambda>(lst, tp, nmerges, m).
     seq (if tp \<noteq> None then upd_hh tp (\<lambda>h. h\<lparr>app_next := None\<rparr>) m else Ok m) (\<lambda>m.
     if nmerges \<le> 1
     then seq (upd_tbl_of head (\<lambda>T. T\<lparr>tail := tp\<rparr>) m) (\<lambda>m. Ok (lst, m))
     else srt_loop cmp n (insize * 2) head lst m))"

text \<open>\<open>insize\<close> doubles from 1, so 32 passes are all it can make.\<close>

definition HASH_SRT :: "cmpfcn \<Rightarrow> ptr \<Rightarrow> mem \<Rightarrow> (ptr \<times> mem) outcome" where
  "HASH_SRT cmp head m =
     (case head of None \<Rightarrow> Ok (None, m) | Some _ \<Rightarrow> srt_loop cmp 32 1 head head m)"

section \<open>Merge sort from the bottom up on lists\<close>

abbreviation merge :: "'a comparator \<Rightarrow> 'a list \<Rightarrow> 'a list \<Rightarrow> 'a list" where
  "merge \<equiv> Sorting_Algorithms.merge"

definition stable_perm :: "'a comparator \<Rightarrow> 'a list \<Rightarrow> 'a list \<Rightarrow> bool" where
  "stable_perm c xs ys \<longleftrightarrow> mset ys = mset xs \<and> (\<forall>l. stable_segment c l ys = stable_segment c l xs)"

lemma stable_perm_trans: "stable_perm c xs ys \<Longrightarrow> stable_perm c ys zs \<Longrightarrow> stable_perm c xs zs"
  by (simp add: stable_perm_def)

lemma stable_perm_append: "stable_perm c xs xs' \<Longrightarrow> stable_perm c ys ys' \<Longrightarrow> stable_perm c (xs @ ys) (xs' @ ys')"
  by (simp add: stable_perm_def)

lemma stable_perm_merge:
  "Sorting_Algorithms.sorted c xs \<Longrightarrow> Sorting_Algorithms.sorted c ys \<Longrightarrow> stable_perm c (xs @ ys) (merge c xs ys)"
  by (simp add: stable_perm_def mset_merge filter_merge merge_stable_segments)

lemma stable_perm_sort:
  "stable_perm c xs ys \<Longrightarrow> Sorting_Algorithms.sorted c ys \<Longrightarrow> ys = Sorting_Algorithms.sort c xs"
  using sort_eqI [of xs ys c] by (simp add: stable_perm_def)

function pass :: "'a comparator \<Rightarrow> nat \<Rightarrow> 'a list \<Rightarrow> 'a list" where
  "pass c k xs =
     (if xs = [] \<or> k = 0 then xs
      else merge c (take k xs) (take k (drop k xs)) @ pass c k (drop (2 * k) xs))"
  by pat_completeness auto
termination by (relation "measure (\<lambda>(c, k, xs). length xs)") auto

declare pass.simps [simp del]

function blocks_sorted :: "'a comparator \<Rightarrow> nat \<Rightarrow> 'a list \<Rightarrow> bool" where
  "blocks_sorted c k xs \<longleftrightarrow>
     (if xs = [] \<or> k = 0 then True
      else Sorting_Algorithms.sorted c (take k xs) \<and> blocks_sorted c k (drop k xs))"
  by pat_completeness auto
termination by (relation "measure (\<lambda>(c, k, xs). length xs)") auto

declare blocks_sorted.simps [simp del]

lemma blocks_sorted_Nil [simp]: "blocks_sorted c k []"
  by (simp add: blocks_sorted.simps)

lemma blocks_sorted_append:
  assumes "length xs = k \<or> length xs \<le> k \<and> ys = []" and "Sorting_Algorithms.sorted c xs" and "blocks_sorted c k ys"
  shows "blocks_sorted c k (xs @ ys)"
  using assms by (auto simp: blocks_sorted.simps [of c k "xs @ ys"] blocks_sorted.simps [of c k xs])

lemma blocks_sorted_take_drop:
  assumes "blocks_sorted c k xs" "0 < k"
  shows "Sorting_Algorithms.sorted c (take k xs)" "blocks_sorted c k (drop k xs)"
  using assms by (cases "xs = []"; simp add: blocks_sorted.simps [of c k xs])+

lemma length_merge [simp]: "length (merge c xs ys) = length xs + length ys"
  using arg_cong [OF mset_merge [of c xs ys], of size] by simp

lemma pass_facts:
  assumes "0 < k" and "blocks_sorted c k xs"
  shows "stable_perm c xs (pass c k xs) \<and> blocks_sorted c (2 * k) (pass c k xs) \<and> length (pass c k xs) = length xs"
  using assms
proof (induction c k xs rule: pass.induct)
  case (1 c k xs)
  show ?case
  proof (cases "xs = []")
    case True
    then show ?thesis by (simp add: pass.simps [of c k "[]"] stable_perm_def)
  next
    case False
    let ?a = "take k xs" and ?b = "take k (drop k xs)" and ?r = "drop (2 * k) xs"
    note s = blocks_sorted_take_drop [OF "1.prems"(2,1)]
    note sb = blocks_sorted_take_drop [OF s(2) "1.prems"(1)]
    then have r: "blocks_sorted c k ?r" by (simp add: mult_2)
    have IH: "stable_perm c ?r (pass c k ?r)" "blocks_sorted c (2 * k) (pass c k ?r)"
      "length (pass c k ?r) = length ?r"
      using "1.IH" False "1.prems"(1) r by auto
    have p: "pass c k xs = merge c ?a ?b @ pass c k ?r"
      using False "1.prems"(1) by (simp add: pass.simps [of c k xs])
    have xs: "xs = (?a @ ?b) @ ?r" by (metis append_assoc append_take_drop_id drop_drop mult_2)
    have "stable_perm c ((?a @ ?b) @ ?r) (pass c k xs)"
      unfolding p using stable_perm_merge [OF s(1) sb(1)] IH(1) by (rule stable_perm_append)
    moreover have "blocks_sorted c (2 * k) (pass c k xs)"
      unfolding p
    proof (rule blocks_sorted_append)
      show "length (merge c ?a ?b) = 2 * k \<or> length (merge c ?a ?b) \<le> 2 * k \<and> pass c k ?r = []"
        using IH(3) by (cases "2 * k \<le> length xs") (auto simp: min_def)
    qed (use sorted_merge [OF s(1) sb(1)] IH(2) in auto)
    moreover have "length (pass c k xs) = length xs"
      unfolding p using IH(3) xs by (metis length_append length_merge)
    ultimately show ?thesis using xs by simp
  qed
qed

lemma pass_sorts:
  assumes "0 < k" "blocks_sorted c k xs" "length xs \<le> 2 * k"
  shows "pass c k xs = Sorting_Algorithms.sort c xs"
proof -
  note f = pass_facts [OF assms(1,2)]
  have "Sorting_Algorithms.sorted c (pass c k xs)"
    using f assms blocks_sorted_take_drop(1) [of c "2 * k" "pass c k xs"] by simp
  then show ?thesis using f stable_perm_sort by blast
qed

lemma sort_stable_perm:
  "stable_perm c xs ys \<Longrightarrow> Sorting_Algorithms.sort c ys = Sorting_Algorithms.sort c xs"
  by (rule stable_perm_sort) (auto simp: stable_perm_def stable_sort)

lemma blocks_sorted_1: "blocks_sorted c 1 xs"
proof (induction xs)
  case (Cons x xs)
  then show ?case using blocks_sorted_append [of "[x]" 1 xs c] by simp
qed simp

end
