(* ===== verification/Uthash_Sort_Correct.thy ===== *)
theory Uthash_Sort_Correct
  imports Uthash_Sort
begin

text \<open>
  \<open>HASH_SRT\<close> on a table: the list is relinked in the order of the stable sort, nothing but the
  two list links of the elements and the tail of the table changes.
\<close>

section \<open>Linked lists\<close>

abbreviation nx :: "mem \<Rightarrow> addr \<Rightarrow> ptr" where "nx m a \<equiv> app_next (hh_at m a)"
abbreviation pv :: "mem \<Rightarrow> addr \<Rightarrow> ptr" where "pv m a \<equiv> app_prev (hh_at m a)"

text \<open>\<open>links n p xs q\<close>: following \<open>n\<close> from \<open>p\<close> one meets \<open>xs\<close> and arrives at \<open>q\<close>.\<close>

fun links :: "(addr \<Rightarrow> ptr) \<Rightarrow> ptr \<Rightarrow> addr list \<Rightarrow> ptr \<Rightarrow> bool" where
  "links n p [] q \<longleftrightarrow> p = q"
| "links n p (a # xs) q \<longleftrightarrow> p = Some a \<and> links n (n a) xs q"

lemma links_cong: "(\<And>a. a \<in> set xs \<Longrightarrow> n' a = n a) \<Longrightarrow> links n' p xs q = links n p xs q"
  by (induction xs arbitrary: p) auto

lemma links_append: "links n p (xs @ ys) q \<longleftrightarrow> (\<exists>r. links n p xs r \<and> links n r ys q)"
  by (induction xs arbitrary: p) auto

lemma links_hd: "links n p xs None \<Longrightarrow> p = hd_opt xs"
  by (cases xs) auto

lemma links_next_in:
  "links n p xs None \<Longrightarrow> distinct xs \<Longrightarrow> a \<in> set xs \<Longrightarrow> n a = next_in xs a"
  by (induction xs arbitrary: p) (auto dest: links_hd)

lemma next_in_links:
  "(\<And>a. a \<in> set xs \<Longrightarrow> n a = next_in xs a) \<Longrightarrow> distinct xs \<Longrightarrow> links n (hd_opt xs) xs None"
proof (induction xs)
  case (Cons x xs)
  have "links n (hd_opt xs) xs None"
  proof (rule Cons.IH)
    show "n a = next_in xs a" if "a \<in> set xs" for a
      using Cons.prems that by (metis distinct.simps(2) list.set_intros(2) next_in.simps(2))
  qed (use Cons.prems in simp)
  then show ?case using Cons.prems(1) [of x] by simp
qed simp

text \<open>A list under construction: linked both ways, but for the link after its last element.\<close>

definition outs :: "mem \<Rightarrow> addr list \<Rightarrow> bool" where
  "outs m os \<longleftrightarrow> (\<forall>a \<in> set os. pv m a = prev_in os a \<and> (Some a = last_opt os \<or> nx m a = next_in os a))"

section \<open>What may change\<close>

definition unlinked :: "UT_hash_handle \<Rightarrow> UT_hash_handle" where
  "unlinked h = h\<lparr>app_next := None, app_prev := None\<rparr>"

text \<open>\<open>relists A m m'\<close>: only the list links of the elements in \<open>A\<close> differ.\<close>

definition relists :: "addr set \<Rightarrow> mem \<Rightarrow> mem \<Rightarrow> bool" where
  "relists A m m' \<longleftrightarrow>
     tbls m' = tbls m \<and> fresh m' = fresh m \<and> max_block m' = max_block m \<and> budget m' = budget m \<and>
     (\<forall>a. a \<notin> A \<longrightarrow> flows m' a = flows m a) \<and>
     (\<forall>a. valid m' a = valid m a \<and> stats_of (flow_at m' a) = stats_of (flow_at m a) \<and>
        unlinked (hh_at m' a) = unlinked (hh_at m a))"

lemma relists_refl [simp]: "relists A m m"
  by (simp add: relists_def)

lemma relists_trans: "relists A m m' \<Longrightarrow> relists A m' m'' \<Longrightarrow> relists A m m''"
  by (simp add: relists_def)

lemma relists_mono: "relists A m m' \<Longrightarrow> A \<subseteq> B \<Longrightarrow> relists B m m'"
  by (auto simp: relists_def)

lemma relists_set_hh:
  assumes "a \<in> A" "valid m a" "unlinked (g (hh_at m a)) = unlinked (hh_at m a)"
  shows "relists A m (set_hh a g m)"
  using assms by (auto simp: relists_def set_rules intro!: set_hh_simps(5))

lemma relists_valid: "relists A m m' \<Longrightarrow> valid m' a = valid m a"
  by (simp add: relists_def)

lemma unlinked_eqD:
  assumes "unlinked h = unlinked h'"
  shows "tbl h = tbl h'" "hh_prev h = hh_prev h'" "hh_next h = hh_next h'" "keyptr h = keyptr h'"
    "keylen h = keylen h'" "hashv h = hashv h'"
  using assms by (cases h; cases h'; simp add: unlinked_def)+

section \<open>Appending one element\<close>

definition link_mem :: "addr list \<Rightarrow> addr \<Rightarrow> mem \<Rightarrow> mem" where
  "link_mem os e m =
     set_hh e (\<lambda>h. h\<lparr>app_prev := last_opt os\<rparr>)
       (case last_opt os of None \<Rightarrow> m | Some t \<Rightarrow> set_hh t (\<lambda>h. h\<lparr>app_next := Some e\<rparr>) m)"

lemma link_mem_at:
  "nx (link_mem os e m) b = (if last_opt os = Some b then Some e else nx m b)"
  "pv (link_mem os e m) b = (if b = e then last_opt os else pv m b)"
  by (auto simp: link_mem_def set_rules split: option.splits)

lemma srt_link_run:
  assumes "valid m e" "\<And>a. a \<in> set os \<Longrightarrow> valid m a"
  shows "srt_link (Some e) (hd_opt os) (last_opt os) m = Ok (hd_opt (os @ [e]), link_mem os e m)"
proof (cases os rule: rev_cases)
  case Nil
  then show ?thesis using assms by (simp add: srt_link_def link_mem_def run_simps)
next
  case (snoc ys t)
  then show ?thesis using assms
    by (simp add: srt_link_def link_mem_def run_simps set_rules hd_opt_append)
qed

lemma relists_link_mem:
  assumes "valid m e" "\<And>a. a \<in> set os \<Longrightarrow> valid m a" "set os \<subseteq> A" "e \<in> A"
  shows "relists A m (link_mem os e m)"
proof (cases os rule: rev_cases)
  case Nil
  then show ?thesis using assms by (simp add: link_mem_def relists_set_hh unlinked_def)
next
  case (snoc ys t)
  have "relists A m (set_hh t (\<lambda>h. h\<lparr>app_next := Some e\<rparr>) m)" (is "relists A m ?m1")
    by (rule relists_set_hh) (use assms snoc in \<open>auto simp: unlinked_def\<close>)
  moreover have "relists A ?m1 (set_hh e (\<lambda>h. h\<lparr>app_prev := last_opt os\<rparr>) ?m1)"
    by (rule relists_set_hh) (use assms snoc in \<open>auto simp: unlinked_def set_rules\<close>)
  ultimately show ?thesis using snoc by (simp add: link_mem_def relists_trans)
qed

lemma outs_snoc:
  assumes "outs m os" "distinct (os @ [e])"
  shows "outs (link_mem os e m) (os @ [e])"
  using assms by (auto simp: outs_def link_mem_at link_simps)

section \<open>One merge\<close>

text \<open>
  The state of a merge: \<open>os\<close> is the list built so far, \<open>ps\<close> what is left of the first block, \<open>qr\<close>
  what is left of the second block and the rest of the input.
\<close>

definition merge_inv :: "mem \<Rightarrow> merge_vars \<Rightarrow> addr list \<Rightarrow> addr list \<Rightarrow> addr list \<Rightarrow> bool" where
  "merge_inv m v os ps qr \<longleftrightarrow>
     distinct (os @ ps @ qr) \<and> (\<forall>a \<in> set (os @ ps @ qr). valid m a) \<and> outs m os \<and>
     psize v = of_nat (length ps) \<and> length ps < 2 ^ 32 \<and>
     (ps = [] \<or> (\<exists>r. links (nx m) (mp v) ps r)) \<and> links (nx m) (mq v) qr None"

lemma links_link_mem:
  assumes "set os \<inter> set xs = {}"
  shows "links (nx (link_mem os e m)) p xs q = links (nx m) p xs q"
proof (rule links_cong)
  fix a assume "a \<in> set xs"
  then have "os = [] \<or> last os \<noteq> a" using assms last_in_set [of os] by blast
  then have "last_opt os \<noteq> Some a" by (auto simp: last_opt_def)
  then show "nx (link_mem os e m) a = nx m a" by (simp add: link_mem_at)
qed

lemma merge_inv_p:
  assumes I: "merge_inv m v os (a # ps) qr"
  shows "take_p v m = Ok (Some a, v\<lparr>mp := nx m a, psize := psize v - 1\<rparr>)"
    and "merge_inv (link_mem os a m) (v\<lparr>mp := nx m a, psize := psize v - 1\<rparr>) (os @ [a]) ps qr"
proof -
  obtain r where r: "mp v = Some a" "links (nx m) (nx m a) ps r" and va: "valid m a"
    using I by (auto simp: merge_inv_def)
  then show "take_p v m = Ok (Some a, v\<lparr>mp := nx m a, psize := psize v - 1\<rparr>)"
    by (simp add: take_p_def next_hh_def run_simps)
  have v: "valid (link_mem os a m) b = valid m b" for b
    by (rule relists_valid [OF relists_link_mem, of m a os UNIV]) (use I in \<open>auto simp: merge_inv_def\<close>)
  have "outs (link_mem os a m) (os @ [a])" by (rule outs_snoc) (use I in \<open>auto simp: merge_inv_def\<close>)
  moreover have "links (nx (link_mem os a m)) (nx m a) ps r" "links (nx (link_mem os a m)) (mq v) qr None"
    using r(2) I by (subst links_link_mem; auto simp: merge_inv_def)+
  ultimately show "merge_inv (link_mem os a m) (v\<lparr>mp := nx m a, psize := psize v - 1\<rparr>) (os @ [a]) ps qr"
    using I v by (auto simp: merge_inv_def)
qed

lemma merge_inv_q:
  assumes I: "merge_inv m v os ps (b # qr)"
  shows "take_q v m = Ok (Some b, v\<lparr>mq := nx m b, qsize := qsize v - 1\<rparr>)"
    and "merge_inv (link_mem os b m) (v\<lparr>mq := nx m b, qsize := qsize v - 1\<rparr>) (os @ [b]) ps qr"
proof -
  have q: "mq v = Some b" "links (nx m) (nx m b) qr None" and vb: "valid m b"
    using I by (auto simp: merge_inv_def)
  then show "take_q v m = Ok (Some b, v\<lparr>mq := nx m b, qsize := qsize v - 1\<rparr>)"
    by (simp add: take_q_def next_hh_def run_simps)
  have v: "valid (link_mem os b m) a = valid m a" for a
    by (rule relists_valid [OF relists_link_mem, of m b os UNIV]) (use I in \<open>auto simp: merge_inv_def\<close>)
  have "outs (link_mem os b m) (os @ [b])" by (rule outs_snoc) (use I in \<open>auto simp: merge_inv_def\<close>)
  moreover have "links (nx (link_mem os b m)) (nx m b) qr None"
    using q(2) I by (subst links_link_mem) (auto simp: merge_inv_def)
  moreover have "ps = [] \<or> (\<exists>r. links (nx (link_mem os b m)) (mp v) ps r)"
    using I by (subst links_link_mem) (auto simp: merge_inv_def)
  ultimately show "merge_inv (link_mem os b m) (v\<lparr>mq := nx m b, qsize := qsize v - 1\<rparr>) (os @ [b]) ps qr"
    using I v by (auto simp: merge_inv_def)
qed

text \<open>The comparison function answers as a comparator does on the elements of a heap.\<close>

definition compares :: "cmpfcn \<Rightarrow> addr comparator \<Rightarrow> mem \<Rightarrow> bool" where
  "compares cmp c m \<longleftrightarrow>
     (\<forall>a b. cmp (stats_of (flow_at m a)) (stats_of (flow_at m b)) \<le> 0 \<longleftrightarrow> compare c a b \<noteq> Greater)"

lemma compares_relists: "relists A m m' \<Longrightarrow> compares cmp c m' = compares cmp c m"
  by (simp add: compares_def relists_def)

lemma psize_zero: "merge_inv m v os ps qr \<Longrightarrow> psize v = 0 \<longleftrightarrow> ps = []"
  using unat_of_nat [of "length ps", where ?'a = 32] unat_eq_zero [of "psize v"] by (simp add: merge_inv_def)

lemma srt_merge_step:
  assumes I: "merge_inv m v os ps qr" and more: "psize v \<noteq> 0 \<or> qsize v \<noteq> 0 \<and> mq v \<noteq> None"
    and pick: "srt_pick cmp v m = Ok (Some e, v')" and e: "e \<in> set ps \<union> set qr"
  shows "srt_merge cmp (Suc n) v (hd_opt os) (last_opt os) m =
    srt_merge cmp n v' (hd_opt (os @ [e])) (last_opt (os @ [e])) (link_mem os e m)"
proof -
  have "srt_link (Some e) (hd_opt os) (last_opt os) m = Ok (hd_opt (os @ [e]), link_mem os e m)"
    by (rule srt_link_run) (use I e in \<open>auto simp: merge_inv_def\<close>)
  then show ?thesis using more pick by (subst srt_merge.simps) simp
qed

lemma qsize_Suc: "qsize v \<noteq> 0 \<Longrightarrow> unat (qsize v) = Suc (unat (qsize v - 1))"
  by (metis Suc_diff_1 unat_eq_zero unat_gt_0 unat_minus_one)

text \<open>The conclusion about a merge, from the state it begins in.\<close>

definition merged :: "cmpfcn \<Rightarrow> addr comparator \<Rightarrow> nat \<Rightarrow> mem \<Rightarrow> merge_vars \<Rightarrow> addr list \<Rightarrow> addr list \<Rightarrow> addr list \<Rightarrow> bool" where
  "merged cmp c n m v os ps qr \<longleftrightarrow>
     (\<exists>m'. let k = unat (qsize v); os' = os @ merge c ps (take k qr) in
        srt_merge cmp n v (hd_opt os) (last_opt os) m =
          Ok (hd_opt (drop k qr), hd_opt os', last_opt os', m') \<and>
        outs m' os' \<and> links (nx m') (hd_opt (drop k qr)) (drop k qr) None \<and>
        relists (set (os @ ps @ qr)) m m')"

lemma merged_step:
  assumes run: "srt_merge cmp (Suc n) v (hd_opt os) (last_opt os) m =
      srt_merge cmp n v' (hd_opt (os @ [e])) (last_opt (os @ [e])) (link_mem os e m)"
    and I: "merge_inv m v os ps qr" and e: "e \<in> set ps \<union> set qr"
    and rest: "merged cmp c n (link_mem os e m) v' (os @ [e]) ps' qr'"
    and sub: "set (e # ps' @ qr') \<subseteq> set (ps @ qr)"
    and eq: "merge c ps (take (unat (qsize v)) qr) = e # merge c ps' (take (unat (qsize v')) qr')"
      "drop (unat (qsize v')) qr' = drop (unat (qsize v)) qr"
  shows "merged cmp c (Suc n) m v os ps qr"
proof -
  have "relists (set (os @ ps @ qr)) m (link_mem os e m)"
    by (rule relists_link_mem) (use I e in \<open>auto simp: merge_inv_def\<close>)
  moreover have "set ((os @ [e]) @ ps' @ qr') \<subseteq> set (os @ ps @ qr)" using sub by auto
  ultimately have rel: "relists (set (os @ ps @ qr)) m m'"
    if "relists (set ((os @ [e]) @ ps' @ qr')) (link_mem os e m) m'" for m'
    using that relists_mono relists_trans by blast
  show ?thesis
    using rest rel unfolding merged_def Let_def run eq by (simp only: append.assoc append.simps) blast
qed

lemma merged_end:
  assumes I: "merge_inv m v os [] qr" and "qsize v = 0 \<or> qr = []"
  shows "merged cmp c n m v os [] qr"
proof -
  have q: "mq v = hd_opt qr" "links (nx m) (hd_opt qr) qr None" and "psize v = 0" "outs m os"
    using I links_hd by (auto simp: merge_inv_def)
  then have "srt_merge cmp n v (hd_opt os) (last_opt os) m = Ok (hd_opt qr, hd_opt os, last_opt os, m)"
    using assms(2) by (auto simp: srt_merge.simps)
  then show ?thesis using assms(2) q(2) \<open>outs m os\<close> by (auto simp: merged_def)
qed

lemma srt_merge_correct:
  assumes "merge_inv m v os ps qr" and "compares cmp c m"
    and "length ps + length (take (unat (qsize v)) qr) \<le> n"
  shows "merged cmp c n m v os ps qr"
  using assms
proof (induction n arbitrary: m v os ps qr)
  case 0
  then have "ps = []" "qsize v = 0 \<or> qr = []" by (auto simp: unat_eq_zero min_def split: if_splits)
  then show ?case using merged_end "0.prems"(1) by blast
next
  case (Suc n)
  note I = Suc.prems(1)
  note len = Suc.prems(3)
  have q: "mq v = hd_opt qr" using I links_hd by (auto simp: merge_inv_def)
  have cmp': "compares cmp c (link_mem os e m)" if "e \<in> set ps \<union> set qr" for e
    using Suc.prems(2) compares_relists [OF relists_link_mem, of m e os UNIV cmp c] that I
    by (auto simp: merge_inv_def)
  have take_q: ?case if qr: "qr = b # qr'" and qs: "qsize v \<noteq> 0" and pick: "srt_pick cmp v m = take_q v m"
    and m: "merge c ps (b # take (unat (qsize v - 1)) qr') = b # merge c ps (take (unat (qsize v - 1)) qr')" for b qr'
  proof -
    note q1 = merge_inv_q [OF I [unfolded qr]]
    have b: "b \<in> set ps \<union> set qr" by (simp add: qr)
    have "merged cmp c n (link_mem os b m) (v\<lparr>mq := nx m b, qsize := qsize v - 1\<rparr>) (os @ [b]) ps qr'"
      by (rule Suc.IH [OF q1(2) cmp' [OF b]]) (use len in \<open>simp add: qr qsize_Suc [OF qs]\<close>)
    note rest = this
    have run: "srt_merge cmp (Suc n) v (hd_opt os) (last_opt os) m =
        srt_merge cmp n (v\<lparr>mq := nx m b, qsize := qsize v - 1\<rparr>) (hd_opt (os @ [b])) (last_opt (os @ [b])) (link_mem os b m)"
      by (rule srt_merge_step [OF I _ _ b]) (use pick q1(1) qs q qr in simp_all)
    show ?case
      by (rule merged_step [OF run I b rest]) (use m in \<open>auto simp: qr qsize_Suc [OF qs]\<close>)
  qed
  have take_p: ?case if ps: "ps = a # ps'" and pick: "srt_pick cmp v m = take_p v m"
    and m: "merge c (a # ps') (take (unat (qsize v)) qr) = a # merge c ps' (take (unat (qsize v)) qr)" for a ps'
  proof -
    note p1 = merge_inv_p [OF I [unfolded ps]]
    have a: "a \<in> set ps \<union> set qr" by (simp add: ps)
    have nz: "psize v \<noteq> 0" using psize_zero [OF I] ps by simp
    have "merged cmp c n (link_mem os a m) (v\<lparr>mp := nx m a, psize := psize v - 1\<rparr>) (os @ [a]) ps' qr"
      by (rule Suc.IH [OF p1(2) cmp' [OF a]]) (use len in \<open>simp add: ps\<close>)
    note rest = this
    have run: "srt_merge cmp (Suc n) v (hd_opt os) (last_opt os) m =
        srt_merge cmp n (v\<lparr>mp := nx m a, psize := psize v - 1\<rparr>) (hd_opt (os @ [a])) (last_opt (os @ [a])) (link_mem os a m)"
      by (rule srt_merge_step [OF I _ _ a]) (use pick p1(1) nz in simp_all)
    show ?case
      by (rule merged_step [OF run I a rest]) (use m in \<open>auto simp: ps\<close>)
  qed
  consider "ps = []" "qsize v = 0 \<or> qr = []" | b qr' where "ps = []" "qsize v \<noteq> 0" "qr = b # qr'"
    | a ps' where "ps = a # ps'" "qsize v = 0 \<or> qr = []"
    | a ps' b qr' where "ps = a # ps'" "qsize v \<noteq> 0" "qr = b # qr'"
    by (metis list.exhaust)
  then show ?case
  proof cases
    case 1
    then show ?thesis using merged_end I by blast
  next
    case (2 b qr')
    then show ?thesis using psize_zero [OF I] by (intro take_q [OF 2(3,2)]) (simp_all add: srt_pick_def)
  next
    case (3 a ps')
    then show ?thesis
      using psize_zero [OF I] q by (intro take_p [OF 3(1)]) (auto simp: srt_pick_def)
  next
    case (4 a ps' b qr')
    have va: "valid m a" "valid m b" "mp v = Some a" "mq v = Some b"
      using I 4 by (auto simp: merge_inv_def)
    have nz: "psize v \<noteq> 0" using psize_zero [OF I] 4 by simp
    have pick: "srt_pick cmp v m = (if compare c a b = Greater then Uthash_Sort.take_q v m else Uthash_Sort.take_p v m)"
      using Suc.prems(2) nz 4(2) va by (simp add: srt_pick_def run_simps compares_def)
    show ?thesis
    proof (cases "compare c a b = Greater")
      case True
      then show ?thesis using pick 4 by (intro take_q [OF 4(3,2)]) simp_all
    next
      case False
      then show ?thesis using pick 4 by (intro take_p [OF 4(1)]) (simp_all add: qsize_Suc)
    qed
  qed
qed

section \<open>One pass\<close>

lemma srt_split_run:
  assumes "links (nx m) (hd_opt xs) xs None" "\<And>a. a \<in> set xs \<Longrightarrow> valid m a" "xs \<noteq> []"
  shows "srt_split k (hd_opt xs) s m = Ok (hd_opt (drop k xs), s + of_nat (min k (length xs)))"
  using assms
proof (induction k arbitrary: xs s)
  case (Suc k)
  then obtain a ys where xs: "xs = a # ys" by (cases xs) auto
  then have ys: "links (nx m) (hd_opt ys) ys None" "nx m a = hd_opt ys" using Suc.prems(1) links_hd by auto
  then have n: "next_hh (hd_opt xs) m = Ok (hd_opt ys)"
    using Suc.prems xs by (auto simp: next_hh_def run_simps)
  show ?case
  proof (cases "ys = []")
    case False
    have "srt_split k (hd_opt ys) (s + 1) m = Ok (hd_opt (drop k ys), s + 1 + of_nat (min k (length ys)))"
      by (rule Suc.IH) (use Suc.prems xs False ys in auto)
    then show ?thesis using n False xs by (simp add: min_def)
  qed (use n xs in simp)
qed simp

function merges :: "nat \<Rightarrow> 'a list \<Rightarrow> nat" where
  "merges k xs = (if xs = [] \<or> k = 0 then 0 else Suc (merges k (drop (2 * k) xs)))"
  by pat_completeness auto
termination by (relation "measure (\<lambda>(k, xs). length xs)") auto

declare merges.simps [simp del]

lemma merges_le: "merges k xs \<le> length xs"
proof (induction k xs rule: merges.induct)
  case (1 k xs)
  then show ?case by (subst merges.simps) (cases xs; auto)
qed

lemma merges_le_1: "0 < k \<Longrightarrow> merges k xs \<le> 1 \<longleftrightarrow> length xs \<le> 2 * k"
  by (auto simp: merges.simps [of k xs] merges.simps [of k "drop (2 * k) xs"])

lemma mset_block:
  assumes "0 < k"
  shows "mset (os @ merge c (take k qr) (take k (drop k qr)) @ drop (2 * k) qr) = mset (os @ qr)"
proof -
  have "qr = take k qr @ take k (drop k qr) @ drop (2 * k) qr"
    by (metis append_take_drop_id drop_drop mult_2)
  then have "mset qr = mset (take k qr) + mset (take k (drop k qr)) + mset (drop (2 * k) qr)"
    by (metis mset_append add.assoc)
  then show ?thesis by (simp add: mset_merge)
qed

text \<open>The conclusion about a pass, from the state it begins in.\<close>

definition passed :: "cmpfcn \<Rightarrow> addr comparator \<Rightarrow> nat \<Rightarrow> nat \<Rightarrow> mem \<Rightarrow> addr list \<Rightarrow> addr list \<Rightarrow> u32 \<Rightarrow> bool" where
  "passed cmp c n k m os qr nm \<longleftrightarrow>
     (\<exists>m'. srt_pass cmp n (of_nat k) (hd_opt qr) (hd_opt os) (last_opt os) nm m =
        Ok (hd_opt (os @ pass c k qr), last_opt (os @ pass c k qr), nm + of_nat (merges k qr), m') \<and>
      outs m' (os @ pass c k qr) \<and> relists (set (os @ qr)) m m')"

lemma srt_pass_correct:
  assumes "0 < k" "k < 2 ^ 32" "distinct (os @ qr)" "\<And>a. a \<in> set (os @ qr) \<Longrightarrow> valid m a"
    and "outs m os" "links (nx m) (hd_opt qr) qr None" "compares cmp c m"
    and "length (os @ qr) \<le> fresh m" "length qr < 2 ^ 32" "length qr \<le> n"
  shows "passed cmp c n k m os qr nm"
  using assms
proof (induction n arbitrary: m os qr nm)
  case 0
  then show ?case by (simp add: passed_def pass.simps merges.simps)
next
  case (Suc n m os qr nm)
  show ?case
  proof (cases qr)
    case Nil
    then show ?thesis using Suc.prems by (auto simp: passed_def pass.simps merges.simps intro: relists_refl)
  next
    case (Cons a r)
    let ?ps = "take k qr" and ?qs = "drop k qr"
    let ?v = "\<lparr>mp = Some a, mq = hd_opt ?qs, psize = of_nat (min k (length qr)), qsize = of_nat k\<rparr>"
    have k: "unat (of_nat k :: u32) = k" using Suc.prems(2) by (simp add: unat_of_nat)
    have sp: "srt_split k (Some a) 0 m = Ok (hd_opt ?qs, of_nat (min k (length qr)))"
    proof -
      have "srt_split k (hd_opt qr) 0 m = Ok (hd_opt ?qs, 0 + of_nat (min k (length qr)))"
        by (rule srt_split_run) (use Suc.prems(4,6) Cons in auto)
      then show ?thesis using Cons by simp
    qed
    have "links (nx m) (hd_opt qr) (?ps @ ?qs) None" using Suc.prems(6) by simp
    then obtain r1 where l: "links (nx m) (Some a) ?ps r1" "links (nx m) r1 ?qs None"
      unfolding links_append using Cons by auto
    then have l2: "links (nx m) (hd_opt ?qs) ?qs None" using links_hd by blast
    have "merge_inv m ?v os ?ps ?qs"
      unfolding merge_inv_def using Suc.prems(3,4,5,9) l(1) l2
      by (auto dest: in_set_takeD in_set_dropD simp: min.commute set_take_disj_set_drop_if_distinct)
    then have "merged cmp c (fresh m) m ?v os ?ps ?qs"
      by (rule srt_merge_correct [OF _ Suc.prems(7)]) (use Suc.prems(8) k in \<open>auto simp: min_def\<close>)
    then obtain m1 where mg: "srt_merge cmp (fresh m) ?v (hd_opt os) (last_opt os) m =
          Ok (hd_opt (drop (2 * k) qr), hd_opt (os @ merge c ?ps (take k ?qs)), last_opt (os @ merge c ?ps (take k ?qs)), m1)"
      and o1: "outs m1 (os @ merge c ?ps (take k ?qs))"
      and l1: "links (nx m1) (hd_opt (drop (2 * k) qr)) (drop (2 * k) qr) None"
      and r1: "relists (set (os @ qr)) m m1"
      unfolding merged_def Let_def merge_vars.simps k drop_drop mult_2 [symmetric] append_take_drop_id by blast
    let ?os = "os @ merge c ?ps (take k ?qs)" and ?qr = "drop (2 * k) qr"
    have ms: "mset (?os @ ?qr) = mset (os @ qr)" using mset_block [OF Suc.prems(1), of os c qr] by simp
    have sets: "set (?os @ ?qr) = set (os @ qr)" by (rule mset_eq_setD [OF ms])
    have "passed cmp c n k m1 ?os ?qr (nm + 1)"
    proof (rule Suc.IH [OF Suc.prems(1,2)])
      show "distinct (?os @ ?qr)" using mset_eq_imp_distinct_iff [OF ms] Suc.prems(3) by blast
      show "valid m1 b" if "b \<in> set (?os @ ?qr)" for b
        using that Suc.prems(4) relists_valid [OF r1] unfolding sets by simp
      show "compares cmp c m1" using Suc.prems(7) compares_relists [OF r1] by simp
      show "length (?os @ ?qr) \<le> fresh m1"
        using mset_eq_length [OF ms] Suc.prems(8) r1 by (simp only: relists_def)
    qed (use o1 l1 Suc.prems(1,9,10) Cons in auto)
    moreover have "pass c k qr = merge c ?ps (take k ?qs) @ pass c k ?qr" "merges k qr = Suc (merges k ?qr)"
    proof -
      have "qr \<noteq> []" using Cons by simp
      then show "pass c k qr = merge c ?ps (take k ?qs) @ pass c k ?qr" "merges k qr = Suc (merges k ?qr)"
        using Suc.prems(1) by (simp_all add: pass.simps [of c k qr] merges.simps [of k qr])
    qed
    moreover have "srt_pass cmp (Suc n) (of_nat k) (hd_opt qr) (hd_opt os) (last_opt os) nm m =
        srt_pass cmp n (of_nat k) (hd_opt ?qr) (hd_opt ?os) (last_opt ?os) (nm + 1) m1"
      using sp mg k Cons by simp
    ultimately show ?thesis
      using relists_trans [OF r1] unfolding passed_def sets by (auto simp: add.assoc)
  qed
qed

section \<open>The whole sort\<close>

definition listed :: "mem \<Rightarrow> addr list \<Rightarrow> bool" where
  "listed m xs \<longleftrightarrow> distinct xs \<and>
     (\<forall>a \<in> set xs. valid m a \<and> nx m a = next_in xs a \<and> pv m a = prev_in xs a)"

lemma close_list:
  assumes "outs m (ys @ [z])" "distinct (ys @ [z])" "\<And>a. a \<in> set (ys @ [z]) \<Longrightarrow> valid m a"
  shows "listed (set_hh z (\<lambda>h. h\<lparr>app_next := None\<rparr>) m) (ys @ [z])"
  using assms by (auto simp: listed_def outs_def set_rules link_simps)

text \<open>One pass and the link that ends the list.\<close>

lemma srt_pass_listed:
  assumes "0 < k" "k < 2 ^ 32" "listed m xs" "xs \<noteq> []" "compares cmp c m"
    and "length xs \<le> fresh m" "length xs < 2 ^ 32" "blocks_sorted c k xs"
  obtains m1 m2 z where
    "srt_pass cmp (fresh m) (of_nat k) (hd_opt xs) None None 0 m =
      Ok (hd_opt (pass c k xs), Some z, of_nat (merges k xs), m1)"
    and "upd_hh (Some z) (\<lambda>h. h\<lparr>app_next := None\<rparr>) m1 = Ok m2"
    and "listed m2 (pass c k xs)" and "relists (set xs) m m2" and "last_opt (pass c k xs) = Some z"
proof -
  let ?ys = "pass c k xs"
  have "links (nx m) (hd_opt xs) xs None"
    by (rule next_in_links) (use assms(3) in \<open>auto simp: listed_def\<close>)
  then have "passed cmp c (fresh m) k m [] xs 0"
    by (intro srt_pass_correct) (use assms in \<open>auto simp: listed_def outs_def\<close>)
  then obtain m1 where p: "srt_pass cmp (fresh m) (of_nat k) (hd_opt xs) None None 0 m =
      Ok (hd_opt ?ys, last_opt ?ys, of_nat (merges k xs), m1)"
    and o: "outs m1 ?ys" and r: "relists (set xs) m m1"
    by (auto simp: passed_def)
  have ms: "mset ?ys = mset xs" "length ?ys = length xs"
    using pass_facts [OF assms(1,8)] by (auto simp: stable_perm_def)
  then have "?ys \<noteq> []" using assms(4) by auto
  then obtain zs z where z: "?ys = zs @ [z]" by (metis rev_exhaust)
  have d: "distinct ?ys" "set ?ys = set xs"
    using mset_eq_imp_distinct_iff [OF ms(1)] mset_eq_setD [OF ms(1)] assms(3) by (auto simp: listed_def)
  have v: "valid m1 a" if "a \<in> set ?ys" for a
    using that d(2) assms(3) relists_valid [OF r] by (auto simp: listed_def)
  have zx: "z \<in> set xs" using d(2) z by auto
  have "relists (set xs) m1 (set_hh z (\<lambda>h. h\<lparr>app_next := None\<rparr>) m1)"
    by (rule relists_set_hh) (use zx v d(2) in \<open>auto simp: unlinked_def\<close>)
  then show thesis
    using that [of z m1 "set_hh z (\<lambda>h. h\<lparr>app_next := None\<rparr>) m1"] p close_list [of m1 zs z] o d(1) v z
      relists_trans [OF r] by (auto simp: run_simps)
qed

lemma srt_loop_correct:
  assumes "i + n = 32" "0 < n" "listed m xs" "xs \<noteq> []" "compares cmp c m" "length xs \<le> fresh m"
    and "length xs \<le> 2 ^ 31" "blocks_sorted c (2 ^ i) xs"
    and "h \<in> set xs" "tbl (hh_at m h) = Some t" "tvalid m t"
  shows "\<exists>m'. srt_loop cmp n (2 ^ i) (Some h) (hd_opt xs) m =
      Ok (hd_opt (Sorting_Algorithms.sort c xs),
        set_tbl t (\<lambda>T. T\<lparr>tail := last_opt (Sorting_Algorithms.sort c xs)\<rparr>) m') \<and>
    relists (set xs) m m' \<and> listed m' (Sorting_Algorithms.sort c xs)"
  using assms
proof (induction n arbitrary: i m xs)
  case (Suc n i m xs)
  let ?k = "2 ^ i :: nat"
  have i: "i < 32" using Suc.prems(1) by simp
  then have k: "0 < ?k" "?k < 2 ^ 32" using power_strict_increasing [OF i, of "2 :: nat"] by simp_all
  have k32: "(of_nat ?k :: u32) = 2 ^ i" by simp
  have len: "length xs < 2 ^ 32" using Suc.prems(7) by simp
  obtain m1 m2 z where p0: "srt_pass cmp (fresh m) (of_nat ?k) (hd_opt xs) None None 0 m =
      Ok (hd_opt (pass c ?k xs), Some z, of_nat (merges ?k xs), m1)"
    and u: "upd_hh (Some z) (\<lambda>h. h\<lparr>app_next := None\<rparr>) m1 = Ok m2"
    and ys: "listed m2 (pass c ?k xs)" and r: "relists (set xs) m m2" and z: "last_opt (pass c ?k xs) = Some z"
    by (rule srt_pass_listed [OF k Suc.prems(3,4,5,6) len Suc.prems(8)])
  note p = p0 [unfolded k32]
  note f = pass_facts [OF k(1) Suc.prems(8)]
  have "unat (of_nat (merges ?k xs) :: u32) = merges ?k xs"
    using merges_le [of ?k xs] len by (simp add: unat_of_nat)
  then have few: "(of_nat (merges ?k xs) :: u32) \<le> 1 \<longleftrightarrow> length xs \<le> 2 * ?k"
    using merges_le_1 [OF k(1), of xs] by (simp add: word_le_nat_alt)
  have "unlinked (hh_at m2 h) = unlinked (hh_at m h)" using r by (simp add: relists_def)
  then have "tbl (hh_at m2 h) = Some t" using unlinked_eqD(1) Suc.prems(10) by metis
  moreover have "valid m2 h" using Suc.prems(3,9) relists_valid [OF r] by (simp add: listed_def)
  moreover have "tvalid m2 t" using r Suc.prems(11) by (simp add: relists_def tvalid_def)
  ultimately have h: "valid m2 h" "tbl (hh_at m2 h) = Some t" "tvalid m2 t" by blast+
  show ?case
  proof (cases "length xs \<le> 2 * ?k")
    case True
    then have s: "pass c ?k xs = Sorting_Algorithms.sort c xs" using pass_sorts k(1) Suc.prems(8) by blast
    show ?thesis
      using p u few True h ys r z unfolding s
      by (intro exI [of _ m2]) (simp add: upd_tbl_of_def run_simps)
  next
    case False
    have "Suc i < 32"
    proof (rule ccontr)
      assume "\<not> Suc i < 32"
      then have "i = 31" using i by simp
      then show False using False Suc.prems(7) by simp
    qed
    then have n: "Suc i + n = 32" "0 < n" using Suc.prems(1) by auto
    have sets: "set (pass c ?k xs) = set xs" using f mset_eq_setD by (metis stable_perm_def)
    have "pass c ?k xs \<noteq> []" using f Suc.prems(4) by auto
    then have "\<exists>m'. srt_loop cmp n (2 ^ Suc i) (Some h) (hd_opt (pass c ?k xs)) m2 =
        Ok (hd_opt (Sorting_Algorithms.sort c (pass c ?k xs)),
          set_tbl t (\<lambda>T. T\<lparr>tail := last_opt (Sorting_Algorithms.sort c (pass c ?k xs))\<rparr>) m') \<and>
      relists (set (pass c ?k xs)) m2 m' \<and> listed m' (Sorting_Algorithms.sort c (pass c ?k xs))"
      by (intro Suc.IH [OF n ys])
         (use f h sets r Suc.prems(5,6,7,9) compares_relists [OF r] in \<open>auto simp: relists_def\<close>)
    moreover have "Sorting_Algorithms.sort c (pass c ?k xs) = Sorting_Algorithms.sort c xs"
      using f sort_stable_perm by blast
    ultimately show ?thesis
      using p u few False relists_trans [OF r] unfolding sets by (auto simp: mult.commute)
  qed
qed simp

lemma HASH_SRT_correct:
  assumes rep: "hash_rep m head tp xs" and wf: "mem_wf m" and c: "compares cmp c m"
    and len: "length xs \<le> 2 ^ 31"
  shows "\<exists>m'. HASH_SRT cmp head m = Ok (hd_opt (Sorting_Algorithms.sort c xs), m') \<and>
    hash_rep m' (hd_opt (Sorting_Algorithms.sort c xs)) tp (Sorting_Algorithms.sort c xs) \<and> mem_wf m' \<and>
    touches (set xs) (set_option tp) m m'"
proof (cases "xs = []")
  case True
  then show ?thesis using rep wf by (auto simp: HASH_SRT_def)
next
  case False
  let ?ys = "Sorting_Algorithms.sort c xs"
  obtain t cs where tp: "tp = Some t" and ok: "table_ok m t xs cs" and head: "head = hd_opt xs"
    using rep False by (auto simp: hash_rep_def)
  obtain h where h: "head = Some h" "h \<in> set xs" using head False by (cases xs) auto
  have app: "app_ok m t xs" "tvalid m t" using ok by (auto simp: table_ok_def)
  have ls: "listed m xs" using app by (auto simp: listed_def app_ok_def)
  have "length xs \<le> fresh m"
    by (rule length_le_fresh [OF wf hash_rep_distinct [OF rep]]) (use hash_rep_valid [OF rep] in blast)
  then obtain m1 where run: "srt_loop cmp 32 1 head (hd_opt xs) m =
      Ok (hd_opt ?ys, set_tbl t (\<lambda>T. T\<lparr>tail := last_opt ?ys\<rparr>) m1)"
    and r: "relists (set xs) m m1" and l1: "listed m1 ?ys"
    using srt_loop_correct [of 0 32 m xs cmp c h t] ls False c len blocks_sorted_1 [of c xs] h app
    by (auto simp: app_ok_def)
  define m' where "m' = set_tbl t (\<lambda>T. T\<lparr>tail := last_opt ?ys\<rparr>) m1"
  have T: "tbl_at m' t = (tbl_at m t)\<lparr>tail := last_opt ?ys\<rparr>" "tvalid m' t"
    using r by (auto simp: m'_def set_rules relists_def)
  have same: "valid m' a = valid m a" "unlinked (hh_at m' a) = unlinked (hh_at m a)"
    "stats_of (flow_at m' a) = stats_of (flow_at m a)" for a
    using r by (auto simp: m'_def relists_def)
  note hh = unlinked_eqD [OF same(2)]
  have key: "key_at m' a = key_at m a" for a using same(3) by (metis key_stats_of)
  have ne: "?ys \<noteq> []" using False by (metis length_0_conv length_sort)
  have "app_ok m' t ?ys"
    using l1 app hh(1) same(1) by (auto simp: app_ok_def listed_def m'_def)
  moreover have "chains_ok m' (num_buckets (tbl_at m t)) (buckets (tbl_at m t)) cs"
    by (rule chains_ok_cong [where m = m]) (use ok hh same in \<open>auto simp: table_ok_def\<close>)
  moreover have "keys_ok m' ?ys"
    using ok hh key by (simp add: table_ok_def keys_ok_def inj_on_def)
  ultimately have "table_ok m' t ?ys cs" using ok T by (simp add: table_ok_def)
  then have "hash_rep m' (hd_opt ?ys) tp ?ys" using tp ne by (auto simp: hash_rep_def)
  moreover have tc: "touches (set xs) (set_option tp) m m'"
    using r tp by (auto simp: touches_def relists_def m'_def set_rules)
  moreover have "mem_wf m'"
    by (rule touches_mem_wf [OF tc wf]) (use mem_wf_tfresh [OF wf app(2)] tp r in \<open>auto simp: m'_def relists_def\<close>)
  moreover have "HASH_SRT cmp head m = Ok (hd_opt ?ys, m')"
    using run h(1) unfolding head by (simp add: HASH_SRT_def m'_def)
  ultimately show ?thesis by blast
qed

section \<open>The property\<close>

lemma map_insort_key:
  "map f (Sorting_Algorithms.insort (Comparator.key f c) x xs) = Sorting_Algorithms.insort c (f x) (map f xs)"
  by (induction xs) simp_all

lemma map_sort_key:
  "map f (Sorting_Algorithms.sort (Comparator.key f c) xs) = Sorting_Algorithms.sort c (map f xs)"
  by (induction xs) (simp_all add: map_insort_key)

text \<open>
  C20: \<open>HASH_SRT\<close> with a comparison function that is consistent with a comparator returns, for a
  table of at most \<open>2\<^sup>3\<^sup>1\<close> elements: the same elements are in the table, their records are those
  of before in the order of the stable sort, and the table is well formed, so lookups, insertions
  and removals go on working.
\<close>

theorem HASH_SRT_sorts:
  assumes "table_rep m head xs" and "mem_wf m" and "length xs \<le> 2 ^ 31"
    and "\<And>f g. cmp f g \<le> 0 \<longleftrightarrow> compare c f g \<noteq> Greater"
  shows "\<exists>ys head' m'. HASH_SRT cmp head m = Ok (head', m') \<and> table_rep m' head' ys \<and> mem_wf m' \<and>
    mset ys = mset xs \<and>
    map (\<lambda>a. stats_of (flow_at m' a)) ys = Sorting_Algorithms.sort c (map (\<lambda>a. stats_of (flow_at m a)) xs)"
proof -
  let ?g = "\<lambda>a. stats_of (flow_at m a)"
  let ?c = "Comparator.key ?g c"
  obtain tp where rep: "hash_rep m head tp xs" using assms(1) by (auto simp: table_rep_def)
  have "compares cmp ?c m" using assms(4) by (simp add: compares_def)
  from HASH_SRT_correct [OF rep assms(2) this assms(3)] obtain m' where
    m': "HASH_SRT cmp head m = Ok (hd_opt (Sorting_Algorithms.sort ?c xs), m')"
      "hash_rep m' (hd_opt (Sorting_Algorithms.sort ?c xs)) tp (Sorting_Algorithms.sort ?c xs)" "mem_wf m'"
    and t: "touches (set xs) (set_option tp) m m'" by blast
  have "map (\<lambda>a. stats_of (flow_at m' a)) (Sorting_Algorithms.sort ?c xs) = Sorting_Algorithms.sort c (map ?g xs)"
    using t by (simp add: touches_def map_sort_key)
  then show ?thesis using m' by (auto simp: table_rep_def)
qed

lemma packet_count_cmp:
  "uint (packet_count f) - uint (packet_count g) \<le> 0 \<longleftrightarrow>
   compare (Comparator.key (\<lambda>f. uint (packet_count f)) default) f g \<noteq> Greater"
  by (simp add: compare_default_eq_Greater_iff not_less)

theorem HASH_SRT_sorts_witness:
  "\<exists>head m head' m'. HASH_ADD None (Some 0) example_mem = Ok (head, m) \<and>
     HASH_SRT (\<lambda>f g. uint (packet_count f) - uint (packet_count g)) head m = Ok (head', m') \<and>
     table_rep m' head' [0]"
proof -
  obtain head m where t: "HASH_ADD None (Some 0) example_mem = Ok (head, m)" "table_rep m head [0]" "mem_wf m"
    using example_table by blast
  from HASH_SRT_sorts [OF t(2,3) _ packet_count_cmp] obtain ys head' m' where
    "HASH_SRT (\<lambda>f g. uint (packet_count f) - uint (packet_count g)) head m = Ok (head', m')"
    "table_rep m' head' ys" "mset ys = mset [0]" by auto
  then show ?thesis using t(1) by auto
qed

end
