(* ===== verification/Uthash_Inorder.thy ===== *)
theory Uthash_Inorder
  imports Uthash_Sort_Correct
begin

text \<open>
  Insertion at the place a comparison function gives (\<open>HASH_ADD_INORDER\<close>), replacement of the
  element that has the same key (\<open>HASH_REPLACE\<close>, \<open>HASH_REPLACE_INORDER\<close>), and the macros that
  drop the table object or measure it (\<open>HASH_CLEAR\<close>, \<open>HASH_OVERHEAD\<close>).
\<close>

section \<open>The macros\<close>

text \<open>The loop that looks for the first element that compares greater than \<open>add\<close>.\<close>

fun HASH_AKBI_INNER_LOOP :: "cmpfcn \<Rightarrow> nat \<Rightarrow> ptr \<Rightarrow> ptr \<Rightarrow> mem \<Rightarrow> ptr outcome" where
  "HASH_AKBI_INNER_LOOP cmp 0 it add m = Fault OutOfFuel"
| "HASH_AKBI_INNER_LOOP cmp (Suc n) it add m =
     seq (load_flow it m) (\<lambda>f. seq (load_flow add m) (\<lambda>g.
     if cmp (stats_of f) (stats_of g) > 0 then Ok it
     else seq (next_hh it m) (\<lambda>it.
       if it = None then Ok None else HASH_AKBI_INNER_LOOP cmp n it add m)))"

text \<open>Linking \<open>add\<close> in front of \<open>it\<close>; the new head.\<close>

definition link_before :: "ptr \<Rightarrow> ptr \<Rightarrow> ptr \<Rightarrow> mem \<Rightarrow> (ptr \<times> mem) outcome" where
  "link_before head it add m =
     seq (upd_hh add (\<lambda>h. h\<lparr>app_next := it\<rparr>) m) (\<lambda>m.
     seq (load_hh it m) (\<lambda>i.
     seq (upd_hh add (\<lambda>h. h\<lparr>app_prev := app_prev i\<rparr>) m) (\<lambda>m.
     seq (if app_prev i \<noteq> None
          then seq (upd_hh (app_prev i) (\<lambda>h. h\<lparr>app_next := add\<rparr>) m) (\<lambda>m. Ok (head, m))
          else Ok (add, m)) (\<lambda>(head, m).
     seq (upd_hh it (\<lambda>h. h\<lparr>app_prev := add\<rparr>) m) (\<lambda>m. Ok (head, m))))))"

definition HASH_ADD_KEYPTR_BYHASHVALUE_INORDER ::
  "cmpfcn \<Rightarrow> ptr \<Rightarrow> ptr \<Rightarrow> u32 \<Rightarrow> u32 \<Rightarrow> ptr \<Rightarrow> mem \<Rightarrow> (ptr \<times> mem) outcome" where
  "HASH_ADD_KEYPTR_BYHASHVALUE_INORDER cmp head kp keylen_in hashval add m =
     seq (upd_hh add (\<lambda>h. h\<lparr>hashv := hashval, keyptr := kp, keylen := keylen_in\<rparr>) m) (\<lambda>m.
     seq (if head = None then
            seq (upd_hh add (\<lambda>h. h\<lparr>app_next := None, app_prev := None\<rparr>) m) (\<lambda>m.
            seq (HASH_MAKE_TABLE add m) (\<lambda>m. Ok (add, m)))
          else
            seq (load_hh head m) (\<lambda>hd.
            seq (upd_hh add (\<lambda>h. h\<lparr>tbl := tbl hd\<rparr>) m) (\<lambda>m.
            seq (HASH_AKBI_INNER_LOOP cmp (fresh m) head add m) (\<lambda>it.
            if it \<noteq> None then link_before head it add m
            else seq (HASH_APPEND_LIST head add m) (\<lambda>m. Ok (head, m)))))) (\<lambda>(head, m).
     seq (HASH_ADD_TO_TABLE head hashval add m) (\<lambda>m. Ok (head, m))))"

definition HASH_ADD_KEYPTR_INORDER ::
  "cmpfcn \<Rightarrow> ptr \<Rightarrow> ptr \<Rightarrow> u32 \<Rightarrow> ptr \<Rightarrow> mem \<Rightarrow> (ptr \<times> mem) outcome" where
  "HASH_ADD_KEYPTR_INORDER cmp head kp keylen_in add m =
     seq (load_flow kp m) (\<lambda>f.
     HASH_ADD_KEYPTR_BYHASHVALUE_INORDER cmp head kp keylen_in
       (HASH_VALUE (key_bytes (flow_stats.key f))) add m)"

text \<open>As for \<open>HASH_ADD\<close>, the key is the member \<open>key\<close> of \<open>add\<close>.\<close>

definition HASH_ADD_INORDER :: "cmpfcn \<Rightarrow> ptr \<Rightarrow> ptr \<Rightarrow> mem \<Rightarrow> (ptr \<times> mem) outcome" where
  "HASH_ADD_INORDER cmp head add m =
     HASH_ADD_KEYPTR_INORDER cmp head add (of_nat sizeof_flow_key_t) add m"

text \<open>
  The replacements also return \<open>replaced\<close>, the element with the same key that was taken out.
\<close>

definition hash_take_out :: "ptr \<Rightarrow> u8 list \<Rightarrow> u32 \<Rightarrow> mem \<Rightarrow> (ptr \<times> ptr \<times> mem) outcome" where
  "hash_take_out head kb hashval m =
     seq (HASH_FIND_BYHASHVALUE head kb hashval m) (\<lambda>replaced.
     seq (if replaced \<noteq> None then HASH_DELETE head replaced m else Ok (head, m)) (\<lambda>(head, m).
     Ok (replaced, head, m)))"

definition HASH_REPLACE_BYHASHVALUE :: "ptr \<Rightarrow> u32 \<Rightarrow> ptr \<Rightarrow> mem \<Rightarrow> (ptr \<times> ptr \<times> mem) outcome" where
  "HASH_REPLACE_BYHASHVALUE head hashval add m =
     seq (load_flow add m) (\<lambda>f.
     seq (hash_take_out head (key_bytes (flow_stats.key f)) hashval m) (\<lambda>(replaced, head, m).
     seq (HASH_ADD_KEYPTR_BYHASHVALUE head add (of_nat sizeof_flow_key_t) hashval add m) (\<lambda>(head, m).
     Ok (replaced, head, m))))"

definition HASH_REPLACE :: "ptr \<Rightarrow> ptr \<Rightarrow> mem \<Rightarrow> (ptr \<times> ptr \<times> mem) outcome" where
  "HASH_REPLACE head add m =
     seq (load_flow add m) (\<lambda>f.
     HASH_REPLACE_BYHASHVALUE head (HASH_VALUE (key_bytes (flow_stats.key f))) add m)"

definition HASH_REPLACE_BYHASHVALUE_INORDER ::
  "cmpfcn \<Rightarrow> ptr \<Rightarrow> u32 \<Rightarrow> ptr \<Rightarrow> mem \<Rightarrow> (ptr \<times> ptr \<times> mem) outcome" where
  "HASH_REPLACE_BYHASHVALUE_INORDER cmp head hashval add m =
     seq (load_flow add m) (\<lambda>f.
     seq (hash_take_out head (key_bytes (flow_stats.key f)) hashval m) (\<lambda>(replaced, head, m).
     seq (HASH_ADD_KEYPTR_BYHASHVALUE_INORDER cmp head add (of_nat sizeof_flow_key_t) hashval add m)
       (\<lambda>(head, m). Ok (replaced, head, m))))"

definition HASH_REPLACE_INORDER :: "cmpfcn \<Rightarrow> ptr \<Rightarrow> ptr \<Rightarrow> mem \<Rightarrow> (ptr \<times> ptr \<times> mem) outcome" where
  "HASH_REPLACE_INORDER cmp head add m =
     seq (load_flow add m) (\<lambda>f.
     HASH_REPLACE_BYHASHVALUE_INORDER cmp head (HASH_VALUE (key_bytes (flow_stats.key f))) add m)"

text \<open>The table object goes, its elements stay allocated and keep their stale handles.\<close>

definition HASH_CLEAR :: "ptr \<Rightarrow> mem \<Rightarrow> (ptr \<times> mem) outcome" where
  "HASH_CLEAR head m =
     (if head \<noteq> None then seq (load_hh head m) (\<lambda>h. seq (free_tbl (tbl h) m) (\<lambda>m. Ok (None, m)))
      else Ok (None, m))"

definition sizeof_UT_hash_handle :: nat where "sizeof_UT_hash_handle = 56"

definition HASH_BLOOM_BYTELEN :: nat where "HASH_BLOOM_BYTELEN = 0"

definition HASH_OVERHEAD :: "ptr \<Rightarrow> mem \<Rightarrow> 64 word outcome" where
  "HASH_OVERHEAD head m =
     (if head \<noteq> None then
        seq (load_tbl_of head m) (\<lambda>T. Ok (ucast (num_items T) * of_nat sizeof_UT_hash_handle +
          ucast (num_buckets T) * of_nat sizeof_UT_hash_bucket +
          of_nat sizeof_UT_hash_table + of_nat HASH_BLOOM_BYTELEN))
      else Ok 0)"

section \<open>Insertion into the middle of a list\<close>

text \<open>The place: behind every element up to the first that compares greater.\<close>

definition upto_greater :: "cmpfcn \<Rightarrow> mem \<Rightarrow> addr \<Rightarrow> addr list \<Rightarrow> addr list" where
  "upto_greater cmp m a xs =
     takeWhile (\<lambda>b. cmp (stats_of (flow_at m b)) (stats_of (flow_at m a)) \<le> 0) xs"

definition from_greater :: "cmpfcn \<Rightarrow> mem \<Rightarrow> addr \<Rightarrow> addr list \<Rightarrow> addr list" where
  "from_greater cmp m a xs =
     dropWhile (\<lambda>b. cmp (stats_of (flow_at m b)) (stats_of (flow_at m a)) \<le> 0) xs"

lemma upto_from_greater [simp]: "upto_greater cmp m a xs @ from_greater cmp m a xs = xs"
  by (simp add: upto_greater_def from_greater_def)

lemma next_in_insert:
  assumes "distinct (ys @ i # zs)" and "a \<notin> set (ys @ i # zs)"
  shows "next_in (ys @ a # i # zs) b =
    (if b = a then Some i else if Some b = last_opt ys then Some a else next_in (ys @ i # zs) b)"
proof (cases "b \<in> set ys")
  case True
  then show ?thesis using assms
    by (cases "b = last ys") (auto simp: next_in_append_left last_opt_def)
next
  case False
  then show ?thesis using assms by (auto simp: next_in_append_right last_opt_def dest: last_in_set)
qed

lemma prev_in_insert:
  assumes "distinct (ys @ i # zs)" and "a \<notin> set (ys @ i # zs)"
  shows "prev_in (ys @ a # i # zs) b =
    (if b = a then last_opt ys else if b = i then Some a else prev_in (ys @ i # zs) b)"
proof (cases "b \<in> set ys")
  case True
  then show ?thesis using assms by (auto simp: prev_from_append_left)
next
  case False
  then show ?thesis using assms by (auto simp: prev_from_append_right last_opt_def)
qed

lemma app_ok_insert:
  assumes app: "app_ok m t (ys @ i # zs)" and a: "a \<notin> set (ys @ i # zs)"
    and na: "valid m' a" "tbl (hh_at m' a) = Some t" "app_next (hh_at m' a) = Some i"
      "app_prev (hh_at m' a) = last_opt ys"
    and eq: "\<And>b. b \<in> set (ys @ i # zs) \<Longrightarrow> valid m' b \<and> tbl (hh_at m' b) = tbl (hh_at m b) \<and>
      app_prev (hh_at m' b) = (if b = i then Some a else app_prev (hh_at m b)) \<and>
      app_next (hh_at m' b) = (if Some b = last_opt ys then Some a else app_next (hh_at m b))"
  shows "app_ok m' t (ys @ a # i # zs)"
proof -
  have d: "distinct (ys @ i # zs)" using app by (simp add: app_ok_def)
  have "valid m' b \<and> tbl (hh_at m' b) = Some t \<and> app_next (hh_at m' b) = next_in (ys @ a # i # zs) b \<and>
      app_prev (hh_at m' b) = prev_in (ys @ a # i # zs) b" if b: "b \<in> set (ys @ a # i # zs)" for b
  proof (cases "b = a")
    case True
    then show ?thesis using na by (simp add: next_in_insert [OF d a] prev_in_insert [OF d a])
  next
    case False
    then have bx: "b \<in> set (ys @ i # zs)" using b by auto
    then have "tbl (hh_at m b) = Some t \<and> app_next (hh_at m b) = next_in (ys @ i # zs) b \<and>
        app_prev (hh_at m b) = prev_in (ys @ i # zs) b"
      using app unfolding app_ok_def by blast
    then show ?thesis
      using eq [OF bx] False
      by (auto simp: next_in_insert [OF d a] prev_in_insert [OF d a])
  qed
  then show ?thesis using d a unfolding app_ok_def by auto
qed

section \<open>HASH_ADD_INORDER\<close>

lemma HASH_AKBI_INNER_LOOP_correct:
  assumes "app_ok m t (ps @ ys)" and "valid m' a" and "ys \<noteq> []" and "length ys \<le> n"
    and "\<And>b. b \<in> set (ps @ ys) \<Longrightarrow> valid m' b \<and> app_next (hh_at m' b) = app_next (hh_at m b)"
    and "\<And>b. stats_of (flow_at m' b) = stats_of (flow_at m b)"
  shows "HASH_AKBI_INNER_LOOP cmp n (hd_opt ys) (Some a) m' = Ok (hd_opt (from_greater cmp m a ys))"
  using assms
proof (induction ys arbitrary: n ps)
  case (Cons b ys)
  obtain n' where n: "n = Suc n'" using Cons.prems(4) by (cases n) auto
  have "distinct (ps @ b # ys)" using Cons.prems(1) by (simp add: app_ok_def)
  then have nx: "app_next (hh_at m' b) = hd_opt ys"
    using Cons.prems(1,5) by (simp add: app_ok_def link_simps)
  have b: "valid m' b" using Cons.prems(5) by simp
  have "HASH_AKBI_INNER_LOOP cmp n' (hd_opt ys) (Some a) m' = Ok (hd_opt (from_greater cmp m a ys))"
    if "ys \<noteq> []"
    by (rule Cons.IH [of "ps @ [b]"]) (use Cons.prems n that in auto)
  then show ?case
    using Cons.prems(2,6) b nx
    by (cases ys) (auto simp: n run_simps next_hh_def from_greater_def not_less)
qed simp

text \<open>The writes to the new element and to its neighbours.\<close>

definition insert_mem :: "addr \<Rightarrow> ptr \<Rightarrow> addr \<Rightarrow> addr \<Rightarrow> u32 \<Rightarrow> mem \<Rightarrow> mem" where
  "insert_mem t p i a hv m =
     set_hh i (\<lambda>h. h\<lparr>app_prev := Some a\<rparr>)
       (case p of None \<Rightarrow> set_hh a (\<lambda>h. (new_handle a hv (Some t) p h)\<lparr>app_next := Some i\<rparr>) m
        | Some q \<Rightarrow> set_hh q (\<lambda>h. h\<lparr>app_next := Some a\<rparr>)
            (set_hh a (\<lambda>h. (new_handle a hv (Some t) p h)\<lparr>app_next := Some i\<rparr>) m))"

lemma link_before_run:
  assumes "valid m a" "valid m i" "i \<noteq> a" "app_prev (hh_at m i) = p"
    and "\<And>q. p = Some q \<Longrightarrow> valid m q \<and> q \<noteq> a"
  shows "link_before head (Some i) (Some a)
      (set_hh a (\<lambda>h. h\<lparr>hashv := hv, keyptr := Some a, keylen := 16, tbl := Some t\<rparr>) m) =
    Ok (if p = None then Some a else head, insert_mem t p i a hv m)"
proof -
  have nh: "(\<lambda>h. h\<lparr>hashv := hv, keyptr := Some a, keylen := 16, tbl := Some t, app_next := Some i,
      app_prev := p\<rparr>) = (\<lambda>h. (new_handle a hv (Some t) p h)\<lparr>app_next := Some i\<rparr>)" for p
    by (simp add: new_handle_def fun_eq_iff)
  show ?thesis using assms
    by (cases p) (auto simp: link_before_def run_simps set_rules insert_mem_def nh [symmetric])
qed

lemma insert_mem_linked:
  assumes ok: "table_ok m t (ys @ i # zs) cs" and a: "valid m a" "a \<notin> set (ys @ i # zs)"
    and new: "key_at m a \<notin> key_at m ` set (ys @ i # zs)"
  defines "m1 \<equiv> insert_mem t (last_opt ys) i a (hash_key (key_at m a)) m"
  shows "linked m1 t (ys @ a # i # zs) a cs" "touches (set (ys @ a # i # zs)) {t} m m1"
proof -
  define hv where "hv = hash_key (key_at m a)"
  have b: "buckets_ok m t cs" and app: "app_ok m t (ys @ i # zs)" and keys: "keys_ok m (ys @ i # zs)"
    and inc: "in_chains cs = set (ys @ i # zs)" and num: "num_items (tbl_at m t) = of_nat (length (ys @ i # zs))"
    using ok by (simp_all add: table_ok_buckets_ok)
  have p: "q \<in> set ys \<and> q \<noteq> a \<and> q \<noteq> i \<and> valid m q" if "last_opt ys = Some q" for q
    using that app a by (cases ys rule: rev_cases) (auto simp: app_ok_def)
  have iv: "valid m i" "i \<noteq> a" using app a by (auto simp: app_ok_def)
  have h: "hh_at m1 b = (if b = a then (new_handle a hv (Some t) (last_opt ys) (hh_at m a))\<lparr>app_next := Some i\<rparr>
      else if b = i then (hh_at m i)\<lparr>app_prev := Some a\<rparr>
      else if Some b = last_opt ys then (hh_at m b)\<lparr>app_next := Some a\<rparr> else hh_at m b)" for b
    using iv p by (auto simp: m1_def insert_mem_def hv_def set_rules split: option.split)
  show tch: "touches (set (ys @ a # i # zs)) {t} m m1"
    unfolding m1_def insert_mem_def
    by (cases "last_opt ys"; simp del: set_append; intro touches_step_hh touches_refl)
       (use a iv p in \<open>auto simp: set_rules\<close>)
  have T1: "tbls m1 = tbls m" by (simp add: m1_def insert_mem_def split: option.split)
  have app1: "app_ok m1 t (ys @ a # i # zs)"
    using iv a touches_valid [OF tch] app p
    by (intro app_ok_insert [OF app a(2)]) (auto simp: h new_handle_def app_ok_def)
  have "keys_ok m1 ((ys @ i # zs) @ [a])"
    by (rule keys_ok_snoc [OF keys new touches_key [OF tch]])
       (use a in \<open>auto simp: h new_handle_def hv_def\<close>)
  then have keys1: "keys_ok m1 (ys @ a # i # zs)" by (rule keys_ok_subset) auto
  have "chains_ok m1 (num_buckets (tbl_at m t)) (buckets (tbl_at m t)) cs"
    by (rule chains_ok_cong [where m = m])
       (use b a inc touches_valid [OF tch] in \<open>auto simp: h buckets_ok_def\<close>)
  then have b1: "buckets_ok m1 t cs" using b by (simp add: buckets_ok_def T1 tvalid_def)
  show "linked m1 t (ys @ a # i # zs) a cs"
    using app1 keys1 b1 inc num a(2) ok unfolding linked_def
    by (auto simp: T1 table_ok_def last_opt_def)
qed

lemma hash_rep_SomeE:
  assumes "hash_rep m (Some x) tp xs"
  obtains t cs where "hd_opt xs = Some x" "tp = Some t" "table_ok m t xs cs"
proof -
  have x: "hd_opt xs = Some x" using hash_rep_head [OF assms] by simp
  then have "xs \<noteq> []" by auto
  then show ?thesis using assms x that unfolding hash_rep_def by auto
qed

lemma search_place:
  assumes rep: "hash_rep m (Some x) tp xs" and wf: "mem_wf m" and a: "valid m a" "a \<notin> set xs"
  shows "HASH_AKBI_INNER_LOOP cmp (fresh m) (Some x) (Some a)
      (set_hh a (\<lambda>h. h\<lparr>hashv := hv, keyptr := Some a, keylen := 16, tbl := tp\<rparr>) m) =
    Ok (hd_opt (from_greater cmp m a xs))"
proof -
  obtain t cs where x: "hd_opt xs = Some x" and tp: "tp = Some t" and ok: "table_ok m t xs cs"
    by (rule hash_rep_SomeE [OF rep])
  have len: "length xs \<le> fresh m"
    by (rule length_le_fresh [OF wf hash_rep_distinct [OF rep]]) (use hash_rep_valid [OF rep] in blast)
  have app: "app_ok m t ([] @ xs)" using ok by (simp add: table_ok_def)
  show ?thesis unfolding x [symmetric]
    by (rule HASH_AKBI_INNER_LOOP_correct [OF app _ _ len])
       (use a x hash_rep_valid [OF rep] in \<open>auto simp: set_rules\<close>)
qed

text \<open>An element that compares below nothing goes to the end: this is \<open>HASH_ADD\<close>.\<close>

lemma HASH_ADD_INORDER_end:
  assumes rep: "hash_rep m head tp xs" and wf: "mem_wf m" and a: "valid m a" "a \<notin> set xs"
    and last: "from_greater cmp m a xs = []"
  shows "HASH_ADD_INORDER cmp head (Some a) m = HASH_ADD head (Some a) m"
proof (cases head)
  case None
  then show ?thesis
    by (simp add: HASH_ADD_INORDER_def HASH_ADD_KEYPTR_INORDER_def HASH_ADD_KEYPTR_BYHASHVALUE_INORDER_def
        HASH_ADD_def HASH_ADD_KEYPTR_def HASH_ADD_KEYPTR_BYHASHVALUE_def)
next
  case (Some x)
  obtain t cs where x: "hd_opt xs = Some x" and "tp = Some t" "table_ok m t xs cs"
    by (rule hash_rep_SomeE [OF rep [unfolded Some]])
  then have "valid m x \<and> tbl (hh_at m x) = tp \<and> x \<noteq> a"
    using hd_opt_in_set [OF x] a by (auto simp: table_ok_def app_ok_def)
  then show ?thesis
    using a(1) search_place [OF rep [unfolded Some] wf a] Some last
    by (simp add: HASH_ADD_INORDER_def HASH_ADD_KEYPTR_INORDER_def HASH_ADD_KEYPTR_BYHASHVALUE_INORDER_def
        HASH_ADD_def HASH_ADD_KEYPTR_def HASH_ADD_KEYPTR_BYHASHVALUE_def run_simps set_rules
        sizeof_flow_key_t_def)
qed

text \<open>Otherwise it is linked in front of the first element that compares greater.\<close>

lemma HASH_ADD_INORDER_before:
  assumes rep: "hash_rep m head tp xs" and wf: "mem_wf m" and a: "valid m a" "a \<notin> set xs"
    and new: "key_at m a \<notin> key_at m ` set xs"
    and place: "from_greater cmp m a xs = i # zs"
  shows "safe (\<lambda>c. c = -1 \<and> add_oom m tp)
    (\<lambda>(head', m'). hash_rep m' head' tp (upto_greater cmp m a xs @ a # i # zs) \<and> mem_wf m' \<and>
       touches (insert a (set xs)) {add_tbl m tp} m m')
    (HASH_ADD_INORDER cmp head (Some a) m)"
proof -
  define ys where "ys = upto_greater cmp m a xs"
  have xs: "xs = ys @ i # zs" unfolding ys_def place [symmetric] by simp
  obtain t cs where tp: "tp = Some t" and ok: "table_ok m t (ys @ i # zs) cs" and head: "head = hd_opt xs"
    using rep unfolding hash_rep_def xs by auto
  obtain x where x: "hd_opt xs = Some x" by (cases xs) (auto simp: xs)
  have app: "app_ok m t (ys @ i # zs)" and tv: "tvalid m t" using ok by (simp_all add: table_ok_def)
  have i: "valid m i" "i \<noteq> a" "app_prev (hh_at m i) = last_opt ys"
    using app a by (auto simp: app_ok_def link_simps xs)
  have p: "valid m q \<and> q \<noteq> a" if "last_opt ys = Some q" for q
    using that app a by (cases ys rule: rev_cases) (auto simp: app_ok_def xs)
  have vx: "valid m x" "tbl (hh_at m x) = Some t" "x \<noteq> a"
    using app hd_opt_in_set [OF x] a by (auto simp: app_ok_def xs)
  define m1 where "m1 = insert_mem t (last_opt ys) i a (hash_key (key_at m a)) m"
  note l = insert_mem_linked [OF ok a(1) a(2) [unfolded xs] new [unfolded xs], folded m1_def]
  define h1 where "h1 = (if ys = [] then a else x)"
  have h1: "hd_opt (ys @ a # i # zs) = Some h1"
    using x by (auto simp: h1_def xs hd_opt_append split: if_splits)
  have run: "HASH_ADD_INORDER cmp head (Some a) m =
      seq (HASH_ADD_TO_TABLE (Some h1) (hash_key (key_at m a)) (Some a) m1) (\<lambda>m. Ok (Some h1, m))"
    using a(1) head x vx search_place [OF rep [unfolded head x] wf a] link_before_run [OF a(1) i p] place
    by (simp add: HASH_ADD_INORDER_def HASH_ADD_KEYPTR_INORDER_def HASH_ADD_KEYPTR_BYHASHVALUE_INORDER_def
        run_simps set_rules sizeof_flow_key_t_def tp hash_key_def m1_def h1_def)
  have f1: "fresh m1 = fresh m" "budget m1 = budget m" "max_block m1 = max_block m" "tbl_at m1 t = tbl_at m t"
    by (simp_all add: m1_def insert_mem_def split: option.split)
  have "safe (\<lambda>c. c = -1 \<and> add_oom m tp)
    (\<lambda>(head', m'). hash_rep m' head' (Some t) (ys @ a # i # zs) \<and> mem_wf m' \<and>
       touches (set (ys @ a # i # zs)) {t} m m')
    (seq (HASH_ADD_TO_TABLE (Some h1) (hash_key (key_at m a)) (Some a) m1) (\<lambda>m. Ok (Some h1, m)))"
    by (rule linked_add [OF l(1) wf _ l(2) h1])
       (use mem_wf_tfresh [OF wf tv] in \<open>auto simp: add_oom_def tp expand_fails_def f1\<close>)
  then show ?thesis unfolding run ys_def [symmetric] by (simp add: add_tbl_def tp xs insert_commute Un_commute)
qed

definition insert_place :: "cmpfcn \<Rightarrow> mem \<Rightarrow> addr \<Rightarrow> addr list \<Rightarrow> addr list" where
  "insert_place cmp m a xs = upto_greater cmp m a xs @ a # from_greater cmp m a xs"

lemma HASH_ADD_INORDER_correct:
  assumes rep: "hash_rep m head tp xs" and wf: "mem_wf m" and a: "valid m a" "a \<notin> set xs"
    and new: "key_at m a \<notin> key_at m ` set xs"
  shows "safe (\<lambda>c. c = -1 \<and> add_oom m tp)
    (\<lambda>(head', m'). hash_rep m' head' (Some (add_tbl m tp)) (insert_place cmp m a xs) \<and> mem_wf m' \<and>
       touches (insert a (set xs)) {add_tbl m tp} m m')
    (HASH_ADD_INORDER cmp head (Some a) m)"
proof (cases "from_greater cmp m a xs")
  case Nil
  then have "insert_place cmp m a xs = xs @ [a]"
    using upto_from_greater [of cmp m a xs] by (simp add: insert_place_def)
  then show ?thesis
    using HASH_ADD_correct [OF rep wf a new] by (simp add: HASH_ADD_INORDER_end [OF rep wf a Nil])
next
  case (Cons i zs)
  then have "xs \<noteq> []" by (auto simp: from_greater_def)
  then obtain t where "tp = Some t" using rep by (auto simp: hash_rep_def)
  then show ?thesis
    using HASH_ADD_INORDER_before [OF rep wf a new Cons] Cons by (simp add: insert_place_def add_tbl_def)
qed

section \<open>Keeping a table sorted\<close>

lemma place_sorted:
  fixes c :: "'a comparator" and a :: 'a
  assumes "Sorting_Algorithms.sorted c xs"
  defines "P \<equiv> \<lambda>b. compare c b a \<noteq> Greater"
  shows "takeWhile P xs @ a # dropWhile P xs = Sorting_Algorithms.sort c (xs @ [a])"
  using assms(1)
proof (induction xs rule: list.induct)
  case (Cons x xs)
  have le: "compare c x y \<noteq> Greater" if "y \<in> set xs" for y
    using sorted_Cons_imp_not_less [OF Cons.prems that] .
  have so: "Sorting_Algorithms.sorted c xs" using Cons.prems by (rule sorted_Cons_imp_sorted)
  note IH = Cons.IH [OF so]
  show ?case
  proof (cases "P x")
    case True
    have "Sorting_Algorithms.insort c x (Sorting_Algorithms.sort c (xs @ [a])) =
        x # Sorting_Algorithms.sort c (xs @ [a])"
      by (rule insort_eq_ConsI) (use True le in \<open>auto simp: P_def\<close>)
    then show ?thesis using True IH by simp
  next
    case False
    then have gr: "compare c x a = Greater" by (simp add: P_def)
    have "\<not> P y" if "y \<in> set xs" for y
      using le [OF that] gr compare.trans_not_greater [of c x y a] by (auto simp: P_def)
    then have "takeWhile P xs = []" "dropWhile P xs = xs" by (cases xs; simp)+
    then have "Sorting_Algorithms.sort c (xs @ [a]) = a # xs" using IH by simp
    moreover have "Sorting_Algorithms.insort c x xs = x # xs"
      by (rule insort_eq_ConsI) (use le so in auto)
    ultimately show ?thesis using gr False by simp
  qed
qed simp

text \<open>
  C37: \<open>HASH_ADD_INORDER\<close> into a table that is sorted by the comparison function gives the table
  that \<open>HASH_ADD\<close> followed by the stable sort would give: the table stays sorted, and the new
  element stands behind those that compare equal.  Like \<open>HASH_ADD\<close> it ends the process only when an
  allocation fails.
\<close>

theorem HASH_ADD_INORDER_keeps_sorted:
  assumes "table_rep m head xs" and "mem_wf m" and "valid m a" and "a \<notin> set xs"
    and "key_at m a \<notin> key_at m ` set xs"
    and "\<And>f g. cmp f g \<le> 0 \<longleftrightarrow> compare c f g \<noteq> Greater"
    and "Sorting_Algorithms.sorted c (map (\<lambda>b. stats_of (flow_at m b)) xs)"
  shows "safe (\<lambda>e. e = -1 \<and> head_oom m head)
    (\<lambda>(head', m'). \<exists>ys. table_rep m' head' ys \<and> mem_wf m' \<and> mset ys = add_mset a (mset xs) \<and>
       map (\<lambda>b. stats_of (flow_at m' b)) ys =
         Sorting_Algorithms.sort c (map (\<lambda>b. stats_of (flow_at m b)) (xs @ [a])))
    (HASH_ADD_INORDER cmp head (Some a) m)"
proof -
  let ?g = "\<lambda>b. stats_of (flow_at m b)"
  obtain tp where rep: "hash_rep m head tp xs" using assms(1) by (auto simp: table_rep_def)
  have place: "map ?g (insert_place cmp m a xs) = Sorting_Algorithms.sort c (map ?g xs @ [?g a])"
    using place_sorted [OF assms(7), of "?g a"] assms(6)
    by (simp add: insert_place_def upto_greater_def from_greater_def takeWhile_map dropWhile_map comp_def)
  have perm: "mset (insert_place cmp m a xs) = add_mset a (mset xs)"
    using arg_cong [OF upto_from_greater [of cmp m a xs], of mset]
    by (simp add: insert_place_def del: upto_from_greater)
  show ?thesis
  proof (rule safe_mono [OF HASH_ADD_INORDER_correct [OF rep assms(2-5), of cmp]])
    fix r assume "case r of (head', m') \<Rightarrow>
        hash_rep m' head' (Some (add_tbl m tp)) (insert_place cmp m a xs) \<and> mem_wf m' \<and>
        touches (insert a (set xs)) {add_tbl m tp} m m'"
    then show "case r of (head', m') \<Rightarrow> \<exists>ys. table_rep m' head' ys \<and> mem_wf m' \<and>
        mset ys = add_mset a (mset xs) \<and>
        map (\<lambda>b. stats_of (flow_at m' b)) ys = Sorting_Algorithms.sort c (map ?g (xs @ [a]))"
      using place perm by (auto simp: table_rep_def stats_of_eq_upd intro!: exI [of _ "insert_place cmp m a xs"])
  qed (simp add: head_oom [OF rep])
qed

theorem HASH_ADD_INORDER_keeps_sorted_witness:
  "\<exists>head m. HASH_ADD None (Some 0) example_mem = Ok (head, m) \<and>
     safe (\<lambda>e. e = -1 \<and> head_oom m head)
      (\<lambda>(head', m'). \<exists>ys. table_rep m' head' ys \<and> mem_wf m' \<and> mset ys = {#0, 1#} \<and>
         map (\<lambda>b. stats_of (flow_at m' b)) ys = Sorting_Algorithms.sort
           (Comparator.key (\<lambda>f. uint (packet_count f)) default) (map (\<lambda>b. stats_of (flow_at m b)) [0, 1]))
      (HASH_ADD_INORDER (\<lambda>f g. uint (packet_count f) - uint (packet_count g)) head (Some 1) m)"
proof -
  obtain head m where t: "HASH_ADD None (Some 0) example_mem = Ok (head, m)" "table_rep m head [0]" "mem_wf m"
    "key_at m 0 = example_key 0" "valid m 1" "key_at m 1 = example_key 1"
    using example_table by blast
  note HASH_ADD_INORDER_keeps_sorted [OF t(2,3,5) _ _ packet_count_cmp]
  then show ?thesis using t example_mem_facts(8)
    by (intro exI [of _ head] exI [of _ m])
       (simp add: add_mset_commute sorted_single)
qed

section \<open>HASH_REPLACE\<close>

text \<open>The elements of the table other than the one with the key of \<open>a\<close>.\<close>

definition others :: "mem \<Rightarrow> addr \<Rightarrow> addr list \<Rightarrow> addr list" where
  "others m a xs = filter (\<lambda>b. key_at m b \<noteq> key_at m a) xs"

lemma others_find:
  assumes "distinct xs" and "inj_on (key_at m) (set xs)"
  shows "others m a xs = (case List.find (\<lambda>b. key_at m b = key_at m a) xs of None \<Rightarrow> xs | Some b \<Rightarrow> remove1 b xs)"
proof (cases "List.find (\<lambda>b. key_at m b = key_at m a) xs")
  case None
  then have "\<forall>b \<in> set xs. key_at m b \<noteq> key_at m a" by (simp add: find_None_iff)
  then have "others m a xs = xs" by (simp add: others_def filter_id_conv)
  then show ?thesis unfolding None by simp
next
  case (Some b)
  then have b: "b \<in> set xs" "key_at m b = key_at m a" by (auto simp: find_Some_iff)
  then have "key_at m c \<noteq> key_at m a \<longleftrightarrow> c \<noteq> b" if "c \<in> set xs" for c
    using that assms(2) by (metis inj_onD)
  then have "others m a xs = filter (\<lambda>c. b \<noteq> c) xs" unfolding others_def by (intro filter_cong) auto
  then show ?thesis using Some assms(1) by (simp add: distinct_remove1_removeAll removeAll_filter_not_eq)
qed

lemma hash_take_out_correct:
  assumes rep: "table_rep m head xs" and wf: "mem_wf m"
  shows "\<exists>head' m'. hash_take_out head (key_bytes (key_at m a)) (HASH_VALUE (key_bytes (key_at m a))) m =
      Ok (List.find (\<lambda>b. key_at m b = key_at m a) xs, head', m') \<and>
    table_rep m' head' (others m a xs) \<and> mem_wf m' \<and>
    (\<exists>S. touches (set xs) S m m')"
proof -
  obtain tp where r: "hash_rep m head tp xs" using rep by (auto simp: table_rep_def)
  let ?k = "key_at m a"
  have "HASH_FIND_BYHASHVALUE head (key_bytes ?k) (HASH_VALUE (key_bytes ?k)) m = HASH_FIND head (key_bytes ?k) m"
    by (cases head) (simp_all add: HASH_FIND_def HASH_FIND_BYHASHVALUE_def)
  then have find: "HASH_FIND_BYHASHVALUE head (key_bytes ?k) (HASH_VALUE (key_bytes ?k)) m =
      Ok (List.find (\<lambda>b. key_at m b = ?k) xs)"
    by (simp add: HASH_FIND_correct [OF r wf])
  note oth = others_find [OF hash_rep_distinct [OF r] hash_rep_inj [OF r], of a]
  show ?thesis
  proof (cases "List.find (\<lambda>b. key_at m b = ?k) xs")
    case None
    then show ?thesis using rep wf oth by (auto simp: hash_take_out_def find intro!: exI [of _ m])
  next
    case (Some b)
    then have "b \<in> set xs" by (auto simp: find_Some_iff)
    from HASH_DEL_correct [OF r wf this] show ?thesis
      using Some oth by (fastforce simp: hash_take_out_def find HASH_DEL_def table_rep_def)
  qed
qed

lemma HASH_REPLACE_split:
  assumes rep: "table_rep m head xs" and wf: "mem_wf m" and a: "valid m a" "a \<notin> set xs"
  obtains h1 m1 tp where "hash_rep m1 h1 tp (others m a xs)" "mem_wf m1" "valid m1 a"
    "a \<notin> set (others m a xs)" "key_at m1 a \<notin> key_at m1 ` set (others m a xs)"
    "\<And>b. valid m1 b = valid m b \<and> stats_of (flow_at m1 b) = stats_of (flow_at m b)"
    "HASH_REPLACE head (Some a) m = seq (HASH_ADD h1 (Some a) m1)
       (\<lambda>(head, m'). Ok (List.find (\<lambda>b. key_at m b = key_at m a) xs, head, m'))"
    "\<And>cmp. HASH_REPLACE_INORDER cmp head (Some a) m = seq (HASH_ADD_INORDER cmp h1 (Some a) m1)
       (\<lambda>(head, m'). Ok (List.find (\<lambda>b. key_at m b = key_at m a) xs, head, m'))"
proof -
  obtain h1 m1 S where t: "hash_take_out head (key_bytes (key_at m a)) (HASH_VALUE (key_bytes (key_at m a))) m =
      Ok (List.find (\<lambda>b. key_at m b = key_at m a) xs, h1, m1)"
    and r1: "table_rep m1 h1 (others m a xs)" and wf1: "mem_wf m1" and t1: "touches (set xs) S m m1"
    using hash_take_out_correct [OF rep wf, of a] by blast
  have st: "valid m1 b = valid m b \<and> stats_of (flow_at m1 b) = stats_of (flow_at m b)" for b
    using t1 by (simp add: touches_def)
  have k: "key_at m1 b = key_at m b" for b by (rule touches_key [OF t1])
  obtain tp where r: "hash_rep m1 h1 tp (others m a xs)" using r1 by (auto simp: table_rep_def)
  have l: "load_flow (Some a) m1 = Ok (flow_at m1 a)" "load_flow (Some a) m = Ok (flow_at m a)"
    using a(1) st [of a] by (simp_all add: run_simps)
  show ?thesis
  proof (rule that [OF r wf1])
    show "HASH_REPLACE head (Some a) m = seq (HASH_ADD h1 (Some a) m1)
       (\<lambda>(head, m'). Ok (List.find (\<lambda>b. key_at m b = key_at m a) xs, head, m'))"
      unfolding HASH_REPLACE_def HASH_REPLACE_BYHASHVALUE_def HASH_ADD_def HASH_ADD_KEYPTR_def l seq.simps t k
      by simp
    show "HASH_REPLACE_INORDER cmp head (Some a) m = seq (HASH_ADD_INORDER cmp h1 (Some a) m1)
       (\<lambda>(head, m'). Ok (List.find (\<lambda>b. key_at m b = key_at m a) xs, head, m'))" for cmp
      unfolding HASH_REPLACE_INORDER_def HASH_REPLACE_BYHASHVALUE_INORDER_def HASH_ADD_INORDER_def
        HASH_ADD_KEYPTR_INORDER_def l seq.simps t k
      by simp
  qed (use a st k in \<open>auto simp: others_def\<close>)
qed

text \<open>
  \<open>HASH_REPLACE\<close> takes the element with the same key out of the table, if there is one,
  returns it, still allocated, and appends the new element; the other elements stay, in their order.
\<close>

lemma HASH_REPLACE_correct:
  assumes "table_rep m head xs" and "mem_wf m" and "valid m a" and "a \<notin> set xs"
  shows "safe (\<lambda>e. e = -1)
    (\<lambda>(replaced, head', m').
       replaced = List.find (\<lambda>b. key_at m b = key_at m a) xs \<and>
       table_rep m' head' (others m a xs @ [a]) \<and> mem_wf m' \<and>
       (\<forall>b. valid m' b = valid m b \<and> stats_of (flow_at m' b) = stats_of (flow_at m b)))
    (HASH_REPLACE head (Some a) m)"
proof -
  obtain m1 h1 tp where r: "hash_rep m1 h1 tp (others m a xs)" "mem_wf m1" "valid m1 a"
      "a \<notin> set (others m a xs)" "key_at m1 a \<notin> key_at m1 ` set (others m a xs)"
    and st: "\<And>b. valid m1 b = valid m b \<and> stats_of (flow_at m1 b) = stats_of (flow_at m b)"
    and run: "HASH_REPLACE head (Some a) m = seq (HASH_ADD h1 (Some a) m1)
       (\<lambda>(head, m'). Ok (List.find (\<lambda>b. key_at m b = key_at m a) xs, head, m'))"
      "\<And>cmp. HASH_REPLACE_INORDER cmp head (Some a) m = seq (HASH_ADD_INORDER cmp h1 (Some a) m1)
       (\<lambda>(head, m'). Ok (List.find (\<lambda>b. key_at m b = key_at m a) xs, head, m'))"
    by (rule HASH_REPLACE_split [OF assms], rule that, assumption+)
  show ?thesis unfolding run(1)
    by (rule safe_seq [OF safe_mono [OF HASH_ADD_correct [OF r]]], simp, assumption)
       (use st in \<open>auto simp: table_rep_def touches_def\<close>)
qed

text \<open>The same for \<open>HASH_REPLACE_INORDER\<close>, which puts the new element in its place.\<close>

lemma HASH_REPLACE_INORDER_correct:
  assumes "table_rep m head xs" and "mem_wf m" and "valid m a" and "a \<notin> set xs"
  shows "safe (\<lambda>e. e = -1)
    (\<lambda>(replaced, head', m').
       replaced = List.find (\<lambda>b. key_at m b = key_at m a) xs \<and>
       table_rep m' head' (insert_place cmp m a (others m a xs)) \<and> mem_wf m' \<and>
       (\<forall>b. valid m' b = valid m b \<and> stats_of (flow_at m' b) = stats_of (flow_at m b)))
    (HASH_REPLACE_INORDER cmp head (Some a) m)"
proof -
  obtain m1 h1 tp where r: "hash_rep m1 h1 tp (others m a xs)" "mem_wf m1" "valid m1 a"
      "a \<notin> set (others m a xs)" "key_at m1 a \<notin> key_at m1 ` set (others m a xs)"
    and st: "\<And>b. valid m1 b = valid m b \<and> stats_of (flow_at m1 b) = stats_of (flow_at m b)"
    and "HASH_REPLACE head (Some a) m = seq (HASH_ADD h1 (Some a) m1)
       (\<lambda>(head, m'). Ok (List.find (\<lambda>b. key_at m b = key_at m a) xs, head, m'))"
    and run: "\<And>cmp. HASH_REPLACE_INORDER cmp head (Some a) m = seq (HASH_ADD_INORDER cmp h1 (Some a) m1)
       (\<lambda>(head, m'). Ok (List.find (\<lambda>b. key_at m b = key_at m a) xs, head, m'))"
    by (rule HASH_REPLACE_split [OF assms], rule that, assumption+)
  have place: "insert_place cmp m1 a ys = insert_place cmp m a ys" for ys
    using st by (simp add: insert_place_def upto_greater_def from_greater_def)
  show ?thesis unfolding run
    by (rule safe_seq [OF safe_mono [OF HASH_ADD_INORDER_correct [OF r, of cmp]]], simp, assumption)
       (use st place in \<open>auto simp: table_rep_def touches_def\<close>)
qed

section \<open>HASH_CLEAR and HASH_OVERHEAD\<close>

lemma HASH_CLEAR_correct:
  assumes rep: "hash_rep m head tp xs"
  shows "HASH_CLEAR head m = Ok (None, m\<lparr>tbls := (\<lambda>t. if tp = Some t then None else tbls m t)\<rparr>)"
proof (cases head)
  case None
  then show ?thesis using hash_rep_None [of m tp xs] rep by (simp add: HASH_CLEAR_def)
next
  case (Some x)
  obtain t cs where x: "hd_opt xs = Some x" and tp: "tp = Some t" and ok: "table_ok m t xs cs"
    by (rule hash_rep_SomeE [OF rep [unfolded Some]])
  then have v: "valid m x" "tbl (hh_at m x) = Some t" "tvalid m t"
    using hd_opt_in_set [OF x] by (auto simp: table_ok_def app_ok_def)
  have "(tbls m)(t := None) = (\<lambda>s. if tp = Some s then None else tbls m s)" by (auto simp: tp)
  then show ?thesis using v by (auto simp: HASH_CLEAR_def Some run_simps free_tbl_def tvalid_def)
qed

text \<open>What a table costs: a handle per element, the bucket array, and the table object.\<close>

lemma overhead_no_overflow:
  fixes n b :: u32
  shows "unat (ucast n * 56 + ucast b * 16 + 64 :: 64 word) = unat n * 56 + unat b * 16 + 64"
proof -
  have "unat n < 2 ^ LENGTH(32)" "unat b < 2 ^ LENGTH(32)" by (rule unsigned_less)+
  then have "unat (of_nat (unat n * 56 + unat b * 16 + 64) :: 64 word) = unat n * 56 + unat b * 16 + 64"
    by (simp add: unsigned_of_nat take_bit_eq_mod del: of_nat_add of_nat_mult)
  then show ?thesis by simp
qed

lemma HASH_OVERHEAD_correct:
  assumes rep: "hash_rep m head (Some t) xs"
  shows "\<exists>n. HASH_OVERHEAD head m = Ok n \<and>
    unat n = unat (num_items (tbl_at m t)) * 56 + unat (num_buckets (tbl_at m t)) * 16 + 64"
proof -
  obtain x where head: "head = Some x" using rep by (cases head) (auto dest: hash_rep_None)
  obtain t' cs where x: "hd_opt xs = Some x" and "Some t = Some t'" "table_ok m t' xs cs"
    by (rule hash_rep_SomeE [OF rep [unfolded head]])
  then have "valid m x" "tbl (hh_at m x) = Some t" "tvalid m t"
    using hd_opt_in_set [OF x] by (auto simp: table_ok_def app_ok_def)
  then show ?thesis
    by (simp add: HASH_OVERHEAD_def head run_simps sizeof_UT_hash_handle_def sizeof_UT_hash_bucket_def
        sizeof_UT_hash_table_def HASH_BLOOM_BYTELEN_def overhead_no_overflow)
qed

section \<open>Compilers without decltype, and abbreviations\<close>

text \<open>
  Without \<open>decltype\<close> a \<open>void\<close> pointer cannot be cast to the type of the elements, so the search for
  the place assigns it to \<open>head\<close>, calls the comparison on \<open>head\<close>, and restores \<open>head\<close> from
  \<open>_hs_saved_head\<close> before it goes on.  The result is the place and the head.
\<close>

fun akbi_no_decltype :: "cmpfcn \<Rightarrow> nat \<Rightarrow> ptr \<Rightarrow> ptr \<Rightarrow> ptr \<Rightarrow> ptr \<Rightarrow> mem \<Rightarrow> (ptr \<times> ptr) outcome" where
  "akbi_no_decltype cmp 0 saved_head head it add m = Fault OutOfFuel"
| "akbi_no_decltype cmp (Suc n) saved_head head it add m =
     (let head = it in
      seq (load_flow head m) (\<lambda>f. seq (load_flow add m) (\<lambda>g.
      if cmp (stats_of f) (stats_of g) > 0 then let head = saved_head in Ok (it, head)
      else
        let head = saved_head in
        seq (next_hh it m) (\<lambda>it.
        if it = None then Ok (None, head) else akbi_no_decltype cmp n saved_head head it add m))))"

definition HASH_AKBI_INNER_LOOP_NO_DECLTYPE :: "cmpfcn \<Rightarrow> nat \<Rightarrow> ptr \<Rightarrow> ptr \<Rightarrow> ptr \<Rightarrow> mem \<Rightarrow> (ptr \<times> ptr) outcome" where
  "HASH_AKBI_INNER_LOOP_NO_DECLTYPE cmp n head it add m =
     (let saved_head = head in akbi_no_decltype cmp n saved_head head it add m)"

text \<open>Both versions find the same place, and the second one leaves \<open>head\<close> as it was.\<close>

lemma HASH_AKBI_INNER_LOOP_NO_DECLTYPE_eq:
  "HASH_AKBI_INNER_LOOP_NO_DECLTYPE cmp n head it add m =
     seq (HASH_AKBI_INNER_LOOP cmp n it add m) (\<lambda>it. Ok (it, head))"
proof -
  have "akbi_no_decltype cmp n head h it add m = seq (HASH_AKBI_INNER_LOOP cmp n it add m) (\<lambda>it. Ok (it, head))"
    for h
  proof (induction n arbitrary: h it)
    case (Suc n)
    show ?case by (simp add: Let_def Suc.IH seq_assoc if_distrib [of "\<lambda>r. seq r _"] cong: if_cong)
  qed simp
  then show ?thesis by (simp add: HASH_AKBI_INNER_LOOP_NO_DECLTYPE_def)
qed

definition HASH_ADD_BYHASHVALUE :: "ptr \<Rightarrow> u32 \<Rightarrow> ptr \<Rightarrow> mem \<Rightarrow> (ptr \<times> mem) outcome" where
  "HASH_ADD_BYHASHVALUE head hashval add m =
     HASH_ADD_KEYPTR_BYHASHVALUE head add (of_nat sizeof_flow_key_t) hashval add m"

definition HASH_ADD_BYHASHVALUE_INORDER ::
  "cmpfcn \<Rightarrow> ptr \<Rightarrow> u32 \<Rightarrow> ptr \<Rightarrow> mem \<Rightarrow> (ptr \<times> mem) outcome" where
  "HASH_ADD_BYHASHVALUE_INORDER cmp head hashval add m =
     HASH_ADD_KEYPTR_BYHASHVALUE_INORDER cmp head add (of_nat sizeof_flow_key_t) hashval add m"

definition HASH_SORT :: "cmpfcn \<Rightarrow> ptr \<Rightarrow> mem \<Rightarrow> (ptr \<times> mem) outcome" where
  "HASH_SORT cmp head m = HASH_SRT cmp head m"

lemma HASH_ADD_by_hash_value:
  assumes "valid m a"
  shows "HASH_ADD head (Some a) m = HASH_ADD_BYHASHVALUE head (hash_key (key_at m a)) (Some a) m"
    and "HASH_ADD_INORDER cmp head (Some a) m =
      HASH_ADD_BYHASHVALUE_INORDER cmp head (hash_key (key_at m a)) (Some a) m"
  using assms
  by (simp_all add: HASH_ADD_def HASH_ADD_KEYPTR_def HASH_ADD_BYHASHVALUE_def HASH_ADD_INORDER_def
      HASH_ADD_KEYPTR_INORDER_def HASH_ADD_BYHASHVALUE_INORDER_def load_flow_valid hash_key_def)

end
