(* ===== verification/Uthash_Nonfatal.thy ===== *)
theory Uthash_Nonfatal
  imports Uthash_Table
begin

text \<open>
  uthash built with \<open>HASH_NONFATAL_OOM\<close>: running out of memory does not end the process,
  \<open>HASH_RECORD_OOM\<close> sets the local flag \<open>oomed\<close>, the insertion is rolled back and
  \<open>uthash_nonfatal_oom (add)\<close> is called.  The macros that differ from theory Uthash return
  the flag with the heap; the flag an insertion returns is True exactly when it called
  \<open>uthash_nonfatal_oom\<close>, whose default body is empty.  The theorems: such an insertion
  never ends the process; where the ordinary insertion succeeds it is the ordinary one; and
  where memory runs out it leaves the table and every other node as they were.
\<close>

section \<open>The macros\<close>

definition HASH_MAKE_TABLE_nonfatal :: "ptr \<Rightarrow> mem \<Rightarrow> (bool \<times> mem) outcome" where
  "HASH_MAKE_TABLE_nonfatal head m =
     (let (p, m) = alloc sizeof_UT_hash_table m in
      seq (upd_hh head (\<lambda>h. h\<lparr>tbl := p\<rparr>) m) (\<lambda>m.
      case p of None \<Rightarrow> Ok (True, m)
      | Some t \<Rightarrow>
          let m = m\<lparr>tbls := (tbls m)(t \<mapsto> zero_table)\<rparr> in
          seq (upd_tbl_of head (\<lambda>T. T\<lparr>tail := head, num_buckets := HASH_INITIAL_NUM_BUCKETS,
                 log2_num_buckets := HASH_INITIAL_NUM_BUCKETS_LOG2\<rparr>) m) (\<lambda>m.
          let (q, m) = alloc (unat HASH_INITIAL_NUM_BUCKETS * sizeof_UT_hash_bucket) m in
          seq (upd_tbl_of head (\<lambda>T. T\<lparr>signature := HASH_SIGNATURE\<rparr>) m) (\<lambda>m.
          case q of
            None \<Rightarrow> seq (load_hh head m) (\<lambda>h. seq (free_tbl (tbl h) m) (\<lambda>m. Ok (True, m)))
          | Some _ \<Rightarrow>
              seq (upd_tbl_of head (\<lambda>T. T\<lparr>buckets := replicate (unat HASH_INITIAL_NUM_BUCKETS) zero_bucket\<rparr>) m)
                (\<lambda>m. Ok (False, m))))))"

text \<open>
  \<open>HASH_EXPAND_BUCKETS\<close> differs in its first branch only: when the new array cannot be
  allocated it records the failure and does nothing else.
\<close>

definition HASH_EXPAND_BUCKETS_nonfatal :: "ptr \<Rightarrow> mem \<Rightarrow> (bool \<times> mem) outcome" where
  "HASH_EXPAND_BUCKETS_nonfatal t m =
     seq (load_tbl t m) (\<lambda>T.
     case alloc (sizeof_UT_hash_bucket * unat (num_buckets T) * 2) m of
       (None, m') \<Rightarrow> Ok (True, m')
     | (Some _, _) \<Rightarrow> seq (HASH_EXPAND_BUCKETS t m) (\<lambda>m. Ok (False, m)))"

text \<open>The writes of \<open>HASH_ADD_TO_BKT\<close>, and its test for a chain that has become too long.\<close>

definition bkt_push :: "ptr \<Rightarrow> nat \<Rightarrow> ptr \<Rightarrow> mem \<Rightarrow> mem outcome" where
  "bkt_push t i addhh m =
     seq (upd_bucket_of t i (\<lambda>b. b\<lparr>bkt_count := bkt_count b + 1\<rparr>) m) (\<lambda>m.
     seq (load_bucket_of t i m) (\<lambda>b.
     seq (upd_hh addhh (\<lambda>h. h\<lparr>hh_next := hh_head b\<rparr>) m) (\<lambda>m.
     seq (upd_hh addhh (\<lambda>h. h\<lparr>hh_prev := None\<rparr>) m) (\<lambda>m.
     seq (if hh_head b \<noteq> None then upd_hh (hh_head b) (\<lambda>h. h\<lparr>hh_prev := addhh\<rparr>) m else Ok m) (\<lambda>m.
     upd_bucket_of t i (\<lambda>b. b\<lparr>hh_head := addhh\<rparr>) m)))))"

definition bkt_grows :: "ptr \<Rightarrow> nat \<Rightarrow> ptr \<Rightarrow> mem \<Rightarrow> bool outcome" where
  "bkt_grows t i addhh m =
     seq (load_bucket_of t i m) (\<lambda>b.
     seq (load_tbl_of addhh m) (\<lambda>T.
     Ok (bkt_count b \<ge> (expand_mult b + 1) * HASH_BKT_CAPACITY_THRESH \<and> noexpand T = 0)))"

definition HASH_ADD_TO_BKT_nonfatal :: "ptr \<Rightarrow> nat \<Rightarrow> ptr \<Rightarrow> mem \<Rightarrow> (bool \<times> mem) outcome" where
  "HASH_ADD_TO_BKT_nonfatal t i addhh m =
     seq (bkt_push t i addhh m) (\<lambda>m.
     seq (bkt_grows t i addhh m) (\<lambda>grows.
     if grows then
       seq (load_hh addhh m) (\<lambda>h.
       seq (HASH_EXPAND_BUCKETS_nonfatal (tbl h) m) (\<lambda>(oomed, m).
       if oomed then seq (HASH_DEL_IN_BKT t i addhh m) (\<lambda>m. Ok (True, m))
       else Ok (False, m)))
     else Ok (False, m)))"

text \<open>
  The element is on no chain any more; \<open>HASH_ROLLBACK_BKT\<close> counts it again and clears its
  chain links, so that \<open>HASH_DELETE_HH\<close> can take it out of the table.
\<close>

definition HASH_ROLLBACK_BKT :: "ptr \<Rightarrow> ptr \<Rightarrow> mem \<Rightarrow> mem outcome" where
  "HASH_ROLLBACK_BKT head itemptrhh m =
     seq (load_hh itemptrhh m) (\<lambda>item.
     seq (load_hh head m) (\<lambda>h.
     seq (load_tbl (tbl h) m) (\<lambda>T.
     let bkt = unat (HASH_TO_BKT (hashv item) (num_buckets T)) in
     seq (upd_bucket_of (tbl h) bkt (\<lambda>b. b\<lparr>bkt_count := bkt_count b + 1\<rparr>) m) (\<lambda>m.
     seq (upd_hh itemptrhh (\<lambda>h. h\<lparr>hh_next := None\<rparr>) m) (\<lambda>m.
     upd_hh itemptrhh (\<lambda>h. h\<lparr>hh_prev := None\<rparr>) m)))))"

definition HASH_ADD_TO_TABLE_nonfatal ::
  "ptr \<Rightarrow> u32 \<Rightarrow> ptr \<Rightarrow> bool \<Rightarrow> mem \<Rightarrow> (ptr \<times> bool \<times> mem) outcome" where
  "HASH_ADD_TO_TABLE_nonfatal head hashval add oomed m =
     (if \<not> oomed then
        seq (upd_tbl_of head (\<lambda>T. T\<lparr>num_items := num_items T + 1\<rparr>) m) (\<lambda>m.
        seq (load_hh head m) (\<lambda>h.
        seq (load_tbl (tbl h) m) (\<lambda>T.
        seq (HASH_ADD_TO_BKT_nonfatal (tbl h) (unat (HASH_TO_BKT hashval (num_buckets T))) add m) (\<lambda>(oomed, m).
        if oomed then
          seq (HASH_ROLLBACK_BKT head add m) (\<lambda>m.
          seq (HASH_DELETE_HH head add m) (\<lambda>(head, m).
          seq (upd_hh add (\<lambda>h. h\<lparr>tbl := None\<rparr>) m) (\<lambda>m. Ok (head, True, m))))
        else Ok (head, False, m)))))
      else seq (upd_hh add (\<lambda>h. h\<lparr>tbl := None\<rparr>) m) (\<lambda>m. Ok (head, True, m)))"

definition HASH_ADD_KEYPTR_BYHASHVALUE_nonfatal ::
  "ptr \<Rightarrow> ptr \<Rightarrow> u32 \<Rightarrow> u32 \<Rightarrow> ptr \<Rightarrow> mem \<Rightarrow> (ptr \<times> bool \<times> mem) outcome" where
  "HASH_ADD_KEYPTR_BYHASHVALUE_nonfatal head kp keylen_in hashval add m =
     seq (upd_hh add (\<lambda>h. h\<lparr>hashv := hashval, keyptr := kp, keylen := keylen_in\<rparr>) m) (\<lambda>m.
     seq (if head = None then
            seq (upd_hh add (\<lambda>h. h\<lparr>app_next := None, app_prev := None\<rparr>) m) (\<lambda>m.
            seq (HASH_MAKE_TABLE_nonfatal add m) (\<lambda>(oomed, m).
            Ok (if \<not> oomed then add else head, oomed, m)))
          else
            seq (load_hh head m) (\<lambda>hd.
            seq (upd_hh add (\<lambda>h. h\<lparr>tbl := tbl hd\<rparr>) m) (\<lambda>m.
            seq (HASH_APPEND_LIST head add m) (\<lambda>m. Ok (head, False, m))))) (\<lambda>(head, oomed, m).
     HASH_ADD_TO_TABLE_nonfatal head hashval add oomed m))"

definition HASH_ADD_nonfatal :: "ptr \<Rightarrow> ptr \<Rightarrow> mem \<Rightarrow> (ptr \<times> bool \<times> mem) outcome" where
  "HASH_ADD_nonfatal head add m =
     seq (load_flow add m) (\<lambda>f.
     HASH_ADD_KEYPTR_BYHASHVALUE_nonfatal head add (of_nat sizeof_flow_key_t)
       (HASH_VALUE (key_bytes (key f))) add m)"

section \<open>The insertion without memory\<close>

lemma mem_eqI:
  fixes m m' :: mem
  assumes "\<And>b. flows m' b = flows m b" and "\<And>s. tbls m' s = tbls m s"
    and "fresh m' = fresh m" "budget m' = budget m" "max_block m' = max_block m"
  shows "m' = m"
  using assms by (cases m; cases m') (auto simp: fun_eq_iff)

lemma HASH_ADD_TO_BKT_split:
  "HASH_ADD_TO_BKT t i addhh m =
     seq (bkt_push t i addhh m) (\<lambda>m.
     seq (bkt_grows t i addhh m) (\<lambda>grows.
     if grows then seq (load_hh addhh m) (\<lambda>h. HASH_EXPAND_BUCKETS (tbl h) m) else Ok m))"
  by (simp add: HASH_ADD_TO_BKT_def bkt_push_def bkt_grows_def seq_assoc)

text \<open>The heap after the writes of \<open>HASH_ADD_TO_BKT\<close>.\<close>

definition pushed_mem :: "addr \<Rightarrow> nat \<Rightarrow> addr \<Rightarrow> mem \<Rightarrow> mem" where
  "pushed_mem t i a m =
     set_bucket t i (\<lambda>b. b\<lparr>hh_head := Some a\<rparr>)
       (push_links a (hh_head (buckets (tbl_at m t) ! i))
         (set_bucket t i (\<lambda>b. b\<lparr>bkt_count := bkt_count b + 1\<rparr>) m))"

lemma bkt_push_run:
  assumes "tvalid m t" "i < length (buckets (tbl_at m t))" "valid m a"
    and "\<And>x. hh_head (buckets (tbl_at m t) ! i) = Some x \<Longrightarrow> valid m x"
  shows "bkt_push (Some t) i (Some a) m = Ok (pushed_mem t i a m)"
proof (cases "hh_head (buckets (tbl_at m t) ! i)")
  case None
  then show ?thesis using assms
    by (simp add: bkt_push_def run_simps bucket_rules set_rules pushed_mem_def push_links_def)
next
  case (Some x)
  then show ?thesis using assms(1-3) assms(4) [OF Some]
    by (simp add: bkt_push_def run_simps bucket_rules set_rules pushed_mem_def push_links_def)
qed

text \<open>Taking the element off its chain again leaves the heap as it was, but for its links.\<close>

lemma bkt_undo:
  assumes t: "tvalid m t" "i < length (buckets (tbl_at m t))" and a: "valid m a"
    and p: "hh_head (buckets (tbl_at m t) ! i) = p" "p \<noteq> Some a"
    and x: "\<And>x. p = Some x \<Longrightarrow> valid m x \<and> hh_prev (hh_at m x) = None"
  shows "HASH_DEL_IN_BKT (Some t) i (Some a) (pushed_mem t i a m) =
    Ok (set_hh a (\<lambda>h. h\<lparr>hh_next := p, hh_prev := None\<rparr>) m)"
proof -
  define m3 where "m3 = pushed_mem t i a m"
  define B where "B = buckets (tbl_at m t)"
  have T3: "tbl_at m3 t = (tbl_at m t)\<lparr>buckets := B[i := (B ! i)\<lparr>bkt_count := bkt_count (B ! i) + 1,
      hh_head := Some a\<rparr>]\<rparr>"
    using t by (simp add: m3_def pushed_mem_def bucket_rules B_def)
  have v3: "tvalid m3 t" "valid m3 a" "i < length (buckets (tbl_at m3 t))"
    using a t T3 by (simp_all add: m3_def pushed_mem_def tvalid_set_bucket push_links_def valid_set_hh B_def
        Let_def split: option.split)
  have L3: "hh_next (hh_at m3 a) = p" "hh_prev (hh_at m3 a) = None"
    using push_links_handle(1,2) [OF p(2)] by (simp_all add: m3_def pushed_mem_def p(1))
  have vx: "valid m3 x" if "p = Some x" for x
    using x [OF that] that by (simp add: m3_def pushed_mem_def push_links_def valid_set_hh Let_def p(1))
  define m4 where "m4 = set_bucket t i (\<lambda>b. b\<lparr>hh_head := p\<rparr>)
      (set_bucket t i (\<lambda>b. b\<lparr>bkt_count := bkt_count b - 1\<rparr>) m3)"
  define m5 where "m5 = (case p of None \<Rightarrow> m4 | Some x \<Rightarrow> set_hh x (\<lambda>h. h\<lparr>hh_prev := None\<rparr>) m4)"
  have run: "HASH_DEL_IN_BKT (Some t) i (Some a) m3 = Ok m5"
    using v3 L3 vx t
    by (cases p)
       (simp_all add: HASH_DEL_IN_BKT_def run_simps bucket_rules set_rules T3 m4_def m5_def B_def)
  have "m5 = set_hh a (\<lambda>h. h\<lparr>hh_next := p, hh_prev := None\<rparr>) m"
  proof (rule mem_eqI)
    have fr: "fresh m5 = fresh m4" "budget m5 = budget m4" "max_block m5 = max_block m4" "tbls m5 = tbls m4"
      by (simp_all add: m5_def split: option.split)
    show "fresh m5 = fresh (set_hh a (\<lambda>h. h\<lparr>hh_next := p, hh_prev := None\<rparr>) m)"
      "budget m5 = budget (set_hh a (\<lambda>h. h\<lparr>hh_next := p, hh_prev := None\<rparr>) m)"
      "max_block m5 = max_block (set_hh a (\<lambda>h. h\<lparr>hh_next := p, hh_prev := None\<rparr>) m)"
      by (simp_all add: fr m4_def m3_def pushed_mem_def)
    show "tbls m5 s = tbls (set_hh a (\<lambda>h. h\<lparr>hh_next := p, hh_prev := None\<rparr>) m) s" for s
    proof (cases "s = t")
      case False
      then show ?thesis by (simp add: fr m4_def m3_def pushed_mem_def)
    next
      case True
      have "tbl_at m4 t = tbl_at m t"
        using t p by (cases "tbl_at m t"; cases "B ! i")
          (simp add: m4_def bucket_rules T3 B_def list_update_same_conv)
      moreover have "tvalid m4 t" by (simp add: m4_def tvalid_set_bucket)
      ultimately show ?thesis using True t by (auto simp: fr tvalid_def)
    qed
    show "flows m5 b = flows (set_hh a (\<lambda>h. h\<lparr>hh_next := p, hh_prev := None\<rparr>) m) b" for b
    proof (cases p)
      case None
      then show ?thesis
        by (simp add: m5_def m4_def m3_def pushed_mem_def push_links_def p(1) set_hh_def set_flow_def)
    next
      case (Some x)
      then have xa: "x \<noteq> a" using p by simp
      have "flows m x \<noteq> None" "hh_prev (hh_at m x) = None" using x [OF Some] by (simp_all add: valid_def)
      then obtain f where f: "flows m x = Some f" "hh_prev (hh f) = None" by auto
      then have "hh_update (\<lambda>h. hh f\<lparr>hh_prev := None\<rparr>) f = f" by (cases f; cases "hh f") auto
      then show ?thesis using Some xa f
        by (simp add: m5_def m4_def m3_def pushed_mem_def push_links_def p(1) set_hh_def set_flow_def)
    qed
  qed
  then show ?thesis using run by (simp add: m3_def)
qed

text \<open>The element as a failed insertion leaves it: in no table, with no chain links.\<close>

definition failed_handle :: "addr \<Rightarrow> u32 \<Rightarrow> ptr \<Rightarrow> UT_hash_handle \<Rightarrow> UT_hash_handle" where
  "failed_handle a hv p h = (new_handle a hv None p h)\<lparr>hh_next := None, hh_prev := None\<rparr>"

lemma HASH_DEL_IN_BKT_unlinked:
  assumes "tvalid m t" "i < length (buckets (tbl_at m t))" "valid m a"
    and "hh_head (buckets (tbl_at m t) ! i) \<noteq> Some a"
    and "hh_prev (hh_at m a) = None" "hh_next (hh_at m a) = None"
  shows "HASH_DEL_IN_BKT (Some t) i (Some a) m =
    Ok (set_bucket t i (\<lambda>b. b\<lparr>bkt_count := bkt_count b - 1\<rparr>) m)"
  using assms by (simp add: HASH_DEL_IN_BKT_def run_simps bucket_rules)

lemma set_tbl_set_tbl [simp]: "set_tbl t f (set_tbl t g m) = set_tbl t (\<lambda>T. f (g T)) m"
  by (simp add: set_tbl_def)

lemma set_bucket_set_hh: "set_bucket t i f (set_hh a g m) = set_hh a g (set_bucket t i f m)"
  by (simp add: set_bucket_def set_tbl_set_hh)

lemma HASH_ROLLBACK_BKT_run:
  assumes "valid m a" "valid m x" "tbl (hh_at m x) = Some t" "tvalid m t" "i < length (buckets (tbl_at m t))"
    and "i = unat (HASH_TO_BKT (hashv (hh_at m a)) (num_buckets (tbl_at m t)))"
  shows "HASH_ROLLBACK_BKT (Some x) (Some a) m =
    Ok (set_hh a (\<lambda>h. h\<lparr>hh_next := None, hh_prev := None\<rparr>)
      (set_bucket t i (\<lambda>b. b\<lparr>bkt_count := bkt_count b + 1\<rparr>) m))"
  using assms by (simp add: HASH_ROLLBACK_BKT_def run_simps set_rules)

lemma HASH_DELETE_HH_last:
  assumes t: "tvalid m t" "i < length (buckets (tbl_at m t))" "tail (tbl_at m t) = Some a"
    and i: "i = unat (HASH_TO_BKT (hashv (hh_at m a)) (num_buckets (tbl_at m t)))"
    and hd: "hh_head (buckets (tbl_at m t) ! i) \<noteq> Some a"
    and a: "valid m a" "app_prev (hh_at m a) = Some z" "app_next (hh_at m a) = None"
      "hh_prev (hh_at m a) = None" "hh_next (hh_at m a) = None"
    and x: "valid m x" "tbl (hh_at m x) = Some t" and z: "valid m z" "z \<noteq> a"
  shows "HASH_DELETE_HH (Some x) (Some a) m =
    Ok (Some x, set_tbl t (\<lambda>T. T\<lparr>num_items := num_items T - 1\<rparr>)
      (set_bucket t i (\<lambda>b. b\<lparr>bkt_count := bkt_count b - 1\<rparr>)
        (set_hh z (\<lambda>h. h\<lparr>app_next := None\<rparr>) (set_tbl t (\<lambda>T. T\<lparr>tail := Some z\<rparr>) m))))"
proof -
  define m1 where "m1 = set_hh z (\<lambda>h. h\<lparr>app_next := None\<rparr>) (set_tbl t (\<lambda>T. T\<lparr>tail := Some z\<rparr>) m)"
  have m1: "tvalid m1 t" "tbl_at m1 t = (tbl_at m t)\<lparr>tail := Some z\<rparr>" "valid m1 a" "valid m1 x"
    "hh_at m1 a = hh_at m a" "tbl (hh_at m1 x) = Some t"
    using t a x z by (auto simp: m1_def set_rules)
  have del: "HASH_DEL_IN_BKT (Some t) i (Some a) m1 =
      Ok (set_bucket t i (\<lambda>b. b\<lparr>bkt_count := bkt_count b - 1\<rparr>) m1)"
    by (rule HASH_DEL_IN_BKT_unlinked) (use m1 t hd a in simp_all)
  show ?thesis
    using t a x z m1 i del
    by (simp add: HASH_DELETE_HH_def run_simps m1_def [symmetric] tvalid_set_bucket)
qed

lemma rollback_run:
  assumes t: "tvalid m t" "i < length (buckets (tbl_at m t))" "tail (tbl_at m t) = Some z"
    and i: "i = unat (HASH_TO_BKT hv (num_buckets (tbl_at m t)))"
    and hd: "hh_head (buckets (tbl_at m t) ! i) \<noteq> Some a"
    and a: "valid m a" and x: "valid m x" "tbl (hh_at m x) = Some t" "x \<noteq> a"
    and z: "valid m z" "app_next (hh_at m z) = None" "z \<noteq> a"
  shows "seq (HASH_ROLLBACK_BKT (Some x) (Some a)
       (set_hh a (\<lambda>h. h\<lparr>hh_next := p, hh_prev := None\<rparr>)
         (set_tbl t (\<lambda>T. T\<lparr>num_items := num_items T + 1\<rparr>) (append_mem t z a hv m)))) (\<lambda>m.
     seq (HASH_DELETE_HH (Some x) (Some a) m) (\<lambda>(head, m).
     seq (upd_hh (Some a) (\<lambda>h. h\<lparr>tbl := None\<rparr>) m) (\<lambda>m. Ok (head, True, m)))) =
     Ok (Some x, True, set_hh a (failed_handle a hv (Some z)) m)"
proof -
  define m2 where "m2 = set_hh a (\<lambda>h. h\<lparr>hh_next := p, hh_prev := None\<rparr>)
         (set_tbl t (\<lambda>T. T\<lparr>num_items := num_items T + 1\<rparr>) (append_mem t z a hv m))"
  define m3 where "m3 = set_hh a (\<lambda>h. h\<lparr>hh_next := None, hh_prev := None\<rparr>)
      (set_bucket t i (\<lambda>b. b\<lparr>bkt_count := bkt_count b + 1\<rparr>) m2)"
  define m4 where "m4 = set_tbl t (\<lambda>T. T\<lparr>num_items := num_items T - 1\<rparr>)
      (set_bucket t i (\<lambda>b. b\<lparr>bkt_count := bkt_count b - 1\<rparr>)
        (set_hh z (\<lambda>h. h\<lparr>app_next := None\<rparr>) (set_tbl t (\<lambda>T. T\<lparr>tail := Some z\<rparr>) m3)))"
  have T2: "tvalid m2 t" "tbl_at m2 t = (tbl_at m t)\<lparr>tail := Some a, num_items := num_items (tbl_at m t) + 1\<rparr>"
    by (simp_all add: m2_def append_mem_def set_rules)
  have v2: "valid m2 a" "valid m2 x" "valid m2 z" using a x z
    by (simp_all add: m2_def append_mem_def set_rules)
  have h2: "hh_at m2 a = (new_handle a hv (Some t) (Some z) (hh_at m a))\<lparr>hh_next := p, hh_prev := None\<rparr>"
    "tbl (hh_at m2 x) = Some t"
    using a x z by (auto simp: m2_def append_mem_def set_rules)
  have st1: "HASH_ROLLBACK_BKT (Some x) (Some a) m2 = Ok m3"
    unfolding m3_def by (rule HASH_ROLLBACK_BKT_run) (use v2 T2 h2 t i in \<open>simp_all add: new_handle_def\<close>)
  have st2: "HASH_DELETE_HH (Some x) (Some a) m3 = Ok (Some x, m4)"
    unfolding m4_def
    by (rule HASH_DELETE_HH_last)
       (use v2 T2 h2 t i hd x z in \<open>simp_all add: m3_def set_rules bucket_rules new_handle_def\<close>)
  have v4: "valid m4 a" using v2 by (simp add: m4_def m3_def set_rules)
  have "set_hh a (\<lambda>h. h\<lparr>tbl := None\<rparr>) m4 = set_hh a (failed_handle a hv (Some z)) m"
  proof -
    have H: "set_tbl t (\<lambda>T. T\<lparr>num_items := num_items T - 1\<rparr>)
      (set_bucket t i (\<lambda>b. b\<lparr>bkt_count := bkt_count b - 1\<rparr>) (set_tbl t (\<lambda>T. T\<lparr>tail := Some z\<rparr>)
      (set_bucket t i (\<lambda>b. b\<lparr>bkt_count := bkt_count b + 1\<rparr>)
      (set_tbl t (\<lambda>T. T\<lparr>num_items := num_items T + 1\<rparr>) (set_tbl t (\<lambda>T. T\<lparr>tail := Some a\<rparr>) m))))) = m"
      unfolding set_bucket_def set_tbl_set_tbl
      by (rule set_tbl_id) (use t in \<open>cases "tbl_at m t"; cases "buckets (tbl_at m t) ! i"; simp add: list_update_same_conv\<close>)+
    have Z: "set_hh z (\<lambda>h. h\<lparr>app_next := None\<rparr>) m = m"
      by (rule set_hh_id) (use z in \<open>cases "hh_at m z"; simp\<close>)+
    have fh: "failed_handle a hv (Some z) = (\<lambda>h. h\<lparr>hashv := hv, keyptr := Some a, keylen := 16,
        app_next := None, app_prev := Some z, hh_next := None, hh_prev := None, tbl := None\<rparr>)"
      by (simp add: failed_handle_def new_handle_def fun_eq_iff)
    have "set_hh a (\<lambda>h. h\<lparr>tbl := None\<rparr>) m4 = set_hh a (failed_handle a hv (Some z))
       (set_hh z (\<lambda>h. h\<lparr>app_next := None\<rparr>) m)"
      by (simp add: m4_def m3_def m2_def append_mem_def set_tbl_set_hh set_bucket_set_hh
         set_hh_commute [OF z(3)] H new_handle_def failed_handle_def fh del: set_tbl_set_tbl)
    then show ?thesis by (simp add: Z)
  qed
  then show ?thesis
    unfolding m2_def [symmetric] using v4 by (simp add: st1 st2 run_simps)
qed

section \<open>The ordinary insertion and the one that reports\<close>

definition expand_oom :: "addr \<Rightarrow> mem \<Rightarrow> bool" where
  "expand_oom t m \<longleftrightarrow> budget m = 0 \<or> max_block m < 32 * unat (num_buckets (tbl_at m t))"

lemma expand_runs:
  assumes "tvalid m t"
  shows "expand_oom t m \<Longrightarrow> HASH_EXPAND_BUCKETS (Some t) m = Exit (-1) \<and>
      HASH_EXPAND_BUCKETS_nonfatal (Some t) m = Ok (True, m)"
    and "\<not> expand_oom t m \<Longrightarrow> HASH_EXPAND_BUCKETS_nonfatal (Some t) m =
      seq (HASH_EXPAND_BUCKETS (Some t) m) (\<lambda>m. Ok (False, m))"
  using assms
  by (simp_all add: HASH_EXPAND_BUCKETS_def HASH_EXPAND_BUCKETS_nonfatal_def run_simps alloc_def
      expand_oom_def sizeof_UT_hash_bucket_def mult.commute)

definition grows_at :: "addr \<Rightarrow> nat \<Rightarrow> mem \<Rightarrow> bool" where
  "grows_at t i m \<longleftrightarrow>
     (let T = tbl_at m t; b = buckets T ! i in
      bkt_count b \<ge> (expand_mult b + 1) * HASH_BKT_CAPACITY_THRESH \<and> noexpand T = 0)"

lemma add_to_table_runs:
  assumes x: "valid m x" "tbl (hh_at m x) = Some t" and t: "tvalid m t"
    and i: "i = unat (HASH_TO_BKT hv (num_buckets (tbl_at m t)))"
    and push: "bkt_push (Some t) i (Some a) (set_tbl t (\<lambda>T. T\<lparr>num_items := num_items T + 1\<rparr>) m) = Ok m3"
    and m3: "tvalid m3 t" "i < length (buckets (tbl_at m3 t))" "valid m3 a" "tbl (hh_at m3 a) = Some t"
  shows "HASH_ADD_TO_TABLE (Some x) hv (Some a) m =
      (if grows_at t i m3 then HASH_EXPAND_BUCKETS (Some t) m3 else Ok m3)"
    and "HASH_ADD_TO_TABLE_nonfatal (Some x) hv (Some a) False m =
      (if grows_at t i m3 then
         seq (HASH_EXPAND_BUCKETS_nonfatal (Some t) m3) (\<lambda>(oomed, m).
         if oomed then
           seq (HASH_DEL_IN_BKT (Some t) i (Some a) m) (\<lambda>m.
           seq (HASH_ROLLBACK_BKT (Some x) (Some a) m) (\<lambda>m.
           seq (HASH_DELETE_HH (Some x) (Some a) m) (\<lambda>(head, m).
           seq (upd_hh (Some a) (\<lambda>h. h\<lparr>tbl := None\<rparr>) m) (\<lambda>m. Ok (head, True, m)))))
         else Ok (Some x, False, m))
       else Ok (Some x, False, m3))"
proof -
  have grows: "bkt_grows (Some t) i (Some a) m3 = Ok (grows_at t i m3)"
    using m3 by (simp add: bkt_grows_def grows_at_def run_simps Let_def)
  have st: "upd_tbl_of (Some x) f m = Ok (set_tbl t f m)"
    "load_hh (Some x) (set_tbl t f m) = Ok (hh_at m x)"
    "load_tbl (Some t) (set_tbl t f m) = Ok (f (tbl_at m t))" for f
    using x t by (simp_all add: run_simps set_rules)
  show "HASH_ADD_TO_TABLE (Some x) hv (Some a) m =
      (if grows_at t i m3 then HASH_EXPAND_BUCKETS (Some t) m3 else Ok m3)"
    using x push m3 by (simp add: HASH_ADD_TO_TABLE_def HASH_ADD_TO_BKT_split st i [symmetric] grows run_simps)
  show "HASH_ADD_TO_TABLE_nonfatal (Some x) hv (Some a) False m =
      (if grows_at t i m3 then
         seq (HASH_EXPAND_BUCKETS_nonfatal (Some t) m3) (\<lambda>(oomed, m).
         if oomed then
           seq (HASH_DEL_IN_BKT (Some t) i (Some a) m) (\<lambda>m.
           seq (HASH_ROLLBACK_BKT (Some x) (Some a) m) (\<lambda>m.
           seq (HASH_DELETE_HH (Some x) (Some a) m) (\<lambda>(head, m).
           seq (upd_hh (Some a) (\<lambda>h. h\<lparr>tbl := None\<rparr>) m) (\<lambda>m. Ok (head, True, m)))))
         else Ok (Some x, False, m))
       else Ok (Some x, False, m3))"
    using x push m3
    by (simp add: HASH_ADD_TO_TABLE_nonfatal_def HASH_ADD_TO_BKT_nonfatal_def st i [symmetric] grows
        run_simps seq_assoc case_prod_beta)
       (intro impI seq_cong refl, simp add: seq_assoc i split: prod.split)
qed

text \<open>The bucket of a new element in a well-formed table.\<close>

lemma bucket_head:
  fixes hv :: u32
  assumes ok: "buckets_ok m t cs"
  defines "i \<equiv> unat (HASH_TO_BKT hv (num_buckets (tbl_at m t)))"
  shows "i < length (buckets (tbl_at m t))"
    and "hh_head (buckets (tbl_at m t) ! i) = Some y \<Longrightarrow>
      valid m y \<and> hh_prev (hh_at m y) = None \<and> y \<in> in_chains cs"
proof -
  obtain k where k: "k < 32" "num_buckets (tbl_at m t) = 2 ^ k" "length cs = 2 ^ k"
    and ch: "chains_ok m (num_buckets (tbl_at m t)) (buckets (tbl_at m t)) cs"
    using ok by (auto simp: buckets_ok_def)
  have il: "i < length cs" using HASH_TO_BKT_less k by (simp add: i_def)
  then show "i < length (buckets (tbl_at m t))" using ch by (simp add: chains_ok_def)
  have c: "chain_ok m (num_buckets (tbl_at m t)) i (buckets (tbl_at m t) ! i) (cs ! i)"
    using ch il by (simp add: chains_ok_def)
  assume "hh_head (buckets (tbl_at m t) ! i) = Some y"
  then have hd: "hd_opt (cs ! i) = Some y" using c by (simp add: chain_ok_def)
  then have "y \<in> set (cs ! i)" "prev_in (cs ! i) y = None" by (cases "cs ! i"; simp)+
  then show "valid m y \<and> hh_prev (hh_at m y) = None \<and> y \<in> in_chains cs"
    using c nth_mem [OF il] by (auto simp: chain_ok_def in_chains_def)
qed

lemma bucket_of_new:
  fixes hv :: u32
  assumes ok: "table_ok m t xs cs"
  defines "i \<equiv> unat (HASH_TO_BKT hv (num_buckets (tbl_at m t)))"
  shows "i < length (buckets (tbl_at m t))"
    and "hh_head (buckets (tbl_at m t) ! i) = Some y \<Longrightarrow>
      valid m y \<and> hh_prev (hh_at m y) = None \<and> y \<in> set xs"
  using bucket_head [where m = m and t = t and cs = cs and hv = hv] ok by (simp_all add: table_ok_buckets_ok i_def)

lemma pushed_mem_facts:
  assumes "tvalid m t" "i < length (buckets (tbl_at m t))" "valid m a" "tbl (hh_at m a) = Some t"
    and "hh_head (buckets (tbl_at m t) ! i) \<noteq> Some a"
  shows "tvalid (pushed_mem t i a m) t" "i < length (buckets (tbl_at (pushed_mem t i a m) t))"
    and "valid (pushed_mem t i a m) a" "tbl (hh_at (pushed_mem t i a m) a) = Some t"
    and "num_buckets (tbl_at (pushed_mem t i a m) t) = num_buckets (tbl_at m t)"
    and "budget (pushed_mem t i a m) = budget m" "max_block (pushed_mem t i a m) = max_block m"
  using assms
  by (auto simp: pushed_mem_def push_links_def Let_def bucket_rules set_rules split: option.split)

text \<open>The list and the element a non-empty table and an element that is not in it give.\<close>

lemma table_ends:
  assumes ok: "table_ok m t xs cs" and ne: "xs \<noteq> []" and a: "a \<notin> set xs"
  obtains x z where "hd_opt xs = Some x" "last_opt xs = Some z" "z = last xs" "tvalid m t"
    "tail (tbl_at m t) = Some z" "valid m x" "tbl (hh_at m x) = Some t" "x \<noteq> a"
    "valid m z" "z \<noteq> a" "app_next (hh_at m z) = None"
proof -
  obtain x where x: "hd_opt xs = Some x" "x \<in> set xs" using ne by (cases xs) auto
  have z: "last xs \<in> set xs" "last_opt xs = Some (last xs)" using ne by (simp_all add: last_opt_def)
  have app: "app_ok m t xs" and tv: "tvalid m t" "tail (tbl_at m t) = Some (last xs)"
    using ok z by (simp_all add: table_ok_def)
  moreover have "next_in xs (last xs) = None"
    using next_in_None_iff [of xs "last xs"] app z by (simp add: app_ok_def)
  ultimately show thesis
    using that [OF x(1) z(2) refl tv] x(2) z(1) a unfolding app_ok_def by metis
qed

lemma add_prefix_nonempty:
  assumes "valid m a" "valid m x" "valid m z" "x \<noteq> a" "z \<noteq> a" "tbl (hh_at m x) = Some t"
    and "tvalid m t" "tail (tbl_at m t) = Some z"
  shows "HASH_ADD (Some x) (Some a) m =
      seq (HASH_ADD_TO_TABLE (Some x) (hash_key (key_at m a)) (Some a)
        (append_mem t z a (hash_key (key_at m a)) m)) (\<lambda>m. Ok (Some x, m))"
    and "HASH_ADD_nonfatal (Some x) (Some a) m =
      HASH_ADD_TO_TABLE_nonfatal (Some x) (hash_key (key_at m a)) (Some a) False
        (append_mem t z a (hash_key (key_at m a)) m)"
proof -
  note run = HASH_APPEND_LIST_run [OF assms, of "hash_key (key_at m a)"]
  have "HASH_ADD (Some x) (Some a) m = seq (Ok (append_mem t z a (hash_key (key_at m a)) m))
      (\<lambda>m'. seq (HASH_ADD_TO_TABLE (Some x) (hash_key (key_at m a)) (Some a) m') (\<lambda>m. Ok (Some x, m)))"
    "HASH_ADD_nonfatal (Some x) (Some a) m = seq (Ok (append_mem t z a (hash_key (key_at m a)) m))
      (HASH_ADD_TO_TABLE_nonfatal (Some x) (hash_key (key_at m a)) (Some a) False)"
    unfolding run [symmetric] using assms(1)
    by (simp_all add: HASH_ADD_def HASH_ADD_KEYPTR_def HASH_ADD_KEYPTR_BYHASHVALUE_def
        HASH_ADD_nonfatal_def HASH_ADD_KEYPTR_BYHASHVALUE_nonfatal_def
        sizeof_flow_key_t_def hash_key_def seq_assoc load_flow_valid)
  then show "HASH_ADD (Some x) (Some a) m =
      seq (HASH_ADD_TO_TABLE (Some x) (hash_key (key_at m a)) (Some a)
        (append_mem t z a (hash_key (key_at m a)) m)) (\<lambda>m. Ok (Some x, m))"
    "HASH_ADD_nonfatal (Some x) (Some a) m =
      HASH_ADD_TO_TABLE_nonfatal (Some x) (hash_key (key_at m a)) (Some a) False
        (append_mem t z a (hash_key (key_at m a)) m)"
    by simp_all
qed

text \<open>
  \<open>HASH_ADD_TO_BKT\<close> on the chains of a table: both versions return the same, or the ordinary one ends
  the process and the other leaves nothing but the chain links of the element.
\<close>

lemma add_to_bkt_both:
  assumes ok: "buckets_ok m t cs" and wf: "mem_wf m" and a: "valid m a" "a \<notin> in_chains cs"
    and at: "tbl (hh_at m a) = Some t"
    and i: "i = unat (HASH_TO_BKT (hashv (hh_at m a)) (num_buckets (tbl_at m t)))"
  shows "(\<exists>m'. HASH_ADD_TO_BKT (Some t) i (Some a) m = Ok m' \<and>
       HASH_ADD_TO_BKT_nonfatal (Some t) i (Some a) m = Ok (False, m')) \<or>
     HASH_ADD_TO_BKT (Some t) i (Some a) m = Exit (-1) \<and> expand_fails m t i \<and>
       (\<exists>p. HASH_ADD_TO_BKT_nonfatal (Some t) i (Some a) m =
          Ok (True, set_hh a (\<lambda>h. h\<lparr>hh_next := p, hh_prev := None\<rparr>) m))"
proof -
  note b = bucket_head [OF ok, of "hashv (hh_at m a)", folded i]
  have tv: "tvalid m t" using ok by (simp add: buckets_ok_def)
  define m3 where "m3 = pushed_mem t i a m"
  have pa: "hh_head (buckets (tbl_at m t) ! i) \<noteq> Some a" using b(2) a(2) by auto
  note f3 = pushed_mem_facts [OF tv b(1) a(1) at pa, folded m3_def]
  have push: "bkt_push (Some t) i (Some a) m = Ok m3"
    unfolding m3_def by (rule bkt_push_run [OF tv b(1) a(1)]) (use b(2) in blast)
  have grows: "bkt_grows (Some t) i (Some a) m3 = Ok (grows_at t i m3)"
    using f3 by (simp add: bkt_grows_def grows_at_def run_simps Let_def)
  have run: "HASH_ADD_TO_BKT (Some t) i (Some a) m = (if grows_at t i m3 then HASH_EXPAND_BUCKETS (Some t) m3 else Ok m3)"
    "HASH_ADD_TO_BKT_nonfatal (Some t) i (Some a) m =
      (if grows_at t i m3 then seq (HASH_EXPAND_BUCKETS_nonfatal (Some t) m3) (\<lambda>(oomed, m).
         if oomed then seq (HASH_DEL_IN_BKT (Some t) i (Some a) m) (\<lambda>m. Ok (True, m)) else Ok (False, m))
       else Ok (False, m3))"
    using f3 by (simp_all add: HASH_ADD_TO_BKT_split HASH_ADD_TO_BKT_nonfatal_def push grows run_simps)
  note correct = HASH_ADD_TO_BKT_correct [OF ok wf a at i]
  show ?thesis
  proof (cases "grows_at t i m3")
    case False
    then show ?thesis by (simp add: run)
  next
    case grows: True
    show ?thesis
    proof (cases "expand_oom t m3")
      case True
      note e = expand_runs(1) [OF f3(1) True]
      have "HASH_DEL_IN_BKT (Some t) i (Some a) m3 =
          Ok (set_hh a (\<lambda>h. h\<lparr>hh_next := hh_head (buckets (tbl_at m t) ! i), hh_prev := None\<rparr>) m)"
        unfolding m3_def by (rule bkt_undo [OF tv b(1) a(1) refl pa]) (use b(2) in blast)
      moreover have "expand_fails m t i" using correct e by (simp add: run grows)
      ultimately show ?thesis unfolding run if_P [OF grows] using e by auto
    next
      case False
      then have "\<not> expand_fails m t i" using f3(5-7) by (simp add: expand_oom_def expand_fails_def)
      then have "safe (\<lambda>c. False) (\<lambda>r. True) (HASH_ADD_TO_BKT (Some t) i (Some a) m)"
        using correct by (auto elim: safe_mono)
      then obtain r where "HASH_EXPAND_BUCKETS (Some t) m3 = Ok r"
        unfolding run if_P [OF grows] by (cases "HASH_EXPAND_BUCKETS (Some t) m3") auto
      then show ?thesis unfolding run if_P [OF grows] using expand_runs(2) [OF f3(1) False] by simp
    qed
  qed
qed

text \<open>The whole of \<open>HASH_ADD_TO_TABLE\<close> on an element that is linked into the list.\<close>

lemma add_linked_or_undo:
  fixes t :: addr and m1 :: mem
  assumes l: "linked m1 t zs a cs" and wf: "mem_wf m1" and x: "x \<in> set zs"
    and undone: "\<And>p. seq (HASH_ROLLBACK_BKT (Some x) (Some a)
       (set_hh a (\<lambda>h. h\<lparr>hh_next := p, hh_prev := None\<rparr>) (set_tbl t (\<lambda>T. T\<lparr>num_items := num_items T + 1\<rparr>) m1))) (\<lambda>m.
     seq (HASH_DELETE_HH (Some x) (Some a) m) (\<lambda>(head, m).
     seq (upd_hh (Some a) (\<lambda>h. h\<lparr>tbl := None\<rparr>) m) (\<lambda>m. Ok (head, True, m)))) = Ok (h, True, m0)"
  defines "hv \<equiv> hashv (hh_at m1 a)"
  shows "(\<exists>m'. HASH_ADD_TO_TABLE (Some x) hv (Some a) m1 = Ok m' \<and>
       HASH_ADD_TO_TABLE_nonfatal (Some x) hv (Some a) False m1 = Ok (Some x, False, m')) \<or>
     HASH_ADD_TO_TABLE (Some x) hv (Some a) m1 = Exit (-1) \<and>
       HASH_ADD_TO_TABLE_nonfatal (Some x) hv (Some a) False m1 = Ok (h, True, m0)"
proof -
  have b: "buckets_ok m1 t cs" and v: "valid m1 x" "tbl (hh_at m1 x) = Some t" "tvalid m1 t"
    "valid m1 a" "tbl (hh_at m1 a) = Some t" "a \<notin> in_chains cs"
    using l x by (auto simp: linked_def app_ok_def buckets_ok_def)
  define m2 where "m2 = set_tbl t (\<lambda>T. T\<lparr>num_items := num_items T + 1\<rparr>) m1"
  define i where "i = unat (HASH_TO_BKT hv (num_buckets (tbl_at m1 t)))"
  have m2: "buckets_ok m2 t cs" "valid m2 a" "tbl (hh_at m2 a) = Some t"
    "i = unat (HASH_TO_BKT (hashv (hh_at m2 a)) (num_buckets (tbl_at m2 t)))"
    using v buckets_ok_set_tbl [OF b] by (simp_all add: m2_def set_rules i_def hv_def)
  have "touches {} {t} m1 m2" unfolding m2_def by (intro touches_step_tbl touches_refl) simp
  then have wf2: "mem_wf m2"
    by (rule touches_mem_wf [OF _ wf]) (use mem_wf_tfresh [OF wf v(3)] in \<open>simp add: m2_def\<close>)
  have st: "upd_tbl_of (Some x) (\<lambda>T. T\<lparr>num_items := num_items T + 1\<rparr>) m1 = Ok m2"
    "load_hh (Some x) m2 = Ok (hh_at m1 x)" "load_tbl (Some t) m2 = Ok (tbl_at m2 t)"
    "num_buckets (tbl_at m2 t) = num_buckets (tbl_at m1 t)"
    using v by (simp_all add: run_simps set_rules m2_def)
  have run: "HASH_ADD_TO_TABLE (Some x) hv (Some a) m1 = HASH_ADD_TO_BKT (Some t) i (Some a) m2"
    "HASH_ADD_TO_TABLE_nonfatal (Some x) hv (Some a) False m1 =
      seq (HASH_ADD_TO_BKT_nonfatal (Some t) i (Some a) m2) (\<lambda>(oomed, m).
        if oomed then
          seq (HASH_ROLLBACK_BKT (Some x) (Some a) m) (\<lambda>m.
          seq (HASH_DELETE_HH (Some x) (Some a) m) (\<lambda>(head, m).
          seq (upd_hh (Some a) (\<lambda>h. h\<lparr>tbl := None\<rparr>) m) (\<lambda>m. Ok (head, True, m))))
        else Ok (Some x, False, m))"
    by (simp_all add: HASH_ADD_TO_TABLE_def HASH_ADD_TO_TABLE_nonfatal_def st v i_def)
  from add_to_bkt_both [OF m2(1) wf2 m2(2) v(6) m2(3,4)] show ?thesis
    unfolding run using undone by (auto simp: m2_def [symmetric])
qed

lemma nonfatal_add_nonempty:
  assumes ok: "table_ok m t xs cs" and ne: "xs \<noteq> []" and wf: "mem_wf m"
    and a: "valid m a" "a \<notin> set xs" "key_at m a \<notin> key_at m ` set xs"
  shows "(\<exists>h' m'. HASH_ADD (hd_opt xs) (Some a) m = Ok (h', m') \<and>
       HASH_ADD_nonfatal (hd_opt xs) (Some a) m = Ok (h', False, m')) \<or>
     HASH_ADD (hd_opt xs) (Some a) m = Exit (-1) \<and>
       HASH_ADD_nonfatal (hd_opt xs) (Some a) m =
         Ok (hd_opt xs, True, set_hh a (failed_handle a (hash_key (key_at m a)) (last_opt xs)) m)"
proof -
  define hv where "hv = hash_key (key_at m a)"
  obtain x z where head: "hd_opt xs = Some x" and zl: "last_opt xs = Some z" "z = last xs" and
    tv: "tvalid m t" and tl: "tail (tbl_at m t) = Some z" and
    v: "valid m x" "tbl (hh_at m x) = Some t" "x \<noteq> a" "valid m z" "z \<noteq> a" "app_next (hh_at m z) = None"
    using table_ends [OF ok ne a(2)] by metis
  define m1 where "m1 = append_mem t z a hv m"
  note l = append_mem_linked [OF ok ne a, folded zl(2) hv_def, folded m1_def]
  have wf1: "mem_wf m1"
    by (rule touches_mem_wf [OF l(2) wf]) (use mem_wf_tfresh [OF wf tv] in \<open>simp add: m1_def append_mem_def\<close>)
  have hv1: "hashv (hh_at m1 a) = hv" using v(5) a by (simp add: m1_def append_mem_def set_rules new_handle_def)
  note pre = add_prefix_nonempty [OF a(1) v(1,4,3,5,2) tv tl, folded hv_def m1_def]
  define i where "i = unat (HASH_TO_BKT hv (num_buckets (tbl_at m t)))"
  note b = bucket_of_new [OF ok, of hv, folded i_def]
  have hd: "hh_head (buckets (tbl_at m t) ! i) \<noteq> Some a" using b(2) a(2) by auto
  have x: "x \<in> set (xs @ [a])" using hd_opt_in_set [OF head] by simp
  note undone = rollback_run [OF tv b(1) tl i_def hd a(1) v(1-3) v(4,6,5), folded m1_def]
  from add_linked_or_undo [OF l(1) wf1 x undone] show ?thesis
    unfolding head pre hv1 zl(1) by (auto simp: hv_def)
qed

text \<open>What a failed insertion of \<open>a\<close> leaves: everything as it was, and \<open>a\<close> in no table.\<close>

definition unchanged_but :: "addr \<Rightarrow> mem \<Rightarrow> mem \<Rightarrow> bool" where
  "unchanged_but a m m' \<longleftrightarrow>
     (\<forall>b. b \<noteq> a \<longrightarrow> flows m' b = flows m b) \<and> tbls m' = tbls m \<and>
     fresh m \<le> fresh m' \<and> max_block m' = max_block m \<and>
     valid m' a \<and> stats_of (flow_at m' a) = stats_of (flow_at m a) \<and> tbl (hh_at m' a) = None"

lemma unchanged_but_set_hh:
  "tbl (f (hh_at m a)) = None \<Longrightarrow> unchanged_but a m (set_hh a f m)"
  by (simp add: unchanged_but_def set_rules)

text \<open>The first element.  Of the allocations of the table and of its buckets either may fail.\<close>

lemma HASH_MAKE_TABLE_nonfatal_run:
  fixes hv :: u32
  assumes "valid m a" and "mem_wf m"
  defines "r \<equiv> seq (upd_hh (Some a) (\<lambda>h. h\<lparr>hashv := hv, keyptr := Some a, keylen := 16\<rparr>) m) (\<lambda>m.
     seq (upd_hh (Some a) (\<lambda>h. h\<lparr>app_next := None, app_prev := None\<rparr>) m) (\<lambda>m.
     HASH_MAKE_TABLE_nonfatal (Some a) m))"
  shows "\<not> (budget m < 2 \<or> max_block m < 512) \<Longrightarrow> r = Ok (False, make_mem a hv m)"
    and "budget m < 2 \<or> max_block m < 512 \<Longrightarrow>
      \<exists>m'. r = Ok (True, m') \<and> valid m' a \<and> unchanged_but a m (set_hh a (\<lambda>h. h\<lparr>tbl := None\<rparr>) m')"
proof -
  obtain f where f: "flows m a = Some f" using assms by (auto simp: valid_def)
  have free: "tbls m (fresh m) = None" using assms(2) by (simp add: mem_wf_def)
  note defs = HASH_MAKE_TABLE_nonfatal_def alloc_def upd_hh_def upd_flow_def load_hh_def load_flow_def
    load_tbl_def upd_tbl_def load_tbl_of_def upd_tbl_of_def sizeof_UT_hash_table_def free_tbl_def
    sizeof_UT_hash_bucket_def HASH_INITIAL_NUM_BUCKETS_def HASH_INITIAL_NUM_BUCKETS_LOG2_def
  note ends = unchanged_but_def set_hh_def set_flow_def valid_def stats_of_def flow_stats.truncate_def
  show "r = Ok (False, make_mem a hv m)" if "\<not> (budget m < 2 \<or> max_block m < 512)"
  proof -
    from that have "budget m \<noteq> 0" "budget m \<noteq> 1" "\<not> budget m < 2" "\<not> max_block m < 64" "\<not> max_block m < 512"
      "budget m - Suc 0 \<noteq> 0" by auto
    then show ?thesis
      by (simp add: r_def defs f make_mem_def set_hh_def set_flow_def new_handle_def first_table_def zero_table_def)
         (cases m; cases "hh f"; simp add: numeral_2_eq_2 [symmetric])
  qed
  assume "budget m < 2 \<or> max_block m < 512"
  then consider (none) "budget m = 0 \<or> max_block m < 64"
    | (one) "budget m \<noteq> 0" "\<not> max_block m < 64" "budget m = 1 \<or> max_block m < 512"
    by linarith
  then show "\<exists>m'. r = Ok (True, m') \<and> valid m' a \<and> unchanged_but a m (set_hh a (\<lambda>h. h\<lparr>tbl := None\<rparr>) m')"
  proof cases
    case none
    then have "r = Ok (True, set_hh a (new_handle a hv None None) m)"
      by (simp add: r_def defs f set_hh_def set_flow_def new_handle_def)
        (cases m; cases "hh f"; simp)
    then show ?thesis using assms(1) by (simp add: unchanged_but_set_hh valid_set_hh)
  next
    case one
    let ?m = "(set_hh a (new_handle a hv (Some (fresh m)) None) m)
        \<lparr>fresh := Suc (fresh m), budget := budget m - 1\<rparr>"
    have same: "(tbls m)(fresh m := None) = tbls m" using free by (simp add: fun_upd_idem)
    have "r = Ok (True, ?m\<lparr>tbls := (tbls m)(fresh m := None)\<rparr>)"
      using one
      by (simp add: r_def defs f set_hh_def set_flow_def new_handle_def zero_table_def)
        (cases m; cases "hh f"; elim disjE; simp)
    then show ?thesis unfolding same
      by (intro exI [of _ "?m\<lparr>tbls := tbls m\<rparr>"]) (simp add: unchanged_but_def valid_def set_hh_def set_flow_def)
  qed
qed

lemma first_push:
  fixes hv :: u32
  assumes wf: "mem_wf m" and a: "valid m a"
  defines "m1 \<equiv> make_mem a hv m"
  shows "\<exists>m3. HASH_ADD_TO_TABLE (Some a) hv (Some a) m1 = Ok m3 \<and>
    HASH_ADD_TO_TABLE_nonfatal (Some a) hv (Some a) False m1 = Ok (Some a, False, m3) \<and>
    budget m3 = budget m - 2 \<and> max_block m3 = max_block m \<and> num_buckets (tbl_at m3 (fresh m)) = 32"
proof -
  define i where "i = unat (HASH_TO_BKT hv (2 ^ 5))"
  have i: "i < 32" using HASH_TO_BKT_less [of 5 hv] by (simp add: i_def)
  define m2 where "m2 = set_tbl (fresh m) (\<lambda>T. T\<lparr>num_items := num_items T + 1\<rparr>) m1"
  have T: "tvalid m1 (fresh m)" "tbl_at m1 (fresh m) = first_table a" and v: "valid m1 a"
    and h: "tbl (hh_at m1 a) = Some (fresh m)"
    using a by (simp_all add: m1_def make_mem_def tvalid_def valid_def set_hh_def set_flow_def new_handle_def)
  have F: "buckets (first_table a) = replicate 32 zero_bucket" "num_buckets (first_table a) = 2 ^ 5"
    "noexpand (first_table a) = 0"
    by (simp_all add: first_table_def zero_table_def)
  have m2: "tvalid m2 (fresh m)" "i < length (buckets (tbl_at m2 (fresh m)))" "valid m2 a"
    "tbl (hh_at m2 a) = Some (fresh m)" "buckets (tbl_at m2 (fresh m)) ! i = zero_bucket"
    using T v h i by (simp_all add: m2_def set_rules F)
  have hd: "hh_head (buckets (tbl_at m2 (fresh m)) ! i) = None" by (simp add: m2(5) zero_bucket_def)
  define m3 where "m3 = pushed_mem (fresh m) i a m2"
  have push: "bkt_push (Some (fresh m)) i (Some a) m2 = Ok m3"
    unfolding m3_def by (rule bkt_push_run [OF m2(1-3)]) (simp add: hd)
  have f3: "tvalid m3 (fresh m)" "i < length (buckets (tbl_at m3 (fresh m)))" "valid m3 a"
      "tbl (hh_at m3 a) = Some (fresh m)"
    unfolding m3_def by (rule pushed_mem_facts [OF m2(1-4)]; simp add: hd)+
  have "\<not> grows_at (fresh m) i m3"
    using m2(2,5) by (simp add: grows_at_def m3_def pushed_mem_def bucket_rules Let_def zero_bucket_def
        HASH_BKT_CAPACITY_THRESH_def word_le_nat_alt)
  moreover have "i = unat (HASH_TO_BKT hv (num_buckets (tbl_at m1 (fresh m))))" by (simp add: T F i_def)
  moreover have "budget m3 = budget m - 2 \<and> max_block m3 = max_block m \<and> num_buckets (tbl_at m3 (fresh m)) = 32"
    using pushed_mem_facts(5-7) [OF m2(1-4)] hd T(2)
    by (simp add: m3_def m2_def m1_def make_mem_def set_rules F)
  ultimately show ?thesis
    using add_to_table_runs [OF v h T(1) _ push [unfolded m2_def] f3] by auto
qed

lemma add_prefix_empty:
  assumes "valid m a"
  defines "hv \<equiv> hash_key (key_at m a)"
  defines "w \<equiv> upd_hh (Some a) (\<lambda>h. h\<lparr>hashv := hv, keyptr := Some a, keylen := 16\<rparr>) m"
    and "u \<equiv> upd_hh (Some a) (\<lambda>h. h\<lparr>app_next := None, app_prev := None\<rparr>)"
  shows "HASH_ADD None (Some a) m = seq (seq w (\<lambda>m. seq (u m) (\<lambda>m. HASH_MAKE_TABLE (Some a) m)))
        (\<lambda>m'. seq (HASH_ADD_TO_TABLE (Some a) hv (Some a) m') (\<lambda>m. Ok (Some a, m)))"
    and "HASH_ADD_nonfatal None (Some a) m =
      seq (seq w (\<lambda>m. seq (u m) (\<lambda>m. HASH_MAKE_TABLE_nonfatal (Some a) m)))
        (\<lambda>(oomed, m). HASH_ADD_TO_TABLE_nonfatal (if \<not> oomed then Some a else None) hv (Some a) oomed m)"
  using assms(1)
  by (simp_all add: HASH_ADD_def HASH_ADD_KEYPTR_def HASH_ADD_KEYPTR_BYHASHVALUE_def
      HASH_ADD_nonfatal_def HASH_ADD_KEYPTR_BYHASHVALUE_nonfatal_def hv_def w_def u_def
      sizeof_flow_key_t_def hash_key_def seq_assoc load_flow_valid split_def)

lemma HASH_ADD_first:
  assumes wf: "mem_wf m" and a: "valid m a" and enough: "2 \<le> budget m" "512 \<le> max_block m"
  shows "\<exists>m'. HASH_ADD None (Some a) m = Ok (Some a, m') \<and> hash_rep m' (Some a) (Some (fresh m)) [a] \<and>
    mem_wf m' \<and> touches {a} {fresh m} m m' \<and>
    budget m' = budget m - 2 \<and> max_block m' = max_block m \<and> num_buckets (tbl_at m' (fresh m)) = 32"
proof -
  have "\<not> (budget m < 2 \<or> max_block m < 512)" using enough by simp
  then obtain m' where m': "HASH_ADD None (Some a) m = Ok (Some a, m')"
    "budget m' = budget m - 2 \<and> max_block m' = max_block m \<and> num_buckets (tbl_at m' (fresh m)) = 32"
    unfolding add_prefix_empty(1) [OF a] HASH_MAKE_TABLE_run [OF a]
    using first_push [OF wf a, of "hash_key (key_at m a)"] by auto
  have "hash_rep m None None []" by simp
  from HASH_ADD_correct [OF this wf a] m' show ?thesis by (auto simp: add_tbl_def)
qed

lemma nonfatal_add_empty:
  assumes wf: "mem_wf m" and a: "valid m a"
  shows "(\<exists>h' m'. HASH_ADD None (Some a) m = Ok (h', m') \<and>
       HASH_ADD_nonfatal None (Some a) m = Ok (h', False, m')) \<or>
     HASH_ADD None (Some a) m = Exit (-1) \<and>
       (\<exists>m'. HASH_ADD_nonfatal None (Some a) m = Ok (None, True, m') \<and> unchanged_but a m m')"
proof -
  define hv where "hv = hash_key (key_at m a)"
  let ?w = "\<lambda>m. upd_hh (Some a) (\<lambda>h. h\<lparr>hashv := hv, keyptr := Some a, keylen := 16\<rparr>) m"
  let ?u = "\<lambda>m. upd_hh (Some a) (\<lambda>h. h\<lparr>app_next := None, app_prev := None\<rparr>) m"
  note run = add_prefix_empty [OF a, folded hv_def]
  show ?thesis
  proof (cases "budget m < 2 \<or> max_block m < 512")
    case False
    then show ?thesis
      unfolding run HASH_MAKE_TABLE_run [OF a] HASH_MAKE_TABLE_nonfatal_run(1) [OF a wf False]
      using first_push [OF wf a, of hv] by auto
  next
    case True
    from HASH_MAKE_TABLE_nonfatal_run(2) [OF a wf True, of hv] obtain m' where
      m': "seq (?w m) (\<lambda>m. seq (?u m) (\<lambda>m. HASH_MAKE_TABLE_nonfatal (Some a) m)) = Ok (True, m')"
        "valid m' a" "unchanged_but a m (set_hh a (\<lambda>h. h\<lparr>tbl := None\<rparr>) m')"
      by blast
    then show ?thesis
      unfolding run HASH_MAKE_TABLE_run [OF a] m'(1) using True
      by (simp add: HASH_ADD_TO_TABLE_nonfatal_def run_simps)
  qed
qed

section \<open>Properties\<close>

text \<open>
  The insertion that reports and the ordinary one: where the ordinary insertion returns, the
  other returns the same table and heap and reports nothing; where the ordinary one ends the
  process, the other returns, reports the failure, and leaves the head pointer, every table
  object and every other node as they were, the element in no table.
\<close>

lemma nonfatal_add:
  assumes rep: "table_rep m head xs" and wf: "mem_wf m" and a: "valid m a" "a \<notin> set xs"
    and new: "key_at m a \<notin> key_at m ` set xs"
  shows "(\<exists>h' m'. HASH_ADD head (Some a) m = Ok (h', m') \<and>
       HASH_ADD_nonfatal head (Some a) m = Ok (h', False, m')) \<or>
     HASH_ADD head (Some a) m = Exit (-1) \<and>
       (\<exists>m'. HASH_ADD_nonfatal head (Some a) m = Ok (head, True, m') \<and> unchanged_but a m m')"
proof (cases xs)
  case Nil
  then have "head = None" using rep by (simp add: table_rep_def)
  then show ?thesis using nonfatal_add_empty [OF wf a(1)] by simp
next
  case (Cons x ys)
  then obtain t cs where ok: "table_ok m t xs cs" and head: "head = hd_opt xs"
    using rep by (auto simp: table_rep_def hash_rep_def)
  have "unchanged_but a m (set_hh a (failed_handle a hv p) m)" for hv p
    by (rule unchanged_but_set_hh) (simp add: failed_handle_def new_handle_def)
  then show ?thesis
    using nonfatal_add_nonempty [OF ok _ wf a new] Cons unfolding head by blast
qed

lemma unchanged_but_rep:
  assumes "unchanged_but a m m'" and "table_rep m head xs" and "a \<notin> set xs"
  shows "table_rep m' head xs"
proof -
  obtain tp where rep: "hash_rep m head tp xs" using assms(2) by (auto simp: table_rep_def)
  have "same_nodes m m' (set xs) (set_option tp)"
    using assms(1,3) by (auto simp: same_nodes_def unchanged_but_def)
  from hash_rep_same_nodes [OF this rep] show ?thesis by (auto simp: table_rep_def)
qed

lemma unchanged_but_mem_wf:
  assumes "unchanged_but a m m'" and "mem_wf m" and "valid m a"
  shows "mem_wf m'"
proof -
  have "flows m' b = None \<and> tbls m' b = None" if "fresh m' \<le> b" for b
  proof -
    have "fresh m \<le> b" using that assms(1) by (simp add: unchanged_but_def)
    moreover have "b \<noteq> a" using calculation mem_wf_fresh [OF assms(2,3)] by auto
    ultimately show ?thesis using assms(1,2) by (simp add: unchanged_but_def mem_wf_def)
  qed
  then show ?thesis using assms(1,2) by (simp add: mem_wf_def unchanged_but_def)
qed

lemma unchanged_but_find:
  assumes u: "unchanged_but a m m'" and rep: "table_rep m head xs" and wf: "mem_wf m"
    and a: "valid m a" "a \<notin> set xs"
  shows "HASH_FIND head (key_bytes k) m' = HASH_FIND head (key_bytes k) m"
proof -
  obtain tp tp' where r: "hash_rep m head tp xs" "hash_rep m' head tp' xs"
    using rep unchanged_but_rep [OF u rep a(2)] by (auto simp: table_rep_def)
  have "key_at m' b = key_at m b" if "b \<in> set xs" for b
    using that u a(2) by (auto simp: unchanged_but_def)
  then have "List.find (\<lambda>b. key_at m' b = k) xs = List.find (\<lambda>b. key_at m b = k) xs"
    by (intro find_cong) simp_all
  then show ?thesis
    using HASH_FIND_correct [OF r(1) wf] HASH_FIND_correct [OF r(2) unchanged_but_mem_wf [OF u wf a(1)]]
    by simp
qed

text \<open>
  C23: with \<open>HASH_NONFATAL_OOM\<close> an insertion always returns.  It reports no failure exactly
  when the ordinary insertion returns, and has then done the same.  It reports a failure
  exactly when the ordinary insertion ends the process, and has then rolled back: the head
  pointer, the table objects and all other nodes are as before, so is every lookup, the table
  is still well formed with the same elements, and the element's \<open>tbl\<close> is \<open>NULL\<close>.
\<close>

theorem nonfatal_add_rolls_back:
  assumes "table_rep m head xs" and "mem_wf m" and "valid m a" and "a \<notin> set xs"
    and "key_at m a \<notin> key_at m ` set xs"
  shows "\<exists>head' oomed m'. HASH_ADD_nonfatal head (Some a) m = Ok (head', oomed, m') \<and>
    (if oomed
     then HASH_ADD head (Some a) m = Exit (-1) \<and> head' = head \<and>
       tbls m' = tbls m \<and> (\<forall>b. b \<noteq> a \<longrightarrow> flows m' b = flows m b) \<and>
       stats_of (flow_at m' a) = stats_of (flow_at m a) \<and> tbl (hh_at m' a) = None \<and>
       table_rep m' head xs \<and> mem_wf m' \<and>
       (\<forall>k. HASH_FIND head (key_bytes k) m' = HASH_FIND head (key_bytes k) m)
     else HASH_ADD head (Some a) m = Ok (head', m'))"
  using nonfatal_add [OF assms]
proof (elim disjE exE conjE)
  fix h' m' assume "HASH_ADD head (Some a) m = Ok (h', m')" "HASH_ADD_nonfatal head (Some a) m = Ok (h', False, m')"
  then show ?thesis by auto
next
  fix m' assume r: "HASH_ADD head (Some a) m = Exit (-1)"
    "HASH_ADD_nonfatal head (Some a) m = Ok (head, True, m')" and u: "unchanged_but a m m'"
  note facts = unchanged_but_rep [OF u assms(1,4)] unchanged_but_mem_wf [OF u assms(2,3)]
    unchanged_but_find [OF u assms(1-4)]
  show ?thesis using r u facts
    by (intro exI [of _ head] exI [of _ True] exI [of _ m']) (simp add: unchanged_but_def)
qed

text \<open>A heap in which the next allocation fails: the witness inserts there.\<close>

theorem nonfatal_add_rolls_back_witness:
  "\<exists>m'. HASH_ADD_nonfatal None (Some 0) (example_mem\<lparr>budget := 1\<rparr>) = Ok (None, True, m') \<and>
     tbl (hh_at m' 0) = None \<and> table_rep m' None []"
proof -
  let ?m = "example_mem\<lparr>budget := 1\<rparr>"
  have m: "table_rep ?m None []" "mem_wf ?m" "valid ?m 0"
    using example_mem_facts(1,2) by (simp_all add: table_rep_def mem_wf_def valid_def)
  have "HASH_ADD None (Some 0) ?m = Exit (-1)"
    using HASH_MAKE_TABLE_run [OF m(3)]
    by (simp add: HASH_ADD_def HASH_ADD_KEYPTR_def HASH_ADD_KEYPTR_BYHASHVALUE_def
        sizeof_flow_key_t_def seq_assoc [symmetric] load_flow_valid [OF m(3)] del: One_nat_def)
  then show ?thesis
    using nonfatal_add_rolls_back [OF m] by (auto split: if_splits)
qed

end
