(* ===== verification/Uthash_Inorder_Nonfatal.thy ===== *)
theory Uthash_Inorder_Nonfatal
  imports Uthash_Inorder Uthash_Nonfatal
begin

text \<open>
  Ordered insertion as built with \<open>HASH_NONFATAL_OOM\<close>: without memory for the larger bucket array
  the element is taken out of the middle of the list again.
\<close>

section \<open>The macros\<close>

definition HASH_ADD_KEYPTR_BYHASHVALUE_INORDER_nonfatal ::
  "cmpfcn \<Rightarrow> ptr \<Rightarrow> ptr \<Rightarrow> u32 \<Rightarrow> u32 \<Rightarrow> ptr \<Rightarrow> mem \<Rightarrow> (ptr \<times> bool \<times> mem) outcome" where
  "HASH_ADD_KEYPTR_BYHASHVALUE_INORDER_nonfatal cmp head kp keylen_in hashval add m =
     seq (upd_hh add (\<lambda>h. h\<lparr>hashv := hashval, keyptr := kp, keylen := keylen_in\<rparr>) m) (\<lambda>m.
     seq (if head = None then
            seq (upd_hh add (\<lambda>h. h\<lparr>app_next := None, app_prev := None\<rparr>) m) (\<lambda>m.
            seq (HASH_MAKE_TABLE_nonfatal add m) (\<lambda>(oomed, m).
            Ok (if \<not> oomed then add else head, oomed, m)))
          else
            seq (load_hh head m) (\<lambda>hd.
            seq (upd_hh add (\<lambda>h. h\<lparr>tbl := tbl hd\<rparr>) m) (\<lambda>m.
            seq (HASH_AKBI_INNER_LOOP cmp (fresh m) head add m) (\<lambda>it.
            seq (if it \<noteq> None then link_before head it add m
                 else seq (HASH_APPEND_LIST head add m) (\<lambda>m. Ok (head, m))) (\<lambda>(head, m).
            Ok (head, False, m)))))) (\<lambda>(head, oomed, m).
     HASH_ADD_TO_TABLE_nonfatal head hashval add oomed m))"

definition HASH_ADD_INORDER_nonfatal :: "cmpfcn \<Rightarrow> ptr \<Rightarrow> ptr \<Rightarrow> mem \<Rightarrow> (ptr \<times> bool \<times> mem) outcome" where
  "HASH_ADD_INORDER_nonfatal cmp head add m =
     seq (load_flow add m) (\<lambda>f.
     HASH_ADD_KEYPTR_BYHASHVALUE_INORDER_nonfatal cmp head add (of_nat sizeof_flow_key_t)
       (HASH_VALUE (key_bytes (flow_stats.key f))) add m)"

section \<open>Taking the element out of the middle\<close>

text \<open>An element that goes to the end, or into an empty table, is appended as by \<open>HASH_ADD\<close>.\<close>

lemma HASH_ADD_INORDER_nonfatal_end:
  assumes rep: "hash_rep m head tp xs" and wf: "mem_wf m" and a: "valid m a" "a \<notin> set xs"
    and last: "from_greater cmp m a xs = []"
  shows "HASH_ADD_INORDER_nonfatal cmp head (Some a) m = HASH_ADD_nonfatal head (Some a) m"
proof (cases head)
  case None
  then show ?thesis
    by (simp add: HASH_ADD_INORDER_nonfatal_def HASH_ADD_KEYPTR_BYHASHVALUE_INORDER_nonfatal_def
        HASH_ADD_nonfatal_def HASH_ADD_KEYPTR_BYHASHVALUE_nonfatal_def)
next
  case (Some x)
  obtain t cs where x: "hd_opt xs = Some x" and "tp = Some t" "table_ok m t xs cs"
    by (rule hash_rep_SomeE [OF rep [unfolded Some]])
  then have "valid m x \<and> tbl (hh_at m x) = tp \<and> x \<noteq> a"
    using hd_opt_in_set [OF x] a by (auto simp: table_ok_def app_ok_def)
  then show ?thesis
    using a(1) search_place [OF rep [unfolded Some] wf a] Some last
    by (simp add: HASH_ADD_INORDER_nonfatal_def HASH_ADD_KEYPTR_BYHASHVALUE_INORDER_nonfatal_def
        HASH_ADD_nonfatal_def HASH_ADD_KEYPTR_BYHASHVALUE_nonfatal_def run_simps set_rules
        sizeof_flow_key_t_def seq_assoc)
qed

text \<open>
  \<open>HASH_DELETE_HH\<close> of an element \<open>a\<close> that is on no chain and stands between \<open>p\<close>, which may be
  nothing, and \<open>i\<close>.
\<close>

definition unlink_mem :: "addr \<Rightarrow> nat \<Rightarrow> ptr \<Rightarrow> addr \<Rightarrow> mem \<Rightarrow> mem" where
  "unlink_mem t j p i m =
     set_tbl t (\<lambda>T. T\<lparr>num_items := num_items T - 1\<rparr>)
      (set_bucket t j (\<lambda>b. b\<lparr>bkt_count := bkt_count b - 1\<rparr>)
        (set_hh i (\<lambda>h. h\<lparr>app_prev := p\<rparr>)
          (case p of None \<Rightarrow> m | Some q \<Rightarrow> set_hh q (\<lambda>h. h\<lparr>app_next := Some i\<rparr>) m)))"

lemma HASH_DELETE_HH_before:
  assumes t: "tvalid m t" "j < length (buckets (tbl_at m t))" "tail (tbl_at m t) \<noteq> Some a"
    and j: "j = unat (HASH_TO_BKT (hashv (hh_at m a)) (num_buckets (tbl_at m t)))"
    and hd: "hh_head (buckets (tbl_at m t) ! j) \<noteq> Some a"
    and a: "valid m a" "app_prev (hh_at m a) = p" "app_next (hh_at m a) = Some i"
      "hh_prev (hh_at m a) = None" "hh_next (hh_at m a) = None"
    and x: "valid m x" "tbl (hh_at m x) = Some t" and i: "valid m i" "i \<noteq> a" "tbl (hh_at m i) = Some t"
    and q: "\<And>q. p = Some q \<Longrightarrow> valid m q \<and> q \<noteq> a \<and> q \<noteq> i"
  shows "HASH_DELETE_HH (Some x) (Some a) m = Ok (if p = None then Some i else Some x, unlink_mem t j p i m)"
proof -
  define m1 where "m1 = set_hh i (\<lambda>h. h\<lparr>app_prev := p\<rparr>)
    (case p of None \<Rightarrow> m | Some q \<Rightarrow> set_hh q (\<lambda>h. h\<lparr>app_next := Some i\<rparr>) m)"
  define y where "y = (if p = None then i else x)"
  have m1: "tvalid m1 t" "tbl_at m1 t = tbl_at m t" "valid m1 a" "valid m1 y"
    "hh_at m1 a = hh_at m a" "tbl (hh_at m1 y) = Some t"
    using t a x i q by (auto simp: m1_def y_def set_rules split: option.split)
  have del: "HASH_DEL_IN_BKT (Some t) j (Some a) m1 =
      Ok (set_bucket t j (\<lambda>b. b\<lparr>bkt_count := bkt_count b - 1\<rparr>) m1)"
    by (rule HASH_DEL_IN_BKT_unlinked) (use m1 t hd a in simp_all)
  show ?thesis
  proof (cases p)
    case None
    then show ?thesis
      using t a x i m1 j del
      by (simp add: HASH_DELETE_HH_def run_simps m1_def y_def tvalid_set_bucket unlink_mem_def)
  next
    case (Some q)
    then show ?thesis
      using t a x i m1 j del q
      by (simp add: HASH_DELETE_HH_def run_simps set_rules m1_def y_def tvalid_set_bucket unlink_mem_def)
  qed
qed


lemma rollback_insert:
  assumes t: "tvalid m t" "j < length (buckets (tbl_at m t))" "tail (tbl_at m t) \<noteq> Some a"
    and j: "j = unat (HASH_TO_BKT hv (num_buckets (tbl_at m t)))"
    and hd: "hh_head (buckets (tbl_at m t) ! j) \<noteq> Some a"
    and a: "valid m a" and i: "valid m i" "i \<noteq> a" "tbl (hh_at m i) = Some t" "app_prev (hh_at m i) = p"
    and q: "\<And>q. p = Some q \<Longrightarrow> valid m q \<and> q \<noteq> a \<and> q \<noteq> i \<and> app_next (hh_at m q) = Some i"
    and x: "x = a \<or> valid m x \<and> tbl (hh_at m x) = Some t"
  shows "seq (HASH_ROLLBACK_BKT (Some x) (Some a)
       (set_hh a (\<lambda>h. h\<lparr>hh_next := r, hh_prev := None\<rparr>)
         (set_tbl t (\<lambda>T. T\<lparr>num_items := num_items T + 1\<rparr>) (insert_mem t p i a hv m)))) (\<lambda>m.
     seq (HASH_DELETE_HH (Some x) (Some a) m) (\<lambda>(head, m).
     seq (upd_hh (Some a) (\<lambda>h. h\<lparr>tbl := None\<rparr>) m) (\<lambda>m. Ok (head, True, m)))) =
     Ok (if p = None then Some i else Some x, True,
       set_hh a (\<lambda>h. (failed_handle a hv p h)\<lparr>app_next := Some i\<rparr>) m)"
proof -
  let ?new = "\<lambda>h. (new_handle a hv (Some t) p h)\<lparr>app_next := Some i\<rparr>"
  define m1 where "m1 = insert_mem t p i a hv m"
  define m2 where "m2 = set_hh a (\<lambda>h. h\<lparr>hh_next := r, hh_prev := None\<rparr>)
         (set_tbl t (\<lambda>T. T\<lparr>num_items := num_items T + 1\<rparr>) m1)"
  define m3 where "m3 = set_hh a (\<lambda>h. h\<lparr>hh_next := None, hh_prev := None\<rparr>)
      (set_bucket t j (\<lambda>b. b\<lparr>bkt_count := bkt_count b + 1\<rparr>) m2)"
  have m1: "tvalid m1 t" "tbl_at m1 t = tbl_at m t" "valid m1 b = valid m b" "hh_at m1 a = ?new (hh_at m a)"
    "b \<noteq> a \<Longrightarrow> tbl (hh_at m1 b) = tbl (hh_at m b)" for b
    using t i a q by (auto simp: m1_def insert_mem_def set_rules split: option.split)
  have T2: "tvalid m2 t" "tbl_at m2 t = (tbl_at m t)\<lparr>num_items := num_items (tbl_at m t) + 1\<rparr>"
    "valid m2 b = valid m b" "b \<noteq> a \<Longrightarrow> hh_at m2 b = hh_at m1 b" for b
    using a by (auto simp: m2_def set_rules m1)
  have h2: "hh_at m2 a = (?new (hh_at m a))\<lparr>hh_next := r, hh_prev := None\<rparr>"
    using a by (simp add: m2_def set_rules m1)
  have vx: "valid m2 x" "tbl (hh_at m2 x) = Some t"
    using x a by (cases "x = a"; simp add: T2 h2 m1 new_handle_def)+
  have st1: "HASH_ROLLBACK_BKT (Some x) (Some a) m2 = Ok m3"
    unfolding m3_def by (rule HASH_ROLLBACK_BKT_run) (use vx T2 h2 t a j in \<open>simp_all add: new_handle_def\<close>)
  have h3: "hh_at m3 a = (?new (hh_at m a))\<lparr>hh_next := None, hh_prev := None\<rparr>" "hh_at m3 b = hh_at m2 b \<or> b = a"
    "valid m3 b = valid m b" "tvalid m3 t" "tbl_at m3 t = (tbl_at m2 t)\<lparr>buckets := (buckets (tbl_at m t))
      [j := (buckets (tbl_at m t) ! j)\<lparr>bkt_count := bkt_count (buckets (tbl_at m t) ! j) + 1\<rparr>]\<rparr>" for b
    using t a by (auto simp: m3_def set_rules bucket_rules T2 h2)
  have st2: "HASH_DELETE_HH (Some x) (Some a) m3 = Ok (if p = None then Some i else Some x, unlink_mem t j p i m3)"
  proof (rule HASH_DELETE_HH_before)
    show "tbl (hh_at m3 x) = Some t" "tbl (hh_at m3 i) = Some t"
      using h3(1) h3(2) [of x] h3(2) [of i] vx(2) i by (auto simp: T2 m1 new_handle_def)
  qed (use h3 T2 t j hd a i q vx in \<open>simp_all add: new_handle_def\<close>)
  define m4 where "m4 = unlink_mem t j p i m3"
  have v4: "valid m4 a" using h3(3) a by (auto simp: m4_def unlink_mem_def valid_set_hh split: option.split)
  have "set_hh a (\<lambda>h. h\<lparr>tbl := None\<rparr>) m4 = set_hh a (\<lambda>h. (failed_handle a hv p h)\<lparr>app_next := Some i\<rparr>) m"
  proof -
    have H: "set_tbl t (\<lambda>T. T\<lparr>num_items := num_items T - 1\<rparr>)
      (set_bucket t j (\<lambda>b. b\<lparr>bkt_count := bkt_count b - 1\<rparr>)
      (set_bucket t j (\<lambda>b. b\<lparr>bkt_count := bkt_count b + 1\<rparr>)
      (set_tbl t (\<lambda>T. T\<lparr>num_items := num_items T + 1\<rparr>) m))) = m"
      unfolding set_bucket_def set_tbl_set_tbl
      by (rule set_tbl_id) (use t in \<open>cases "tbl_at m t"; cases "buckets (tbl_at m t) ! j"; simp add: list_update_same_conv\<close>)+
    have I: "set_hh i (\<lambda>h. h\<lparr>app_prev := p\<rparr>) m = m"
      by (rule set_hh_id) (use i in \<open>cases "hh_at m i"; simp\<close>)+
    have Q: "set_hh q (\<lambda>h. h\<lparr>app_next := Some i\<rparr>) m = m" if "p = Some q" for q
      by (rule set_hh_id) (use q [OF that] in \<open>cases "hh_at m q"; simp\<close>)+
    have fh: "(\<lambda>h. (failed_handle a hv p h)\<lparr>app_next := Some i\<rparr>) = (\<lambda>h. h\<lparr>hashv := hv, keyptr := Some a, keylen := 16,
        app_prev := p, app_next := Some i, hh_next := None, hh_prev := None, tbl := None\<rparr>)"
      by (simp add: failed_handle_def new_handle_def fun_eq_iff)
    show ?thesis
    proof (cases p)
      case None
      have "set_hh a (\<lambda>h. h\<lparr>tbl := None\<rparr>) m4 = set_hh a (\<lambda>h. (failed_handle a hv p h)\<lparr>app_next := Some i\<rparr>)
         (set_hh i (\<lambda>h. h\<lparr>app_prev := p\<rparr>) m)"
        by (simp add: m4_def unlink_mem_def m3_def m2_def m1_def insert_mem_def None set_tbl_set_hh set_bucket_set_hh
           set_hh_commute [OF i(2)] H new_handle_def fh [unfolded None] del: set_tbl_set_tbl)
      then show ?thesis by (simp add: I)
    next
      case (Some q)
      have d: "q \<noteq> a" "q \<noteq> i" using q [OF Some] by auto
      have "set_hh a (\<lambda>h. h\<lparr>tbl := None\<rparr>) m4 = set_hh a (\<lambda>h. (failed_handle a hv p h)\<lparr>app_next := Some i\<rparr>)
         (set_hh i (\<lambda>h. h\<lparr>app_prev := p\<rparr>) (set_hh q (\<lambda>h. h\<lparr>app_next := Some i\<rparr>) m))"
        by (simp add: m4_def unlink_mem_def m3_def m2_def m1_def insert_mem_def Some set_tbl_set_hh set_bucket_set_hh
           set_hh_commute [OF i(2)] set_hh_commute [OF d(1)] set_hh_commute [OF d(2)] H new_handle_def fh [unfolded Some]
           del: set_tbl_set_tbl)
      then show ?thesis by (simp add: I Q [OF Some])
    qed
  qed
  then show ?thesis
    unfolding m1_def [symmetric] m2_def [symmetric] using v4 by (simp add: st1 st2 run_simps m4_def)
qed


section \<open>The insertion that reports and the ordinary one\<close>

lemma nonfatal_inorder_before:
  assumes rep: "hash_rep m head tp xs" and wf: "mem_wf m" and a: "valid m a" "a \<notin> set xs"
    and new: "key_at m a \<notin> key_at m ` set xs"
    and place: "from_greater cmp m a xs = i # zs"
  shows "(\<exists>h' m'. HASH_ADD_INORDER cmp head (Some a) m = Ok (h', m') \<and>
       HASH_ADD_INORDER_nonfatal cmp head (Some a) m = Ok (h', False, m')) \<or>
     HASH_ADD_INORDER cmp head (Some a) m = Exit (-1) \<and>
       (\<exists>m'. HASH_ADD_INORDER_nonfatal cmp head (Some a) m = Ok (head, True, m') \<and> unchanged_but a m m')"
proof -
  define ys where "ys = upto_greater cmp m a xs"
  define hv where "hv = hash_key (key_at m a)"
  define p where "p = last_opt ys"
  have xs: "xs = ys @ i # zs" unfolding ys_def place [symmetric] by simp
  obtain t cs where tp: "tp = Some t" and ok: "table_ok m t (ys @ i # zs) cs" and head: "head = hd_opt xs"
    using rep unfolding hash_rep_def xs by auto
  obtain x where x: "hd_opt xs = Some x" by (cases xs) (auto simp: xs)
  have app: "app_ok m t (ys @ i # zs)" and tv: "tvalid m t" and "tail (tbl_at m t) = last_opt (ys @ i # zs)"
    using ok by (simp_all only: table_ok_def)
  moreover have "last (ys @ i # zs) \<noteq> a" using a(2) last_in_set [of xs] by (auto simp: xs)
  ultimately have tl: "tail (tbl_at m t) \<noteq> Some a" by (simp add: last_opt_def)
  have i: "valid m i" "i \<noteq> a" "tbl (hh_at m i) = Some t" "app_prev (hh_at m i) = p"
    using app a by (auto simp: app_ok_def link_simps xs p_def)
  have q: "valid m q \<and> q \<noteq> a \<and> q \<noteq> i \<and> app_next (hh_at m q) = Some i" if "p = Some q" for q
  proof -
    have "ys \<noteq> []" "last ys = q" using that by (auto simp: p_def last_opt_def split: if_splits)
    then obtain us where us: "ys = us @ [q]" using append_butlast_last_id by metis
    then have "distinct (us @ q # i # zs)" "q \<in> set (ys @ i # zs)" using app by (simp_all add: app_ok_def)
    then have "next_in (ys @ i # zs) q = Some i" "q \<noteq> i" by (simp_all add: us link_simps)
    then show ?thesis using app a \<open>q \<in> set (ys @ i # zs)\<close> by (auto simp: app_ok_def xs)
  qed
  have vx: "valid m x" "tbl (hh_at m x) = Some t" "x \<noteq> a"
    using app hd_opt_in_set [OF x] a by (auto simp: app_ok_def xs)
  define m1 where "m1 = insert_mem t p i a hv m"
  note l = insert_mem_linked [OF ok a(1) a(2) [unfolded xs] new [unfolded xs], folded p_def hv_def, folded m1_def]
  define h1 where "h1 = (if ys = [] then a else x)"
  have p0: "p = None \<longleftrightarrow> ys = []" by (simp add: p_def last_opt_def)
  have h1: "h1 \<in> set (ys @ a # i # zs)" using hd_opt_in_set [OF x] by (auto simp: h1_def xs)
  have link: "link_before (Some x) (Some i) (Some a)
      (set_hh a (\<lambda>h. h\<lparr>hashv := hv, keyptr := Some a, keylen := 16, tbl := Some t\<rparr>) m) = Ok (Some h1, m1)"
    using link_before_run [OF a(1) i(1,2,4), where head = "Some x" and hv = hv and t = t] q by (auto simp: m1_def h1_def p0)
  note found = search_place [OF rep [unfolded head x] wf a, where cmp = cmp and hv = hv, unfolded place tp hd_opt_simps]
  have run: "HASH_ADD_INORDER cmp head (Some a) m =
      seq (HASH_ADD_TO_TABLE (Some h1) hv (Some a) m1) (\<lambda>m. Ok (Some h1, m))"
    "HASH_ADD_INORDER_nonfatal cmp head (Some a) m =
      HASH_ADD_TO_TABLE_nonfatal (Some h1) hv (Some a) False m1"
    using a(1) head x vx found link
    by (simp_all add: HASH_ADD_INORDER_def HASH_ADD_KEYPTR_INORDER_def HASH_ADD_KEYPTR_BYHASHVALUE_INORDER_def
        HASH_ADD_INORDER_nonfatal_def HASH_ADD_KEYPTR_BYHASHVALUE_INORDER_nonfatal_def
        run_simps set_rules sizeof_flow_key_t_def tp hash_key_def hv_def)
  have wf1: "mem_wf m1"
    by (rule touches_mem_wf [OF l(2) wf])
       (use mem_wf_tfresh [OF wf tv] in \<open>simp add: m1_def insert_mem_def split: option.split\<close>)
  have hv1: "hashv (hh_at m1 a) = hv"
    using l(1) touches_key [OF l(2)] by (simp add: linked_def keys_ok_def hv_def)
  define j where "j = unat (HASH_TO_BKT hv (num_buckets (tbl_at m t)))"
  note b = bucket_of_new [OF ok, of hv, folded j_def]
  have hd: "hh_head (buckets (tbl_at m t) ! j) \<noteq> Some a" using b(2) a(2) xs by auto
  have h1v: "h1 = a \<or> valid m h1 \<and> tbl (hh_at m h1) = Some t" using vx by (simp add: h1_def)
  have undone: "(if p = None then Some i else Some h1) = head"
    using x by (auto simp: head p0 h1_def xs)
  note rolled = rollback_insert [OF tv b(1) tl j_def hd a(1) i q h1v, unfolded undone, folded m1_def]
  have u: "unchanged_but a m (set_hh a (\<lambda>h. (failed_handle a hv p h)\<lparr>app_next := Some i\<rparr>) m)"
    by (rule unchanged_but_set_hh) (simp add: failed_handle_def new_handle_def)
  from add_linked_or_undo [OF l(1) wf1 h1 rolled] show ?thesis
    unfolding run hv1 using u by auto
qed

lemma nonfatal_inorder:
  assumes rep: "table_rep m head xs" and wf: "mem_wf m" and a: "valid m a" "a \<notin> set xs"
    and new: "key_at m a \<notin> key_at m ` set xs"
  shows "(\<exists>h' m'. HASH_ADD_INORDER cmp head (Some a) m = Ok (h', m') \<and>
       HASH_ADD_INORDER_nonfatal cmp head (Some a) m = Ok (h', False, m')) \<or>
     HASH_ADD_INORDER cmp head (Some a) m = Exit (-1) \<and>
       (\<exists>m'. HASH_ADD_INORDER_nonfatal cmp head (Some a) m = Ok (head, True, m') \<and> unchanged_but a m m')"
proof -
  obtain tp where r: "hash_rep m head tp xs" using rep by (auto simp: table_rep_def)
  show ?thesis
  proof (cases "from_greater cmp m a xs")
    case Nil
    then show ?thesis
      using nonfatal_add [OF rep wf a new]
      by (simp only: HASH_ADD_INORDER_end [OF r wf a Nil] HASH_ADD_INORDER_nonfatal_end [OF r wf a Nil])
  next
    case (Cons i zs)
    then show ?thesis by (rule nonfatal_inorder_before [OF r wf a new])
  qed
qed

text \<open>
  Ordered insertion with \<open>HASH_NONFATAL_OOM\<close> always returns.  Where the ordinary one succeeds, it
  has put the element in its place; where that ends the process for want of memory, the element
  has been taken out of the middle of the list again: every other node and table object, and every
  lookup, are as before, and the table holds the same elements in the same order.
\<close>

theorem nonfatal_inorder_rolls_back:
  assumes "table_rep m head xs" and "mem_wf m" and "valid m a" and "a \<notin> set xs"
    and "key_at m a \<notin> key_at m ` set xs"
  shows "\<exists>head' oomed m'. HASH_ADD_INORDER_nonfatal cmp head (Some a) m = Ok (head', oomed, m') \<and>
    (if oomed
     then HASH_ADD_INORDER cmp head (Some a) m = Exit (-1) \<and> head' = head \<and>
       tbls m' = tbls m \<and> (\<forall>b. b \<noteq> a \<longrightarrow> flows m' b = flows m b) \<and>
       stats_of (flow_at m' a) = stats_of (flow_at m a) \<and> tbl (hh_at m' a) = None \<and>
       table_rep m' head xs \<and> mem_wf m' \<and>
       (\<forall>k. HASH_FIND head (key_bytes k) m' = HASH_FIND head (key_bytes k) m)
     else HASH_ADD_INORDER cmp head (Some a) m = Ok (head', m') \<and>
       table_rep m' head' (insert_place cmp m a xs) \<and> mem_wf m')"
  using nonfatal_inorder [OF assms, of cmp]
proof (elim disjE exE conjE)
  fix h' m' assume r: "HASH_ADD_INORDER cmp head (Some a) m = Ok (h', m')"
    "HASH_ADD_INORDER_nonfatal cmp head (Some a) m = Ok (h', False, m')"
  obtain tp where "hash_rep m head tp xs" using assms(1) by (auto simp: table_rep_def)
  from HASH_ADD_INORDER_correct [OF this assms(2-5), of cmp] r show ?thesis by (auto simp: table_rep_def)
next
  fix m' assume r: "HASH_ADD_INORDER cmp head (Some a) m = Exit (-1)"
    "HASH_ADD_INORDER_nonfatal cmp head (Some a) m = Ok (head, True, m')" and u: "unchanged_but a m m'"
  note facts = unchanged_but_rep [OF u assms(1,4)] unchanged_but_mem_wf [OF u assms(2,3)]
    unchanged_but_find [OF u assms(1-4)]
  show ?thesis using r u facts
    by (intro exI [of _ head] exI [of _ True] exI [of _ m']) (simp add: unchanged_but_def)
qed

end
