(* ===== verification/Uthash_Optional.thy ===== *)
theory Uthash_Optional
  imports Uthash_Hash
begin

text \<open>
  The parts of uthash.h a build selects by a macro the sniffer does not define: the other hash
  functions (\<open>HASH_FUNCTION\<close>) and the Bloom filter in front of the bucket walk (\<open>HASH_BLOOM\<close>).
\<close>

section \<open>The other hash functions\<close>

text \<open>A key is the list of its \<open>keylen\<close> bytes.\<close>

definition HASH_BER :: "u8 list \<Rightarrow> u32" where
  "HASH_BER k = fold (\<lambda>b h. (push_bit 5 h + h) + ucast b) k 0"

definition HASH_SAX :: "u8 list \<Rightarrow> u32" where
  "HASH_SAX k = fold (\<lambda>b h. h XOR (push_bit 5 h + drop_bit 2 h + ucast b)) k 0"

definition HASH_FNV :: "u8 list \<Rightarrow> u32" where
  "HASH_FNV k = fold (\<lambda>b h. (h XOR ucast b) * 16777619) k 2166136261"

definition HASH_OAT :: "u8 list \<Rightarrow> u32" where
  "HASH_OAT k =
     (let h = fold (\<lambda>b h. let h = h + ucast b; h = h + push_bit 10 h in h XOR drop_bit 6 h) k 0;
          h = h + push_bit 3 h;
          h = h XOR drop_bit 11 h
      in h + push_bit 15 h)"

definition get16bits :: "u8 \<Rightarrow> u8 \<Rightarrow> u32" where
  "get16bits d0 d1 = push_bit 8 (ucast d1) + ucast d0"

text \<open>The main loop takes four bytes a turn; the \<open>switch\<close> handles the one to three left over.\<close>

fun HASH_SFH_loop :: "u8 list \<Rightarrow> u32 \<Rightarrow> u32" where
  "HASH_SFH_loop (k0 # k1 # k2 # k3 # ks) h =
     (let h = h + get16bits k0 k1;
          tmp = push_bit 11 (get16bits k2 k3) XOR h;
          h = push_bit 16 h XOR tmp
      in HASH_SFH_loop ks (h + drop_bit 11 h))"
| "HASH_SFH_loop [k0, k1, k2] h =
     (let h = h + get16bits k0 k1; h = h XOR push_bit 16 h; h = h XOR push_bit 18 (ucast k2)
      in h + drop_bit 11 h)"
| "HASH_SFH_loop [k0, k1] h =
     (let h = h + get16bits k0 k1; h = h XOR push_bit 11 h in h + drop_bit 17 h)"
| "HASH_SFH_loop [k0] h =
     (let h = h + ucast k0; h = h XOR push_bit 10 h in h + drop_bit 1 h)"
| "HASH_SFH_loop [] h = h"

definition HASH_SFH :: "u8 list \<Rightarrow> u32" where
  "HASH_SFH k =
     (let h = HASH_SFH_loop k 0xcafebabe;
          h = h XOR push_bit 3 h;
          h = h + drop_bit 5 h;
          h = h XOR push_bit 4 h;
          h = h + drop_bit 17 h;
          h = h XOR push_bit 25 h
      in h + drop_bit 6 h)"

text \<open>Bernstein's function is the polynomial in 33 with the bytes as coefficients, modulo \<open>2\<^sup>3\<^sup>2\<close>.\<close>

lemma HASH_BER_polynomial:
  "HASH_BER k = of_nat (\<Sum>i < length k. 33 ^ (length k - Suc i) * unat (k ! i))"
proof (induction k rule: rev_induct)
  case Nil
  then show ?case by (simp add: HASH_BER_def)
next
  case (snoc b k)
  let ?p = "\<lambda>k. \<Sum>i < length k. 33 ^ (length k - Suc i) * unat (k ! i)"
  have "(\<Sum>i < length k. 33 ^ (length k - i) * unat ((k @ [b]) ! i)) = 33 * ?p k"
    unfolding sum_distrib_left
    by (rule sum.cong) (auto simp: nth_append Suc_diff_Suc [symmetric] mult_ac)
  then have "?p (k @ [b]) = 33 * ?p k + unat b" by (simp add: nth_append)
  moreover have "HASH_BER (k @ [b]) = 33 * HASH_BER k + ucast b"
    by (simp add: HASH_BER_def push_bit_eq_mult)
  ultimately show ?case using snoc by simp
qed

text \<open>The multiplier of FNV is odd, so a step loses nothing of the last byte.\<close>

lemma HASH_FNV_last_byte: "HASH_FNV (k @ [a]) = HASH_FNV (k @ [b]) \<longleftrightarrow> a = b"
proof
  define h where "h = fold (\<lambda>b h. (h XOR ucast b) * 16777619) k (2166136261 :: u32)"
  assume "HASH_FNV (k @ [a]) = HASH_FNV (k @ [b])"
  then have "(h XOR ucast a) * 16777619 * 899433627 = (h XOR ucast b) * 16777619 * 899433627"
    by (simp add: HASH_FNV_def h_def)
  moreover have "(16777619 :: u32) * 899433627 = 1" by simp
  ultimately have "h XOR ucast a = h XOR ucast b" by (simp only: mult.assoc mult_1_right)
  then have "h XOR (h XOR ucast a) = h XOR (h XOR ucast b)" by simp
  then have "(ucast a :: u32) = ucast b" by (simp flip: xor.assoc)
  then have "unat (ucast a :: u32) = unat (ucast b :: u32)" by simp
  then have "unat a = unat b" by (simp add: unsigned_ucast_eq take_bit_nat_eq_self less_trans [OF unsigned_less])
  then show "a = b" by (simp add: unsigned_word_eqI)
qed simp

section \<open>The Bloom filter\<close>

text \<open>
  \<open>nbits\<close> is the value \<open>HASH_BLOOM\<close> is defined to; the bit vector is an array of bytes,
  which \<open>HASH_BLOOM_MAKE\<close> allocates and clears.
\<close>

definition HASH_BLOOM_BITLEN :: "nat \<Rightarrow> nat" where
  "HASH_BLOOM_BITLEN nbits = 2 ^ nbits"

definition HASH_BLOOM_BYTELEN_of :: "nat \<Rightarrow> nat" where
  "HASH_BLOOM_BYTELEN_of nbits =
     HASH_BLOOM_BITLEN nbits div 8 + (if HASH_BLOOM_BITLEN nbits mod 8 \<noteq> 0 then 1 else 0)"

definition bloom_new :: "nat \<Rightarrow> u8 list" where
  "bloom_new nbits = replicate (HASH_BLOOM_BYTELEN_of nbits) 0"

definition HASH_BLOOM_BITSET :: "u8 list \<Rightarrow> u32 \<Rightarrow> u8 list outcome" where
  "HASH_BLOOM_BITSET bv idx =
     (let i = unat (idx div 8) in
      if i < length bv then Ok (bv[i := bv ! i OR push_bit (unat (idx mod 8)) 1]) else Fault OutOfBounds)"

definition HASH_BLOOM_BITTEST :: "u8 list \<Rightarrow> u32 \<Rightarrow> bool outcome" where
  "HASH_BLOOM_BITTEST bv idx =
     (let i = unat (idx div 8) in
      if i < length bv then Ok ((bv ! i AND push_bit (unat (idx mod 8)) 1) \<noteq> 0) else Fault OutOfBounds)"

text \<open>\<open>(hashv) & (uint32_t) ((1UL << nbits) - 1U)\<close>, computed in 64 bits.\<close>

definition bloom_index :: "nat \<Rightarrow> u32 \<Rightarrow> u32" where
  "bloom_index nbits hv = hv AND ucast (push_bit nbits (1 :: 64 word) - 1)"

definition HASH_BLOOM_ADD :: "nat \<Rightarrow> u8 list \<Rightarrow> u32 \<Rightarrow> u8 list outcome" where
  "HASH_BLOOM_ADD nbits bv hv = HASH_BLOOM_BITSET bv (bloom_index nbits hv)"

definition HASH_BLOOM_TEST :: "nat \<Rightarrow> u8 list \<Rightarrow> u32 \<Rightarrow> bool outcome" where
  "HASH_BLOOM_TEST nbits bv hv = HASH_BLOOM_BITTEST bv (bloom_index nbits hv)"

text \<open>The insertions of a run, in order.\<close>

fun bloom_adds :: "nat \<Rightarrow> u32 list \<Rightarrow> u8 list \<Rightarrow> u8 list outcome" where
  "bloom_adds nbits [] bv = Ok bv"
| "bloom_adds nbits (h # hs) bv = seq (HASH_BLOOM_ADD nbits bv h) (bloom_adds nbits hs)"

lemma bloom_index_take_bit:
  assumes "nbits \<le> 32"
  shows "bloom_index nbits h = take_bit nbits h"
proof -
  have "push_bit nbits (1 :: 64 word) - 1 = mask nbits"
    by (simp add: push_bit_eq_mult mask_eq_exp_minus_1)
  moreover have "(ucast (mask nbits :: 64 word) :: u32) = mask nbits"
    using assms by (auto simp: bit_eq_iff bit_simps)
  ultimately show ?thesis by (simp add: bloom_index_def take_bit_eq_mask)
qed

lemma bloom_in_bounds:
  assumes "nbits \<le> 32"
  shows "unat (bloom_index nbits h div 8) < HASH_BLOOM_BYTELEN_of nbits"
proof -
  have "unat (bloom_index nbits h) = take_bit nbits (unat h)"
    by (simp add: bloom_index_take_bit [OF assms] unsigned_take_bit_eq)
  then have "unat (bloom_index nbits h) < 2 ^ nbits" by simp
  then show ?thesis
    by (auto simp: HASH_BLOOM_BYTELEN_of_def HASH_BLOOM_BITLEN_def unat_div_distrib less_mult_imp_div_less)
qed

text \<open>The position of the bit of a hash value.\<close>

definition bloom_has :: "nat \<Rightarrow> u8 list \<Rightarrow> u32 \<Rightarrow> bool" where
  "bloom_has nbits bv h \<longleftrightarrow>
     bit (bv ! unat (bloom_index nbits h div 8)) (unat (bloom_index nbits h mod 8))"

lemma bit_index_less: "unat ((x :: u32) mod 8) < 8"
  by (simp add: unat_mod_distrib)

lemma HASH_BLOOM_TEST_has:
  assumes "nbits \<le> 32" and "length bv = HASH_BLOOM_BYTELEN_of nbits"
  shows "HASH_BLOOM_TEST nbits bv h = Ok (bloom_has nbits bv h)"
  using bloom_in_bounds [OF assms(1)] assms(2)
  by (simp add: bit_iff_and_push_bit_not_eq_0 HASH_BLOOM_TEST_def HASH_BLOOM_BITTEST_def bloom_has_def Let_def)

lemma HASH_BLOOM_ADD_has:
  assumes "nbits \<le> 32" and "length bv = HASH_BLOOM_BYTELEN_of nbits"
  shows "\<exists>bv'. HASH_BLOOM_ADD nbits bv h = Ok bv' \<and> length bv' = HASH_BLOOM_BYTELEN_of nbits \<and>
    bloom_has nbits bv' h \<and> (\<forall>g. bloom_has nbits bv g \<longrightarrow> bloom_has nbits bv' g)"
  using bloom_in_bounds [OF assms(1), of h] assms(2) bit_index_less [of "bloom_index nbits h"]
  by (auto simp: HASH_BLOOM_ADD_def HASH_BLOOM_BITSET_def bloom_has_def Let_def nth_list_update bit_simps)

lemma bloom_adds_has:
  assumes "nbits \<le> 32"
  shows "length bv = HASH_BLOOM_BYTELEN_of nbits \<Longrightarrow>
    \<exists>bv'. bloom_adds nbits hs bv = Ok bv' \<and> length bv' = HASH_BLOOM_BYTELEN_of nbits \<and>
      (\<forall>h \<in> set hs. bloom_has nbits bv' h) \<and> (\<forall>g. bloom_has nbits bv g \<longrightarrow> bloom_has nbits bv' g)"
proof (induction hs arbitrary: bv)
  case (Cons h hs)
  obtain b1 where b1: "HASH_BLOOM_ADD nbits bv h = Ok b1" "length b1 = HASH_BLOOM_BYTELEN_of nbits"
    "bloom_has nbits b1 h" "\<forall>g. bloom_has nbits bv g \<longrightarrow> bloom_has nbits b1 g"
    using HASH_BLOOM_ADD_has [OF assms Cons.prems] by blast
  from Cons.IH [OF b1(2)] b1 show ?case by auto
qed simp

text \<open>
  The Bloom filter never forgets and never leaves its array: for every width up to 32
  bits, after any sequence of additions to a new filter, the test of an added hash value answers yes,
  so \<open>HASH_FIND\<close> skips a bucket only when no element with that hash value was added.
\<close>

theorem bloom_never_forgets:
  assumes "nbits \<le> 32"
  shows "\<exists>bv. bloom_adds nbits hs (bloom_new nbits) = Ok bv \<and>
    list_all (\<lambda>h. HASH_BLOOM_TEST nbits bv h = Ok True) hs \<and> (\<forall>h. returns (HASH_BLOOM_TEST nbits bv h))"
proof -
  have "length (bloom_new nbits) = HASH_BLOOM_BYTELEN_of nbits" by (simp add: bloom_new_def)
  from bloom_adds_has [OF assms this, of hs] show ?thesis
    using HASH_BLOOM_TEST_has [OF assms] by (auto simp: list_all_iff)
qed

theorem bloom_never_forgets_witness:
  "\<exists>bv. bloom_adds 27 [5, 4000000000] (bloom_new 27) = Ok bv \<and>
     HASH_BLOOM_TEST 27 bv 5 = Ok True \<and> HASH_BLOOM_TEST 27 bv 4000000000 = Ok True"
  using bloom_never_forgets [of 27 "[5, 4000000000]"] by (simp del: bloom_adds.simps) blast

end
