(* ===== verification/Uthash_Bloom.thy ===== *)
theory Uthash_Bloom
  imports Uthash_Table Uthash_Optional
begin

text \<open>
  Lookup in a build with \<open>HASH_BLOOM\<close>: the table carries a Bloom filter, which every insertion
  updates, no removal does, and \<open>HASH_FIND\<close> asks before it walks a bucket.  The theorem: lookups
  return what they return without the filter.
\<close>

section \<open>The filter of a table\<close>

text \<open>The members \<open>UT_hash_table\<close> has in this build only.\<close>

record bloom =
  bloom_sig :: u32
  bloom_bv :: "u8 list"
  bloom_nbits :: u8

definition HASH_BLOOM_SIGNATURE :: u32 where "HASH_BLOOM_SIGNATURE = 0xb12220f2"

text \<open>\<open>nbits\<close> is the number \<open>HASH_BLOOM\<close> is defined to.\<close>

definition HASH_BLOOM_MAKE :: "nat \<Rightarrow> mem \<Rightarrow> (bloom \<times> mem) outcome" where
  "HASH_BLOOM_MAKE nbits m =
     (case alloc (HASH_BLOOM_BYTELEN_of nbits) m of
        (None, m) \<Rightarrow> Exit (-1)
      | (Some _, m) \<Rightarrow> Ok (\<lparr>bloom_sig = HASH_BLOOM_SIGNATURE,
           bloom_bv = replicate (HASH_BLOOM_BYTELEN_of nbits) 0, bloom_nbits = of_nat nbits\<rparr>, m))"

definition bloom_add :: "u32 \<Rightarrow> bloom \<Rightarrow> bloom outcome" where
  "bloom_add hv B =
     seq (HASH_BLOOM_ADD (unat (bloom_nbits B)) (bloom_bv B) hv) (\<lambda>bv. Ok (B\<lparr>bloom_bv := bv\<rparr>))"

definition bloom_test :: "u32 \<Rightarrow> bloom \<Rightarrow> bool outcome" where
  "bloom_test hv B = HASH_BLOOM_TEST (unat (bloom_nbits B)) (bloom_bv B) hv"

definition HASH_FIND_BYHASHVALUE_bloom :: "bloom \<Rightarrow> ptr \<Rightarrow> u8 list \<Rightarrow> u32 \<Rightarrow> mem \<Rightarrow> ptr outcome" where
  "HASH_FIND_BYHASHVALUE_bloom B head kb hashval m =
     (case head of None \<Rightarrow> Ok None
      | Some _ \<Rightarrow>
          seq (load_hh head m) (\<lambda>h.
          seq (load_tbl (tbl h) m) (\<lambda>T.
          let bkt = HASH_TO_BKT hashval (num_buckets T) in
          seq (bloom_test hashval B) (\<lambda>maybe.
          if maybe then
            seq (load_bucket (unat bkt) (buckets T)) (\<lambda>b.
            HASH_FIND_IN_BKT (fresh m) (hh_head b) kb (of_nat (length kb)) hashval m)
          else Ok None))))"

definition HASH_FIND_bloom :: "bloom \<Rightarrow> ptr \<Rightarrow> u8 list \<Rightarrow> mem \<Rightarrow> ptr outcome" where
  "HASH_FIND_bloom B head kb m =
     (case head of None \<Rightarrow> Ok None
      | Some _ \<Rightarrow> HASH_FIND_BYHASHVALUE_bloom B head kb (HASH_VALUE kb) m)"

section \<open>What the filter knows\<close>

text \<open>A well-formed filter of \<open>nbits\<close> bits that knows the hash values \<open>H\<close>.\<close>

definition filter_ok :: "nat \<Rightarrow> u32 set \<Rightarrow> bloom \<Rightarrow> bool" where
  "filter_ok nbits H B \<longleftrightarrow>
     nbits \<le> 32 \<and> bloom_nbits B = of_nat nbits \<and> length (bloom_bv B) = HASH_BLOOM_BYTELEN_of nbits \<and>
     (\<forall>h \<in> H. bloom_has nbits (bloom_bv B) h)"

lemma unat_nbits: "n \<le> 32 \<Longrightarrow> unat (of_nat n :: u8) = n"
  by (simp add: unsigned_of_nat take_bit_eq_mod)

lemma bloom_test_ok: "filter_ok nbits H B \<Longrightarrow> bloom_test h B = Ok (bloom_has nbits (bloom_bv B) h)"
  by (simp add: bloom_test_def filter_ok_def unat_nbits HASH_BLOOM_TEST_has)

lemma filter_ok_make:
  assumes "nbits \<le> 32" and "HASH_BLOOM_MAKE nbits m = Ok (B, m')"
  shows "filter_ok nbits {} B"
  using assms by (auto simp: HASH_BLOOM_MAKE_def filter_ok_def split: prod.splits option.splits)

lemma filter_ok_add:
  assumes "filter_ok nbits H B"
  shows "\<exists>B'. bloom_add h B = Ok B' \<and> filter_ok nbits (insert h H) B'"
  using assms HASH_BLOOM_ADD_has [of nbits "bloom_bv B" h]
  by (auto simp: bloom_add_def filter_ok_def unat_nbits)

fun bloom_add_all :: "u32 list \<Rightarrow> bloom \<Rightarrow> bloom outcome" where
  "bloom_add_all [] B = Ok B"
| "bloom_add_all (h # hs) B = seq (bloom_add h B) (bloom_add_all hs)"

lemma filter_ok_add_all:
  "filter_ok nbits H B \<Longrightarrow> \<exists>B'. bloom_add_all hs B = Ok B' \<and> filter_ok nbits (H \<union> set hs) B'"
proof (induction hs arbitrary: H B)
  case (Cons h hs)
  obtain B1 where "bloom_add h B = Ok B1" "filter_ok nbits (insert h H) B1"
    using filter_ok_add [OF Cons.prems] by blast
  then show ?case using Cons.IH by fastforce
qed auto

section \<open>Lookup\<close>

lemma HASH_FIND_bloom_eq:
  assumes rep: "table_rep m head xs" and wf: "mem_wf m"
    and B: "filter_ok nbits H B" "\<forall>a \<in> set xs. hash_key (key_at m a) \<in> H"
  shows "HASH_FIND_bloom B head (key_bytes k) m = HASH_FIND head (key_bytes k) m"
proof (cases head)
  case None
  then show ?thesis by (simp add: HASH_FIND_bloom_def HASH_FIND_def)
next
  case (Some x)
  obtain t cs where ok: "table_ok m t xs cs" and x: "x \<in> set xs"
    using rep Some by (cases xs) (auto simp: table_rep_def hash_rep_def)
  have v: "valid m x" "tbl (hh_at m x) = Some t" "tvalid m t"
    using ok x by (auto simp: table_ok_def app_ok_def)
  show ?thesis
  proof (cases "bloom_has nbits (bloom_bv B) (HASH_VALUE (key_bytes k))")
    case True
    then show ?thesis
      by (simp add: Some HASH_FIND_bloom_def HASH_FIND_def HASH_FIND_BYHASHVALUE_bloom_def
          HASH_FIND_BYHASHVALUE_def run_simps v bloom_test_ok [OF B(1)] Let_def)
  next
    case False
    then have "HASH_FIND_bloom B head (key_bytes k) m = Ok None"
      by (simp add: Some HASH_FIND_bloom_def HASH_FIND_BYHASHVALUE_bloom_def run_simps v
          bloom_test_ok [OF B(1)] Let_def)
    moreover have "\<forall>a \<in> set xs. key_at m a \<noteq> k"
      using False B by (auto simp: filter_ok_def hash_key_def)
    then have "HASH_FIND head (key_bytes k) m = Ok None"
      using ut.find_None_iff_absent [OF rep wf, of k] by auto
    ultimately show ?thesis by simp
  qed
qed

text \<open>
  In a build with \<open>HASH_BLOOM\<close>, of at most 32 bits, every lookup returns what it returns without
  the filter: a filter made by \<open>HASH_BLOOM_MAKE\<close> and told the hash values of the elements ever
  inserted, those still in the table among them, hides none of them.
\<close>

theorem HASH_BLOOM_transparent:
  assumes "table_rep m head xs" and "mem_wf m" and "nbits \<le> 32"
    and "HASH_BLOOM_MAKE nbits m0 = Ok (B0, m1)" and "(\<lambda>a. hash_key (key_at m a)) ` set xs \<subseteq> set hs"
  shows "\<exists>B. bloom_add_all hs B0 = Ok B \<and>
    (\<forall>k. HASH_FIND_bloom B head (key_bytes k) m = HASH_FIND head (key_bytes k) m)"
proof -
  obtain B where B: "bloom_add_all hs B0 = Ok B" "filter_ok nbits ({} \<union> set hs) B"
    using filter_ok_add_all [OF filter_ok_make [OF assms(3,4)]] by blast
  then show ?thesis using HASH_FIND_bloom_eq [OF assms(1,2) B(2)] assms(5) by auto
qed

theorem HASH_BLOOM_transparent_witness:
  "\<exists>head m B. HASH_FIND_bloom B head (key_bytes (example_key 0)) m = Ok (Some 0)"
proof -
  obtain head m where t: "table_rep m head [0]" "mem_wf m" "key_at m 0 = example_key 0"
    using example_table by blast
  have "HASH_BLOOM_BYTELEN_of 10 = 128" by (simp add: HASH_BLOOM_BYTELEN_of_def HASH_BLOOM_BITLEN_def)
  then obtain B0 m1 where B0: "HASH_BLOOM_MAKE 10 example_mem = Ok (B0, m1)"
    by (auto simp: HASH_BLOOM_MAKE_def alloc_def example_mem_def)
  from HASH_BLOOM_transparent [OF t(1,2) _ B0, of "[hash_key (example_key 0)]"] obtain B where
    "HASH_FIND_bloom B head (key_bytes (example_key 0)) m = HASH_FIND head (key_bytes (example_key 0)) m"
    using t(3) by auto
  moreover have "HASH_FIND head (key_bytes (example_key 0)) m = Ok (Some 0)"
    using ut.find_Some_iff_in [OF t(1,2)] t(3) by simp
  ultimately show ?thesis by metis
qed

end
