(* ===== verification/Uthash_Select.thy ===== *)
theory Uthash_Select
  imports Uthash_Nonfatal Uthash_Iter
begin

text \<open>
  \<open>HASH_SELECT\<close>: the elements of one hash that satisfy a condition are added to a second hash
  through a second hash handle in the element.  The heap of theory Memory shows one handle of
  each element, so the macro is run over two views of the same elements: \<open>s\<close> shows the handle
  \<open>hh_src\<close> and the table of \<open>src\<close>, \<open>d\<close> the handle \<open>hh_dst\<close> and the table of \<open>dst\<close>, and the
  allocator is that of \<open>d\<close>.  The macro reads \<open>s\<close> and writes \<open>d\<close> only.

  It fills the new table correctly but for one member: \<open>tail\<close> stays at the first element,
  because only \<open>HASH_MAKE_TABLE\<close> sets it.  The next \<open>HASH_ADD\<close> then cuts the list there.
\<close>

section \<open>The macro\<close>

text \<open>
  The state of its loops: the head \<open>dst\<close>, the element selected last (\<open>_last_elt\<close> and
  \<open>_last_elt_hh\<close>, which are \<open>NULL\<close> together), and the heap.
\<close>

type_synonym select_state = "ptr \<times> ptr \<times> mem"

text \<open>The key of the element, and its place behind the element selected last.\<close>

definition select_link :: "mem \<Rightarrow> addr \<Rightarrow> ptr \<Rightarrow> mem \<Rightarrow> mem outcome" where
  "select_link s elt last_elt d =
     seq (load_hh (Some elt) s) (\<lambda>src_hh.
     seq (upd_hh (Some elt) (\<lambda>h. h\<lparr>keyptr := keyptr src_hh, keylen := keylen src_hh,
            hashv := hashv src_hh, app_prev := last_elt, app_next := None\<rparr>) d) (\<lambda>d.
     if last_elt \<noteq> None then upd_hh last_elt (\<lambda>h. h\<lparr>app_next := Some elt\<rparr>) d else Ok d))"

definition select_elt :: "mem \<Rightarrow> addr \<Rightarrow> select_state \<Rightarrow> select_state outcome" where
  "select_elt s elt st =
     (case st of (dst, last_elt, d) \<Rightarrow>
        seq (select_link s elt last_elt d) (\<lambda>d.
        seq (if dst = None then seq (HASH_MAKE_TABLE (Some elt) d) (\<lambda>d. Ok (Some elt, d))
             else seq (load_hh dst d) (\<lambda>h.
                  seq (upd_hh (Some elt) (\<lambda>h'. h'\<lparr>tbl := tbl h\<rparr>) d) (\<lambda>d. Ok (dst, d)))) (\<lambda>(dst, d).
        seq (load_hh (Some elt) d) (\<lambda>dst_hh.
        seq (load_tbl (tbl dst_hh) d) (\<lambda>T.
        seq (HASH_ADD_TO_BKT (tbl dst_hh) (unat (HASH_TO_BKT (hashv dst_hh) (num_buckets T))) (Some elt) d) (\<lambda>d.
        seq (upd_tbl_of dst (\<lambda>T. T\<lparr>num_items := num_items T + 1\<rparr>) d) (\<lambda>d.
        Ok (dst, Some elt, d))))))))"

fun select_chain :: "nat \<Rightarrow> (addr \<Rightarrow> bool) \<Rightarrow> mem \<Rightarrow> ptr \<Rightarrow> select_state \<Rightarrow> select_state outcome" where
  "select_chain n cond s None st = Ok st"
| "select_chain 0 cond s (Some elt) st = Fault OutOfFuel"
| "select_chain (Suc n) cond s (Some elt) st =
     seq (if cond elt then select_elt s elt st else Ok st) (\<lambda>st.
     seq (load_hh (Some elt) s) (\<lambda>h. select_chain n cond s (hh_next h) st))"

fun select_buckets ::
  "(addr \<Rightarrow> bool) \<Rightarrow> mem \<Rightarrow> UT_hash_bucket list \<Rightarrow> nat list \<Rightarrow> select_state \<Rightarrow> select_state outcome" where
  "select_buckets cond s bs [] st = Ok st"
| "select_buckets cond s bs (i # is) st =
     seq (load_bucket i bs) (\<lambda>b.
     seq (select_chain (fresh s) cond s (hh_head b) st) (\<lambda>st.
     select_buckets cond s bs is st))"

definition HASH_SELECT :: "ptr \<Rightarrow> ptr \<Rightarrow> (addr \<Rightarrow> bool) \<Rightarrow> mem \<Rightarrow> mem \<Rightarrow> (ptr \<times> mem) outcome" where
  "HASH_SELECT dst src cond s d =
     (case src of None \<Rightarrow> Ok (dst, d)
      | Some _ \<Rightarrow>
          seq (load_tbl_of src s) (\<lambda>T.
          seq (select_buckets cond s (buckets T) [0..<unat (num_buckets T)] (dst, None, d))
            (\<lambda>(dst, last_elt, d). Ok (dst, d))))"

section \<open>The table it fills\<close>

definition retail :: "addr \<Rightarrow> ptr \<Rightarrow> mem \<Rightarrow> mem" where
  "retail t p d = set_tbl t (\<lambda>T. T\<lparr>tail := p\<rparr>) d"

text \<open>A well-formed table of the elements \<open>ys\<close>, but for its \<open>tail\<close>, which is the first of them.\<close>

definition selected :: "mem \<Rightarrow> addr \<Rightarrow> addr list \<Rightarrow> bool" where
  "selected d t ys \<longleftrightarrow>
     tvalid d t \<and> (\<exists>cs. table_ok (retail t (last_opt ys) d) t ys cs) \<and> tail (tbl_at d t) = hd_opt ys"

lemma retail_facts [simp]:
  "flows (retail t p d) = flows d" "fresh (retail t p d) = fresh d" "max_block (retail t p d) = max_block d"
  "valid (retail t p d) = valid d" "tvalid (retail t p d) t"
  "tbl_at (retail t p d) t = (tbl_at d t)\<lparr>tail := p\<rparr>"
  by (simp_all add: retail_def set_rules)

lemma buckets_ok_retail: "tvalid d t \<Longrightarrow> buckets_ok (retail t p d) t cs \<longleftrightarrow> buckets_ok d t cs"
  using chains_ok_flows [of "retail t p d" d] chains_ok_flows [of d "retail t p d"]
  by (auto simp: buckets_ok_def)

lemma app_ok_flows: "flows d' = flows d \<Longrightarrow> app_ok d t xs \<Longrightarrow> app_ok d' t xs"
  by (rule app_ok_cong [where m = d]) (simp_all add: valid_def)

lemma keys_ok_flows: "flows d' = flows d \<Longrightarrow> keys_ok d xs \<Longrightarrow> keys_ok d' xs"
  by (rule keys_ok_cong [where m = d]) simp_all

lemma selectedI:
  assumes "buckets_ok d t cs" and "app_ok d t ys" and "keys_ok d ys" and "in_chains cs = set ys"
    and "num_items (tbl_at d t) = of_nat (length ys)" and "tail (tbl_at d t) = hd_opt ys"
  shows "selected d t ys"
proof -
  have t: "tvalid d t" using assms(1) by (simp add: buckets_ok_def)
  have "table_ok (retail t (last_opt ys) d) t ys cs"
    using assms t by (simp add: table_ok_buckets_ok buckets_ok_retail app_ok_flows [where d = d]
        keys_ok_flows [where d = d])
  then show ?thesis using t assms(6) by (auto simp: selected_def)
qed

lemma selectedD:
  assumes "selected d t ys"
  obtains cs where "tvalid d t" "buckets_ok d t cs" "app_ok d t ys" "keys_ok d ys" "in_chains cs = set ys"
    "num_items (tbl_at d t) = of_nat (length ys)" "tail (tbl_at d t) = hd_opt ys"
proof -
  obtain cs where "tvalid d t" "table_ok (retail t (last_opt ys) d) t ys cs" "tail (tbl_at d t) = hd_opt ys"
    using assms by (auto simp: selected_def)
  then show thesis
    by (intro that [of cs])
       (simp_all add: table_ok_buckets_ok buckets_ok_retail app_ok_flows [of d "retail t (last_opt ys) d"]
         keys_ok_flows [of d "retail t (last_opt ys) d"])
qed

section \<open>What an insertion into a bucket costs\<close>

text \<open>At most one allocation and at most a doubling of the bucket array.\<close>

lemma upd_hh_keeps: "upd_hh p g m = Ok m' \<Longrightarrow> tbls m' = tbls m \<and> budget m' = budget m"
  by (auto simp: upd_hh_def upd_flow_def split: option.splits)

lemma expand_push_keeps:
  "expand_push n ideal a h s = Ok s' \<Longrightarrow> tbls (fst s') = tbls (fst s) \<and> budget (fst s') = budget (fst s)"
  by (cases s) (auto simp: expand_push_def seq_eq_Ok_iff Let_def split: if_splits dest!: upd_hh_keeps)

lemma expand_chain_keeps:
  "expand_chain k n ideal p s = Ok s' \<Longrightarrow> tbls (fst s') = tbls (fst s) \<and> budget (fst s') = budget (fst s)"
  by (induction k n ideal p s rule: expand_chain.induct)
     (fastforce simp: seq_eq_Ok_iff dest: expand_push_keeps)+

lemma expand_buckets_keeps:
  "expand_buckets n ideal bs is s = Ok s' \<Longrightarrow> tbls (fst s') = tbls (fst s) \<and> budget (fst s') = budget (fst s)"
  by (induction n ideal bs "is" s rule: expand_buckets.induct)
     (fastforce simp: seq_eq_Ok_iff dest: expand_chain_keeps)+

lemma upd_tbl_keeps:
  "upd_tbl (Some t) g m = Ok m' \<Longrightarrow> budget m' = budget m \<and> tbl_at m' t = g (tbl_at m t)"
  by (auto simp: upd_tbl_def split: option.splits)

lemma expand_cost:
  assumes "HASH_EXPAND_BUCKETS (Some t) m = Ok m'" and "tvalid m t"
  shows "budget m \<le> Suc (budget m') \<and> num_buckets (tbl_at m' t) = num_buckets (tbl_at m t) * 2"
proof -
  define T where "T = tbl_at m t"
  obtain p m0 where al: "alloc (sizeof_UT_hash_bucket * unat (num_buckets T) * 2) m = (p, m0)" by fastforce
  with assms obtain q where p: "p = Some q" by (cases p) (auto simp: HASH_EXPAND_BUCKETS_def load_tbl_valid T_def)
  with al have m0: "budget m \<le> Suc (budget m0)" "tbls m0 = tbls m" using alloc_SomeD by fastforce+
  obtain g1 g2 m1 m2 nbs ni ideal where u1: "upd_tbl (Some t) g1 m0 = Ok m1" and
    ex: "expand_buckets (num_buckets T * 2) ideal (buckets T) [0..<unat (num_buckets T)]
      (m1, replicate (unat (num_buckets T) * 2) zero_bucket, 0) = Ok (m2, nbs, ni)" and
    u2: "upd_tbl (Some t) g2 m2 = Ok m'" and g: "\<And>X. num_buckets (g1 X) = num_buckets X"
      "\<And>X. num_buckets (g2 X) = num_buckets X * 2"
    using assms al p
    by (clarsimp simp: HASH_EXPAND_BUCKETS_def load_tbl_valid T_def [symmetric] Let_def seq_eq_Ok_iff
        split: prod.splits)
  show ?thesis
    using expand_buckets_keeps [OF ex] upd_tbl_keeps [OF u1] upd_tbl_keeps [OF u2] m0 g
    by (simp add: T_def)
qed

lemma add_to_bkt_cost:
  assumes b: "buckets_ok m t cs" and a: "valid m a" "a \<notin> in_chains cs" "tbl (hh_at m a) = Some t"
    and i: "i = unat (HASH_TO_BKT (hashv (hh_at m a)) (num_buckets (tbl_at m t)))"
    and run: "HASH_ADD_TO_BKT (Some t) i (Some a) m = Ok m'"
  shows "budget m \<le> Suc (budget m') \<and> unat (num_buckets (tbl_at m' t)) \<le> 2 * unat (num_buckets (tbl_at m t))"
proof -
  obtain k where k: "k < 32" "num_buckets (tbl_at m t) = 2 ^ k" "length cs = 2 ^ k"
    and tv: "tvalid m t" and ch: "chains_ok m (num_buckets (tbl_at m t)) (buckets (tbl_at m t)) cs"
    using b by (auto simp: buckets_ok_def)
  have il: "i < length cs" "i < length (buckets (tbl_at m t))"
    using HASH_TO_BKT_less k ch by (auto simp: i chains_ok_def)
  then have c: "chain_ok m (num_buckets (tbl_at m t)) i (buckets (tbl_at m t) ! i) (cs ! i)"
    using ch by (simp add: chains_ok_def)
  have hd: "valid m x \<and> x \<in> in_chains cs" if "hh_head (buckets (tbl_at m t) ! i) = Some x" for x
    using that c nth_mem [OF il(1)] hd_opt_in_set [of "cs ! i" x] by (auto simp: chain_ok_def in_chains_def)
  define m3 where "m3 = pushed_mem t i a m"
  have push: "bkt_push (Some t) i (Some a) m = Ok m3"
    unfolding m3_def by (rule bkt_push_run [OF tv il(2) a(1)]) (use hd in blast)
  have "hh_head (buckets (tbl_at m t) ! i) \<noteq> Some a" using hd a(2) by auto
  note f3 = pushed_mem_facts [OF tv il(2) a(1,3) this, folded m3_def]
  have "m' = m3 \<or> HASH_EXPAND_BUCKETS (Some t) m3 = Ok m'"
    using run f3 by (auto simp: HASH_ADD_TO_BKT_split push seq_eq_Ok_iff run_simps split: if_splits)
  moreover have "unat (num_buckets (tbl_at m t) * 2) \<le> 2 * unat (num_buckets (tbl_at m t))"
    by (simp add: unat_mult_lem unat_word_ariths)
  ultimately show ?thesis using expand_cost [OF _ f3(1), of m'] f3(5,6) by auto
qed

section \<open>One element\<close>

text \<open>At most \<open>b\<close> allocations since \<open>d\<close>, and at most \<open>w\<close> buckets.\<close>

definition limits :: "nat \<Rightarrow> nat \<Rightarrow> addr \<Rightarrow> mem \<Rightarrow> mem \<Rightarrow> bool" where
  "limits b w t d d' \<longleftrightarrow> budget d \<le> budget d' + b \<and> unat (num_buckets (tbl_at d' t)) \<le> w"

abbreviation width :: "mem \<Rightarrow> addr \<Rightarrow> nat" where
  "width d t \<equiv> unat (num_buckets (tbl_at d t))"

lemma select_finish:
  assumes b: "buckets_ok d t cs" and app: "app_ok d t (ys @ [e])" and keys: "keys_ok d (ys @ [e])"
    and inc: "in_chains cs = set ys" and num: "num_items (tbl_at d t) = of_nat (length ys)"
    and tl: "tail (tbl_at d t) = hd_opt (ys @ [e])" and wf: "mem_wf d" and x: "x \<in> set (ys @ [e])"
    and E: "budget d = 0 \<or> max_block d < 32 * width d t \<Longrightarrow> E (-1)"
  shows "safe E
    (\<lambda>(dst', last', d'). dst' = Some x \<and> last' = Some e \<and> selected d' t (ys @ [e]) \<and> mem_wf d' \<and>
       touches (set (ys @ [e])) {t} d d' \<and> limits 1 (2 * width d t) t d d')
    (seq (load_hh (Some e) d) (\<lambda>dst_hh.
     seq (load_tbl (tbl dst_hh) d) (\<lambda>T.
     seq (HASH_ADD_TO_BKT (tbl dst_hh) (unat (HASH_TO_BKT (hashv dst_hh) (num_buckets T))) (Some e) d) (\<lambda>d.
     seq (upd_tbl_of (Some x) (\<lambda>T. T\<lparr>num_items := num_items T + 1\<rparr>) d) (\<lambda>d.
     Ok (Some x, Some e, d))))))"
proof -
  have e: "valid d e" "tbl (hh_at d e) = Some t" "e \<notin> in_chains cs" and ex: "valid d x" "tbl (hh_at d x) = Some t"
    and tv: "tvalid d t"
    using app x b by (auto simp: app_ok_def inc buckets_ok_def)
  have ins: "insert e (in_chains cs) = set (ys @ [e])" using inc by auto
  have "safe E (\<lambda>(dst', last', d'). dst' = Some x \<and> last' = Some e \<and> selected d' t (ys @ [e]) \<and>
       mem_wf d' \<and> touches (set (ys @ [e])) {t} d d' \<and> limits 1 (2 * width d t) t d d')
    (seq (HASH_ADD_TO_BKT (Some t) (unat (HASH_TO_BKT (hashv (hh_at d e)) (num_buckets (tbl_at d t)))) (Some e) d) (\<lambda>d.
     seq (upd_tbl_of (Some x) (\<lambda>T. T\<lparr>num_items := num_items T + 1\<rparr>) d) (\<lambda>d. Ok (Some x, Some e, d))))"
  proof (rule safe_seq [OF safe_mono [OF safe_and [OF HASH_ADD_TO_BKT_correct [OF b wf e(1,3,2) refl]
            add_to_bkt_cost [OF b e(1,3,2) refl]]]])
    fix d1 assume d1: "(\<exists>cs'. buckets_ok d1 t cs' \<and> in_chains cs' = insert e (in_chains cs) \<and>
       num_items (tbl_at d1 t) = num_items (tbl_at d t) \<and>
       tail (tbl_at d1 t) = tail (tbl_at d t) \<and> relinked (insert e (in_chains cs)) t d d1) \<and>
       budget d \<le> Suc (budget d1) \<and> width d1 t \<le> 2 * width d t"
    then obtain cs' where r: "buckets_ok d1 t cs'" "in_chains cs' = set (ys @ [e])"
      "num_items (tbl_at d1 t) = of_nat (length ys)" "tail (tbl_at d1 t) = hd_opt (ys @ [e])"
      "relinked (set (ys @ [e])) t d d1"
      by (auto simp: ins num tl)
    note tch = relinked_touches [OF r(5)]
    define d2 where "d2 = set_tbl t (\<lambda>T. T\<lparr>num_items := num_items T + 1\<rparr>) d1"
    have v1: "valid d1 x" "tbl (hh_at d1 x) = Some t" "tvalid d1 t"
      using ex r(1) by (simp_all add: touches_valid [OF tch] relinked_handle [OF r(5)] buckets_ok_def)
    have f2: "flows d2 = flows d1" by (simp add: d2_def)
    have "selected d2 t (ys @ [e])"
    proof (rule selectedI)
      show "buckets_ok d2 t cs'" unfolding d2_def by (rule buckets_ok_set_tbl [OF r(1)])
      show "app_ok d2 t (ys @ [e])" by (rule app_ok_flows [OF f2 relinked_app_ok [OF r(5) app]])
      show "keys_ok d2 (ys @ [e])" by (rule keys_ok_flows [OF f2 relinked_keys_ok [OF r(5) keys]])
    qed (use r(2-4) in \<open>simp_all add: d2_def set_rules\<close>)
    moreover have t2: "touches (set (ys @ [e])) {t} d d2"
      unfolding d2_def by (rule touches_step_tbl [OF tch]) simp
    moreover have "mem_wf d2"
      by (rule touches_mem_wf [OF t2 wf])
        (use mem_wf_tfresh [OF wf tv] r(5) in \<open>auto simp: d2_def relinked_def\<close>)
    ultimately show "safe E (\<lambda>(dst', last', d'). dst' = Some x \<and> last' = Some e \<and>
       selected d' t (ys @ [e]) \<and> mem_wf d' \<and> touches (set (ys @ [e])) {t} d d' \<and>
       limits 1 (2 * width d t) t d d')
      (seq (upd_tbl_of (Some x) (\<lambda>T. T\<lparr>num_items := num_items T + 1\<rparr>) d1) (\<lambda>d. Ok (Some x, Some e, d)))"
      using v1 d1 by (simp add: run_simps d2_def limits_def set_rules)
  qed (use E in \<open>auto simp: expand_fails_def\<close>)
  then show ?thesis using e tv by (simp add: run_simps)
qed

lemma upd_hh_upd_hh: "seq (upd_hh p f m) (upd_hh p g) = upd_hh p (\<lambda>h. g (f h)) m"
  by (cases p) (auto simp: upd_hh_def upd_flow_def split: option.split)

text \<open>The handle of an element in the source table names the element, its key and its hash value.\<close>

definition src_handle :: "mem \<Rightarrow> mem \<Rightarrow> addr \<Rightarrow> bool" where
  "src_handle s d e \<longleftrightarrow>
     valid s e \<and> keyptr (hh_at s e) = Some e \<and> keylen (hh_at s e) = 16 \<and>
     hashv (hh_at s e) = hash_key (key_at d e)"

lemma select_link_first:
  assumes "src_handle s d e"
  shows "seq (select_link s e None d) K =
    seq (upd_hh (Some e) (\<lambda>h. h\<lparr>hashv := hash_key (key_at d e), keyptr := Some e, keylen := 16\<rparr>) d) (\<lambda>m.
    seq (upd_hh (Some e) (\<lambda>h. h\<lparr>app_next := None, app_prev := None\<rparr>) m) K)"
proof -
  let ?hv = "hash_key (key_at d e)"
  have "upd_hh (Some e) (\<lambda>h. h\<lparr>keyptr := Some e, keylen := 16, hashv := ?hv, app_prev := None, app_next := None\<rparr>) d =
      seq (upd_hh (Some e) (\<lambda>h. h\<lparr>hashv := ?hv, keyptr := Some e, keylen := 16\<rparr>) d)
        (upd_hh (Some e) (\<lambda>h. h\<lparr>app_next := None, app_prev := None\<rparr>))"
    unfolding upd_hh_upd_hh by (rule arg_cong [where f = "\<lambda>f. upd_hh _ f d"]) (simp add: fun_eq_iff)
  then show ?thesis using assms by (simp add: select_link_def src_handle_def load_hh_valid seq_assoc)
qed

lemma select_first:
  assumes wf: "mem_wf d" and e: "valid d e" and src: "src_handle s d e"
    and E: "budget d < 3 \<or> max_block d < 1024 \<Longrightarrow> E (-1)"
  shows "safe E
    (\<lambda>(dst', last', d'). dst' = Some e \<and> last' = Some e \<and> selected d' (fresh d) [e] \<and> mem_wf d' \<and>
       touches {e} {fresh d} d d' \<and> limits 3 64 (fresh d) d d')
    (select_elt s e (None, None, d))"
proof -
  define hv where "hv = hash_key (key_at d e)"
  define m1 where "m1 = make_mem e hv d"
  let ?rest = "\<lambda>d. seq (load_hh (Some e) d) (\<lambda>dst_hh.
     seq (load_tbl (tbl dst_hh) d) (\<lambda>T.
     seq (HASH_ADD_TO_BKT (tbl dst_hh) (unat (HASH_TO_BKT (hashv dst_hh) (num_buckets T))) (Some e) d) (\<lambda>d.
     seq (upd_tbl_of (Some e) (\<lambda>T. T\<lparr>num_items := num_items T + 1\<rparr>) d) (\<lambda>d. Ok (Some e, Some e, d)))))"
  have "select_elt s e (None, None, d) =
      seq (seq (upd_hh (Some e) (\<lambda>h. h\<lparr>hashv := hv, keyptr := Some e, keylen := 16\<rparr>) d) (\<lambda>m.
       seq (upd_hh (Some e) (\<lambda>h. h\<lparr>app_next := None, app_prev := None\<rparr>) m) (\<lambda>m. HASH_MAKE_TABLE (Some e) m))) ?rest"
    using select_link_first [OF src] by (simp add: select_elt_def hv_def seq_assoc)
  then have run: "select_elt s e (None, None, d) =
      (if budget d < 2 \<or> max_block d < 512 then Exit (-1) else ?rest m1)"
    unfolding HASH_MAKE_TABLE_run [OF e] m1_def by simp
  note l = make_mem_linked [OF wf e, folded hv_def m1_def]
  have "mem_wf m1" by (rule touches_mem_wf [OF l(2) wf]) (simp add: m1_def make_mem_def)
  moreover have w: "width m1 (fresh d) = 32" "budget m1 = budget d - 2" "max_block m1 = max_block d"
    by (simp_all add: m1_def make_mem_def first_table_def)
  ultimately have "safe E (\<lambda>(dst', last', d'). dst' = Some e \<and> last' = Some e \<and>
       selected d' (fresh d) ([] @ [e]) \<and> mem_wf d' \<and> touches (set ([] @ [e])) {fresh d} m1 d' \<and>
       limits 1 (2 * width m1 (fresh d)) (fresh d) m1 d') (?rest m1)"
    using l(1) E by (intro select_finish [where cs = "replicate 32 []"]) (auto simp: linked_def last_opt_def)
  then have "safe E (\<lambda>(dst', last', d'). dst' = Some e \<and> last' = Some e \<and>
       selected d' (fresh d) [e] \<and> mem_wf d' \<and> touches {e} {fresh d} d d' \<and> limits 3 64 (fresh d) d d') (?rest m1)"
    by (rule safe_mono) (auto simp: limits_def w intro: touches_trans [OF l(2)])
  then show ?thesis unfolding run using E by auto
qed

text \<open>The writes that put the next element behind the last one.\<close>

definition behind_mem :: "addr \<Rightarrow> addr \<Rightarrow> addr \<Rightarrow> u32 \<Rightarrow> mem \<Rightarrow> mem" where
  "behind_mem t z e hv d = set_hh z (\<lambda>h. h\<lparr>app_next := Some e\<rparr>) (set_hh e (new_handle e hv (Some t) (Some z)) d)"

lemma select_link_next:
  assumes sel: "selected d t ys" and ys: "ys \<noteq> []" "e \<notin> set ys" and wf: "mem_wf d" and e: "valid d e"
    and new: "key_at d e \<notin> key_at d ` set ys" and src: "src_handle s d e"
  defines "d1 \<equiv> behind_mem t (last ys) e (hash_key (key_at d e)) d"
  obtains cs where
    "seq (select_link s e (last_opt ys) d) (\<lambda>d. seq (load_hh (hd_opt ys) d) (\<lambda>h. upd_hh (Some e) (\<lambda>h'. h'\<lparr>tbl := tbl h\<rparr>) d)) = Ok d1"
    "buckets_ok d1 t cs" "app_ok d1 t (ys @ [e])" "keys_ok d1 (ys @ [e])" "in_chains cs = set ys"
    "num_items (tbl_at d1 t) = of_nat (length ys)" "tail (tbl_at d1 t) = hd_opt ys" "mem_wf d1"
    "touches (set (ys @ [e])) {t} d d1" "tvalid d t" "tbl_at d1 t = tbl_at d t" "budget d1 = budget d"
    "max_block d1 = max_block d"
proof -
  define hv where "hv = hash_key (key_at d e)"
  define z where "z = last ys"
  obtain x where x: "hd_opt ys = Some x" "x \<in> set ys" using ys by (cases ys) auto
  have z: "z \<in> set ys" "last_opt ys = Some z" using ys by (auto simp: z_def last_opt_def)
  define dr where "dr = retail t (Some z) d"
  define m1 where "m1 = append_mem t z e hv dr"
  have d1: "d1 = set_hh z (\<lambda>h. h\<lparr>app_next := Some e\<rparr>) (set_hh e (new_handle e hv (Some t) (Some z)) d)"
    by (simp add: d1_def behind_mem_def z_def hv_def)
  obtain cs where cs: "table_ok dr t ys cs" and tv: "tvalid d t" and tl: "tail (tbl_at d t) = Some x"
    using sel z x by (auto simp: selected_def dr_def)
  have "key_at dr e \<notin> key_at dr ` set ys" using new by (simp add: dr_def)
  note l = append_mem_linked [OF cs ys(1) _ ys(2) this, folded z_def]
  have m1: "m1 = retail t (Some e) d1"
    by (simp add: m1_def append_mem_def d1 dr_def retail_def set_tbl_def set_hh_def set_flow_def)
  have ez: "z \<noteq> e" "x \<noteq> e" using z x ys by auto
  have app: "app_ok d t ys" using cs app_ok_flows [of d dr] by (auto simp: table_ok_def dr_def)
  have vx: "valid d x" "tbl (hh_at d x) = Some t" and vz: "valid d z"
    using app x z by (simp_all add: app_ok_def)
  have tch: "touches (set (ys @ [e])) {t} d d1"
    unfolding d1 by (intro touches_step_hh touches_refl) (use e z vz in \<open>auto simp: set_rules\<close>)
  have T1: "tvalid d1 t" "tbl_at d1 t = tbl_at d t" using tv by (simp_all add: d1)
  have link: "linked (retail t (Some e) d1) t (ys @ [e]) e cs"
    using l(1) e by (simp add: m1 [symmetric] m1_def hv_def dr_def)
  have "(\<lambda>h. h\<lparr>keyptr := Some e, keylen := 16, hashv := hv, app_prev := Some z, app_next := None, tbl := Some t\<rparr>) =
      new_handle e hv (Some t) (Some z)"
    by (simp add: new_handle_def fun_eq_iff)
  then have run: "seq (select_link s e (last_opt ys) d) (\<lambda>d. seq (load_hh (hd_opt ys) d)
      (\<lambda>h. upd_hh (Some e) (\<lambda>h'. h'\<lparr>tbl := tbl h\<rparr>) d)) = Ok d1"
    using e vx vz ez src
    by (cases "x = z") (simp_all add: select_link_def src_handle_def load_hh_valid x z(2) hv_def [symmetric]
        run_simps set_rules d1 set_hh_commute [OF ez(1)])
  show thesis
  proof (rule that [OF run])
    show "buckets_ok d1 t cs" using link T1(1) by (simp add: linked_def buckets_ok_retail)
    show "app_ok d1 t (ys @ [e])" "keys_ok d1 (ys @ [e])"
      using link app_ok_flows [of d1 "retail t (Some e) d1"] keys_ok_flows [of d1 "retail t (Some e) d1"]
      by (simp_all add: linked_def)
    show "in_chains cs = set ys" using link ys(2) by (auto simp: linked_def)
    show "num_items (tbl_at d1 t) = of_nat (length ys)" using link by (simp add: linked_def)
    show "tail (tbl_at d1 t) = hd_opt ys" using tl x by (simp add: T1)
    show "mem_wf d1" by (rule touches_mem_wf [OF tch wf]) (use mem_wf_tfresh [OF wf tv] in \<open>simp add: d1\<close>)
  qed (use tch tv T1 in \<open>simp_all add: d1\<close>)
qed

lemma select_next:
  assumes sel: "selected d t ys" and ys: "ys \<noteq> []" "e \<notin> set ys" and wf: "mem_wf d" and e: "valid d e"
    and new: "key_at d e \<notin> key_at d ` set ys" and src: "src_handle s d e"
    and E: "budget d = 0 \<or> max_block d < 32 * width d t \<Longrightarrow> E (-1)"
  shows "safe E
    (\<lambda>(dst', last', d'). dst' = hd_opt ys \<and> last' = Some e \<and> selected d' t (ys @ [e]) \<and> mem_wf d' \<and>
       touches (set (ys @ [e])) {t} d d' \<and> limits 1 (2 * width d t) t d d')
    (select_elt s e (hd_opt ys, last_opt ys, d))"
proof -
  obtain x where x: "hd_opt ys = Some x" "x \<in> set ys" using ys by (cases ys) auto
  define d1 where "d1 = behind_mem t (last ys) e (hash_key (key_at d e)) d"
  obtain cs where run: "seq (select_link s e (last_opt ys) d) (\<lambda>d. seq (load_hh (hd_opt ys) d)
      (\<lambda>h. upd_hh (Some e) (\<lambda>h'. h'\<lparr>tbl := tbl h\<rparr>) d)) = Ok d1"
    and ok: "buckets_ok d1 t cs" "app_ok d1 t (ys @ [e])" "keys_ok d1 (ys @ [e])" "in_chains cs = set ys"
      "num_items (tbl_at d1 t) = of_nat (length ys)" "tail (tbl_at d1 t) = hd_opt ys" "mem_wf d1"
    and tch: "touches (set (ys @ [e])) {t} d d1" and same: "tbl_at d1 t = tbl_at d t" "budget d1 = budget d"
      "max_block d1 = max_block d"
    by (rule select_link_next [OF sel ys wf e new src, folded d1_def], rule that, assumption+)
  let ?rest = "\<lambda>d. seq (load_hh (Some e) d) (\<lambda>dst_hh.
     seq (load_tbl (tbl dst_hh) d) (\<lambda>T.
     seq (HASH_ADD_TO_BKT (tbl dst_hh) (unat (HASH_TO_BKT (hashv dst_hh) (num_buckets T))) (Some e) d) (\<lambda>d.
     seq (upd_tbl_of (Some x) (\<lambda>T. T\<lparr>num_items := num_items T + 1\<rparr>) d) (\<lambda>d. Ok (Some x, Some e, d)))))"
  have "safe E (\<lambda>(dst', last', d'). dst' = Some x \<and> last' = Some e \<and>
       selected d' t (ys @ [e]) \<and> mem_wf d' \<and> touches (set (ys @ [e])) {t} d1 d' \<and>
       limits 1 (2 * width d1 t) t d1 d') (?rest d1)"
    by (rule select_finish [OF ok(1-5) _ ok(7)]) (use x ys ok(6) E same in \<open>simp_all add: hd_opt_append\<close>)
  moreover have "select_elt s e (hd_opt ys, last_opt ys, d) =
      seq (seq (select_link s e (last_opt ys) d) (\<lambda>d. seq (load_hh (hd_opt ys) d)
        (\<lambda>h. upd_hh (Some e) (\<lambda>h'. h'\<lparr>tbl := tbl h\<rparr>) d))) ?rest"
    using x by (simp add: select_elt_def seq_assoc)
  then have "select_elt s e (hd_opt ys, last_opt ys, d) = ?rest d1" unfolding run by simp
  ultimately show ?thesis
    unfolding x by (auto simp: limits_def same elim!: safe_mono intro: touches_trans [OF tch [simplified]])
qed

section \<open>The loops\<close>

text \<open>After \<open>ys\<close> have been selected from the elements \<open>A\<close>, in this order, starting with the heap \<open>d0\<close>.\<close>

definition sel_inv :: "mem \<Rightarrow> addr list \<Rightarrow> select_state \<Rightarrow> bool" where
  "sel_inv d0 ys st \<longleftrightarrow>
     (case st of (dst, last_elt, d) \<Rightarrow>
        dst = hd_opt ys \<and> last_elt = last_opt ys \<and> mem_wf d \<and>
        (if ys = [] then d = d0
         else selected d (fresh d0) ys \<and> touches (set ys) {fresh d0} d0 d \<and>
           limits (length ys + 2) (32 * 2 ^ length ys) (fresh d0) d0 d))"

text \<open>
  \<open>scarce n d\<close>: the memory may not suffice for selecting \<open>n\<close> elements.  They take at most
  \<open>n + 2\<close> allocations, and each doubles the bucket array at most once.
\<close>

definition scarce :: "nat \<Rightarrow> mem \<Rightarrow> bool" where
  "scarce n d \<longleftrightarrow> budget d < n + 2 \<or> max_block d < 1024 * 2 ^ n"

definition both_views :: "mem \<Rightarrow> mem \<Rightarrow> addr set \<Rightarrow> bool" where
  "both_views s d0 A \<longleftrightarrow> inj_on (key_at d0) A \<and> (\<forall>a \<in> A. valid d0 a \<and> src_handle s d0 a)"

lemma select_elt_inv:
  assumes inv: "sel_inv d0 ys st" and b: "both_views s d0 A" and e: "e \<in> A" "set ys \<subseteq> A" "e \<notin> set ys"
    and n: "length ys < n"
  shows "safe (\<lambda>c. c = -1 \<and> scarce n d0) (sel_inv d0 (ys @ [e])) (select_elt s e st)"
proof -
  obtain d where st: "st = (hd_opt ys, last_opt ys, d)" and wf: "mem_wf d"
    using inv by (cases st) (auto simp: sel_inv_def)
  have v: "valid d0 e" "src_handle s d0 e" and inj: "inj_on (key_at d0) A"
    using b e by (auto simp: both_views_def)
  show ?thesis
  proof (cases "ys = []")
    case True
    then have "d = d0" using inv st by (simp add: sel_inv_def)
    moreover have "(2::nat) \<le> 2 ^ n" using n by (cases n) simp_all
    then have "budget d0 < 3 \<or> max_block d0 < 1024 \<Longrightarrow> scarce n d0"
      using n by (auto simp: scarce_def)
    ultimately show ?thesis
      using select_first [OF _ v, of "\<lambda>c. c = -1 \<and> scarce n d0"] wf st True
      by (auto simp: sel_inv_def last_opt_def eval_nat_numeral elim!: safe_mono)
  next
    case False
    then have sel: "selected d (fresh d0) ys" and t: "touches (set ys) {fresh d0} d0 d"
      and lim: "limits (length ys + 2) (32 * 2 ^ length ys) (fresh d0) d0 d"
      using inv st by (simp_all add: sel_inv_def)
    have "key_at d0 e \<notin> key_at d0 ` set ys" using inj_on_image_mem_iff [OF inj e(1,2)] e(3) by simp
    then have new: "key_at d e \<notin> key_at d ` set ys" by (simp add: touches_key [OF t])
    have src: "src_handle s d e" using v by (simp add: src_handle_def touches_key [OF t])
    have ve: "valid d e" using v touches_valid [OF t] by simp
    have mb: "max_block d = max_block d0" using t by (simp add: touches_def)
    have "32 * width d (fresh d0) \<le> 1024 * 2 ^ length ys" using lim by (simp add: limits_def)
    also have "\<dots> \<le> 1024 * 2 ^ n" using n by simp
    finally have E: "budget d = 0 \<or> max_block d < 32 * width d (fresh d0) \<Longrightarrow> scarce n d0"
      using lim n mb by (auto simp: scarce_def limits_def)
    have "safe (\<lambda>c. c = -1 \<and> scarce n d0) (\<lambda>(dst', last', d'). dst' = hd_opt ys \<and> last' = Some e \<and>
        selected d' (fresh d0) (ys @ [e]) \<and> mem_wf d' \<and> touches (set (ys @ [e])) {fresh d0} d d' \<and>
        limits 1 (2 * width d (fresh d0)) (fresh d0) d d') (select_elt s e st)"
      unfolding st by (rule select_next [OF sel False e(3) wf ve new src]) (use E in simp)
    moreover have "touches (set (ys @ [e])) {fresh d0} d0 d'" if "touches (set (ys @ [e])) {fresh d0} d d'" for d'
      using touches_trans [OF touches_mono [OF t] that] by auto
    ultimately show ?thesis
      using False lim by (auto simp: sel_inv_def hd_opt_append limits_def elim!: safe_mono)
  qed
qed

lemma select_chain_inv:
  assumes b: "both_views s d0 A" and c: "c = pre @ suf" "distinct c" "set c \<subseteq> A" "length suf \<le> n"
    and links: "\<forall>a \<in> set c. hh_next (hh_at s a) = next_in c a"
    and inv: "sel_inv d0 ys st" and ys: "set ys \<subseteq> A" "set ys \<inter> set suf = {}"
    and len: "length ys + length suf \<le> N"
  shows "safe (\<lambda>c. c = -1 \<and> scarce N d0) (sel_inv d0 (ys @ filter cond suf)) (select_chain n cond s (hd_opt suf) st)"
  using c(1,4) inv ys len
proof (induction suf arbitrary: pre n ys st)
  case Nil
  then show ?case by simp
next
  case (Cons e suf)
  obtain n' where n: "n = Suc n'" using Cons.prems by (cases n) auto
  have eA: "e \<in> A" "e \<notin> set ys" using Cons.prems c(3) by auto
  have nx: "hh_next (hh_at s e) = hd_opt suf" and ve: "valid s e"
    using links Cons.prems(1) c(2) b eA(1) by (auto simp: next_in_split both_views_def src_handle_def)
  define ys' where "ys' = (if cond e then ys @ [e] else ys)"
  have "safe (\<lambda>c. c = -1 \<and> scarce N d0) (sel_inv d0 ys') (if cond e then select_elt s e st else Ok st)"
    using select_elt_inv [OF Cons.prems(3) b eA(1) Cons.prems(4) eA(2), of N] Cons.prems(3,6) by (simp add: ys'_def)
  then have "safe (\<lambda>c. c = -1 \<and> scarce N d0) (sel_inv d0 (ys @ filter cond (e # suf)))
    (seq (if cond e then select_elt s e st else Ok st) (select_chain n' cond s (hd_opt suf)))"
  proof (rule safe_seq)
    fix st' assume "sel_inv d0 ys' st'"
    then have "safe (\<lambda>c. c = -1 \<and> scarce N d0) (sel_inv d0 (ys' @ filter cond suf)) (select_chain n' cond s (hd_opt suf) st')"
      using Cons.prems c(2) eA n
      by (intro Cons.IH [where pre = "pre @ [e]"]) (auto simp: ys'_def)
    then show "safe (\<lambda>c. c = -1 \<and> scarce N d0) (sel_inv d0 (ys @ filter cond (e # suf))) (select_chain n' cond s (hd_opt suf) st')"
      by (simp add: ys'_def split: if_splits)
  qed
  then show ?case using ve by (simp add: n run_simps nx)
qed

lemma select_buckets_inv:
  assumes ch: "chains_ok s n bs cs" and b: "both_views s d0 A" "in_chains cs \<subseteq> A" and wf: "mem_wf s"
    and "is": "distinct is" "set is \<subseteq> {..<length cs}"
    and inv: "sel_inv d0 ys st" and ys: "set ys \<subseteq> A" "\<forall>i \<in> set is. set ys \<inter> set (cs ! i) = {}"
    and len: "length ys + length (concat (map ((!) cs) is)) \<le> N"
  shows "safe (\<lambda>c. c = -1 \<and> scarce N d0) (sel_inv d0 (ys @ filter cond (concat (map ((!) cs) is))))
    (select_buckets cond s bs is st)"
  using "is" inv ys len
proof (induction "is" arbitrary: ys st)
  case Nil
  then show ?case by simp
next
  case (Cons i js)
  have i: "i < length cs" "i < length bs" and c: "chain_ok s n i (bs ! i) (cs ! i)"
    using ch Cons.prems(2) by (auto simp: chains_ok_def)
  have A: "set (cs ! i) \<subseteq> A" using b(2) nth_mem [OF i(1)] by (auto simp: in_chains_def)
  have "length (cs ! i) \<le> fresh s"
    using c by (intro length_le_fresh [OF wf]) (auto simp: chain_ok_def)
  then have "safe (\<lambda>c. c = -1 \<and> scarce N d0) (sel_inv d0 (ys @ filter cond (cs ! i)))
      (select_chain (fresh s) cond s (hd_opt (cs ! i)) st)"
    using c A Cons.prems
    by (intro select_chain_inv [OF b(1), of "cs ! i" "[]"]) (auto simp: chain_ok_def)
  then have "safe (\<lambda>c. c = -1 \<and> scarce N d0) (sel_inv d0 (ys @ filter cond (concat (map ((!) cs) (i # js)))))
      (seq (select_chain (fresh s) cond s (hd_opt (cs ! i)) st) (select_buckets cond s bs js))"
  proof (rule safe_seq)
    fix st' assume inv': "sel_inv d0 (ys @ filter cond (cs ! i)) st'"
    have len': "length (ys @ filter cond (cs ! i)) + length (concat (map ((!) cs) js)) \<le> N"
      using Cons.prems(6) length_filter_le [of cond "cs ! i"]
      unfolding list.map concat.simps length_append by linarith
    have "set (cs ! i) \<inter> set (cs ! j) = {}" if "j \<in> set js" for j
      using that Cons.prems(1,2) by (intro chains_disjoint [OF ch i(1)]) auto
    then have "safe (\<lambda>c. c = -1 \<and> scarce N d0) (sel_inv d0 ((ys @ filter cond (cs ! i)) @ filter cond (concat (map ((!) cs) js))))
        (select_buckets cond s bs js st')"
      using Cons.prems A len' by (intro Cons.IH [OF _ _ inv']) auto
    then show "safe (\<lambda>c. c = -1 \<and> scarce N d0) (sel_inv d0 (ys @ filter cond (concat (map ((!) cs) (i # js)))))
        (select_buckets cond s bs js st')" by simp
  qed
  moreover have "hh_head (bs ! i) = hd_opt (cs ! i)" using c by (simp add: chain_ok_def)
  ultimately show ?case using i by (simp add: run_simps)
qed

lemma in_chains_concat: "in_chains cs = set (concat (map ((!) cs) [0..<length cs]))"
  by (simp add: map_nth in_chains_def)

lemma HASH_SELECT_correct:
  assumes rep: "hash_rep s src tp xs" and wf: "mem_wf s" "mem_wf d"
    and same: "\<forall>a \<in> set xs. valid d a \<and> key_at d a = key_at s a"
  shows "safe (\<lambda>c. c = -1 \<and> scarce (length xs) d)
    (\<lambda>(dst', d'). \<exists>ys. distinct ys \<and> set ys = {x \<in> set xs. cond x} \<and> dst' = hd_opt ys \<and> mem_wf d' \<and>
       (if ys = [] then d' = d
        else selected d' (fresh d) ys \<and> touches (set ys) {fresh d} d d' \<and>
          limits (length ys + 2) (32 * 2 ^ length ys) (fresh d) d d'))
    (HASH_SELECT None src cond s d)"
proof (cases xs)
  case Nil
  then show ?thesis using rep wf by (auto simp: HASH_SELECT_def)
next
  case (Cons x zs)
  then obtain t cs where src: "src = Some x" and ok: "table_ok s t xs cs"
    using rep by (auto simp: hash_rep_def)
  define T where "T = tbl_at s t"
  obtain k where k: "k < 32" "num_buckets T = 2 ^ k" "length cs = 2 ^ k"
    and T: "tvalid s t" "app_ok s t xs" "keys_ok s xs"
      "chains_ok s (num_buckets T) (buckets T) cs" "in_chains cs = set xs"
    using ok by (auto simp: table_ok_def T_def)
  have "inj_on (key_at d) (set xs)"
    using T(3) same by (simp add: keys_ok_def inj_on_def)
  then have b: "both_views s d (set xs)"
    using T(2,3) same by (auto simp: both_views_def src_handle_def app_ok_def keys_ok_def)
  define ys where "ys = filter cond (concat (map ((!) cs) [0..<length cs]))"
  have un: "unat (num_buckets T) = length cs" using k by (simp add: unat_pow2)
  have total: "(\<Sum>i\<leftarrow>[0..<length cs]. length (cs ! i)) = length xs"
    using chains_total [OF T(4) _ T(5)] T(2) by (simp add: app_ok_def)
  have inv: "safe (\<lambda>c. c = -1 \<and> scarce (length xs) d) (sel_inv d ([] @ ys))
      (select_buckets cond s (buckets T) [0..<length cs] (None, None, d))"
    unfolding ys_def
    by (rule select_buckets_inv [OF T(4) b _ wf(1)])
      (use T(5) wf(2) total in \<open>auto simp: sel_inv_def length_concat comp_def\<close>)
  have "card (set (concat (map ((!) cs) [0..<length cs]))) = length (concat (map ((!) cs) [0..<length cs]))"
    using total T(2,5) in_chains_concat [of cs]
    by (simp add: app_ok_def distinct_card length_concat comp_def)
  then have d: "distinct ys" unfolding ys_def by (intro distinct_filter) (rule card_distinct)
  have set: "set ys = {x \<in> set xs. cond x}"
    unfolding ys_def T(5) [symmetric] in_chains_concat by auto
  have "load_tbl_of src s = Ok T"
    using T(1,2) Cons by (simp add: src app_ok_def run_simps T_def)
  then have run: "HASH_SELECT None src cond s d =
      seq (select_buckets cond s (buckets T) [0..<length cs] (None, None, d)) (\<lambda>(dst, last_elt, d). Ok (dst, d))"
    by (simp add: HASH_SELECT_def src un)
  show ?thesis unfolding run
  proof (rule safe_seq [OF inv])
    fix st assume "sel_inv d ([] @ ys) st"
    then show "safe (\<lambda>c. c = -1 \<and> scarce (length xs) d) (\<lambda>(dst', d'). \<exists>ys. distinct ys \<and> set ys = {x \<in> set xs. cond x} \<and>
        dst' = hd_opt ys \<and> mem_wf d' \<and>
        (if ys = [] then d' = d
        else selected d' (fresh d) ys \<and> touches (set ys) {fresh d} d d' \<and>
          limits (length ys + 2) (32 * 2 ^ length ys) (fresh d) d d'))
      (case st of (dst, last_elt, d) \<Rightarrow> Ok (dst, d))"
      unfolding sel_inv_def using d set
      by (cases st; simp only: prod.case safe_simps append_Nil) (intro exI [of _ ys], simp only: simp_thms)
  qed
qed

section \<open>Lookup in the new table, and the next insertion\<close>

text \<open>A lookup does not read \<open>tail\<close>.\<close>

lemma HASH_FIND_IN_BKT_flows:
  assumes "flows m' = flows m"
  shows "HASH_FIND_IN_BKT n p kb l hv m' = HASH_FIND_IN_BKT n p kb l hv m"
proof (induction n arbitrary: p)
  case 0
  then show ?case by (cases p) simp_all
next
  case (Suc n)
  have "load_hh q m' = load_hh q m" "load_flow q m' = load_flow q m" for q
    by (simp_all add: load_hh_def load_flow_def assms split: option.split)
  then show ?case using Suc.IH by (cases p) (simp_all cong: if_cong)
qed

lemma HASH_FIND_selected:
  assumes "selected d t ys" and "mem_wf d"
  shows "HASH_FIND (hd_opt ys) (key_bytes k) d = Ok (List.find (\<lambda>a. key_at d a = k) ys)"
proof (cases ys)
  case Nil
  then show ?thesis by (simp add: HASH_FIND_def)
next
  case (Cons x zs)
  define d' where "d' = retail t (last_opt ys) d"
  obtain cs where ok: "table_ok d' t ys cs" and t: "tvalid d t" using assms by (auto simp: selected_def d'_def)
  have rep: "hash_rep d' (Some x) (Some t) ys" using ok Cons by (auto simp: hash_rep_def)
  have wf: "mem_wf d'"
    using assms(2) mem_wf_tfresh [OF assms(2) t] by (auto simp: mem_wf_def d'_def retail_def set_tbl_def)
  have x: "valid d x" "tbl (hh_at d x) = Some t" using ok Cons by (auto simp: table_ok_def app_ok_def d'_def)
  have "HASH_FIND (Some x) (key_bytes k) d' = HASH_FIND (Some x) (key_bytes k) d"
    using x t HASH_FIND_IN_BKT_flows [of d' d]
    by (simp add: HASH_FIND_def HASH_FIND_BYHASHVALUE_def run_simps d'_def Let_def)
  then show ?thesis using HASH_FIND_correct [OF rep wf] Cons by (simp add: d'_def)
qed

text \<open>The elements \<open>HASH_ITER\<close> visits.\<close>

definition listed :: "ptr \<Rightarrow> mem \<Rightarrow> addr list outcome" where
  "listed head m = seq (HASH_ITER (\<lambda>a out m. Ok (out @ [a], m)) head [] m) (\<lambda>(out, _). Ok out)"

lemma listed_two:
  assumes "mem_wf m" "valid m x" "valid m a" "x \<noteq> a"
    and "app_next (hh_at m x) = Some a" "app_next (hh_at m a) = None"
  shows "listed (Some x) m = Ok [x, a]"
proof -
  have "length [x, a] \<le> fresh m" using assms by (intro length_le_fresh) auto
  then obtain n where "fresh m = Suc (Suc n)" by (cases "fresh m"; cases "fresh m - 1") auto
  then show ?thesis using assms by (simp add: listed_def HASH_ITER_def next_or_null_def run_simps)
qed

text \<open>The heap in which \<open>HASH_ADD_TO_BKT\<close> starts for an element that has been appended behind \<open>z\<close>.\<close>

definition counted_mem :: "addr \<Rightarrow> addr \<Rightarrow> addr \<Rightarrow> u32 \<Rightarrow> mem \<Rightarrow> mem" where
  "counted_mem t z a hv m = set_tbl t (\<lambda>T. T\<lparr>num_items := num_items T + 1\<rparr>) (append_mem t z a hv m)"

lemma counted_mem_facts:
  assumes "valid m a" "valid m z" "z \<noteq> a"
  shows "tvalid (counted_mem t z a hv m) t"
    and "tbl_at (counted_mem t z a hv m) t =
      (tbl_at m t)\<lparr>tail := Some a, num_items := num_items (tbl_at m t) + 1\<rparr>"
    and "valid (counted_mem t z a hv m) b \<longleftrightarrow> valid m b"
    and "tbl (hh_at (counted_mem t z a hv m) a) = Some t"
    and "b \<noteq> a \<Longrightarrow> tbl (hh_at (counted_mem t z a hv m) b) = tbl (hh_at m b)"
    and "budget (counted_mem t z a hv m) = budget m" "max_block (counted_mem t z a hv m) = max_block m"
  using assms by (auto simp: counted_mem_def append_mem_def set_rules new_handle_def)

lemma counted_mem_buckets_ok:
  assumes b: "buckets_ok d t cs" and a: "valid d a" "a \<notin> in_chains cs" and z: "valid d z" "z \<noteq> a"
  shows "buckets_ok (counted_mem t z a hv d) t cs"
proof -
  have links: "hh_next (hh_at (counted_mem t z a hv d) y) = hh_next (hh_at d y) \<and>
      hh_prev (hh_at (counted_mem t z a hv d) y) = hh_prev (hh_at d y) \<and>
      hashv (hh_at (counted_mem t z a hv d) y) = hashv (hh_at d y)" if "y \<in> in_chains cs" for y
    using that a(2) by (auto simp: counted_mem_def append_mem_def set_rules)
  have ch: "chains_ok d (num_buckets (tbl_at d t)) (buckets (tbl_at d t)) cs"
    using b by (simp add: buckets_ok_def)
  have "chains_ok (counted_mem t z a hv d) (num_buckets (tbl_at d t)) (buckets (tbl_at d t)) cs"
    by (rule chains_ok_cong [OF _ ch]) (simp only: counted_mem_facts(3) [OF a(1) z] links simp_thms)
  then show ?thesis using b by (simp add: buckets_ok_def counted_mem_facts [OF a(1) z])
qed

lemma counted_mem_touches:
  "valid d a \<Longrightarrow> valid d z \<Longrightarrow> touches {a, z} {t} d (counted_mem t z a hv d)"
  unfolding counted_mem_def append_mem_def
  by (intro touches_step_tbl touches_step_hh touches_refl) (auto simp: set_rules)

lemma add_after_select:
  assumes sel: "selected d t ys" and ys: "ys \<noteq> []" and wf: "mem_wf d"
    and a: "valid d a" "a \<notin> set ys"
    and E: "budget d = 0 \<or> max_block d < 32 * width d t \<Longrightarrow> E (-1)"
  shows "safe E
    (\<lambda>(head, m). head = hd_opt ys \<and> HASH_COUNT head m = Ok (of_nat (length ys + 1)) \<and>
       listed head m = Ok [hd ys, a])
    (HASH_ADD (hd_opt ys) (Some a) d)"
proof -
  obtain x zs where xs: "ys = x # zs" using ys by (cases ys) auto
  define hv where "hv = hash_key (key_at d a)"
  obtain cs where tv: "tvalid d t" and b: "buckets_ok d t cs" and app: "app_ok d t ys"
    and inc: "in_chains cs = set ys" and num: "num_items (tbl_at d t) = of_nat (length ys)"
    and tl: "tail (tbl_at d t) = Some x"
    using selectedD [OF sel] xs by auto
  have x: "valid d x" "tbl (hh_at d x) = Some t" "x \<noteq> a" using app a xs by (auto simp: app_ok_def)
  define m1 where "m1 = append_mem t x a hv d"
  define m2 where "m2 = counted_mem t x a hv d"
  note f2 = counted_mem_facts [OF a(1) x(1,3), where t = t and hv = hv, folded m2_def]
  have m12: "m2 = set_tbl t (\<lambda>T. T\<lparr>num_items := num_items T + 1\<rparr>) m1"
    by (simp add: m1_def m2_def counted_mem_def)
  have h2: "hashv (hh_at m2 a) = hv" "app_next (hh_at m2 x) = Some a" "app_next (hh_at m2 a) = None"
    using x by (simp_all add: m2_def counted_mem_def append_mem_def set_rules new_handle_def)
  have wf2: "mem_wf m2"
    by (rule touches_mem_wf [OF counted_mem_touches [OF a(1) x(1), of t hv, folded m2_def] wf])
      (use mem_wf_tfresh [OF wf tv] in \<open>simp add: m2_def counted_mem_def append_mem_def\<close>)
  define i where "i = unat (HASH_TO_BKT (hashv (hh_at m2 a)) (num_buckets (tbl_at m2 t)))"
  have v1: "valid m1 x" "tbl (hh_at m1 x) = Some t" "tvalid m1 t"
    "num_buckets (tbl_at m1 t) = num_buckets (tbl_at m2 t)"
    using x by (auto simp: m12) (auto simp: m1_def append_mem_def set_rules)
  have st: "upd_tbl_of (Some x) (\<lambda>T. T\<lparr>num_items := num_items T + 1\<rparr>) m1 = Ok m2"
    using v1 by (simp add: run_simps m12)
  have va2: "valid m2 x" "tbl (hh_at m2 x) = Some t" using x f2 by simp_all
  have run: "HASH_ADD (Some x) (Some a) d = seq (HASH_ADD_TO_BKT (Some t) i (Some a) m2) (\<lambda>m. Ok (Some x, m))"
    unfolding add_prefix_nonempty(1) [OF a(1) x(1,1,3,3,2) tv tl] hv_def [symmetric] m1_def [symmetric]
    using v1 x f2 va2 st by (simp add: HASH_ADD_TO_TABLE_def run_simps i_def h2(1))
  have va: "valid m2 a" "a \<notin> in_chains cs" using a by (simp_all add: f2 inc)
  have b2: "buckets_ok m2 t cs" unfolding m2_def by (rule counted_mem_buckets_ok [OF b a(1) va(2) x(1,3)])
  show ?thesis unfolding xs hd_opt_simps run
  proof (rule safe_seq [OF safe_mono [OF HASH_ADD_TO_BKT_correct [OF b2 wf2 va f2(4) i_def]]])
    fix m assume "\<exists>cs'. buckets_ok m t cs' \<and> in_chains cs' = insert a (in_chains cs) \<and>
       num_items (tbl_at m t) = num_items (tbl_at m2 t) \<and>
       tail (tbl_at m t) = tail (tbl_at m2 t) \<and> relinked (insert a (in_chains cs)) t m2 m"
    then obtain cs' where r: "buckets_ok m t cs'" "num_items (tbl_at m t) = of_nat (length ys + 1)"
      and rel: "relinked (insert a (in_chains cs)) t m2 m"
      by (auto simp: f2(2) num)
    note tch = relinked_touches [OF rel]
    have v: "valid m x" "valid m a" "tvalid m t" "tbl (hh_at m x) = Some t"
      using x va r(1) f2(3,5) by (simp_all add: touches_valid [OF tch] relinked_handle [OF rel] buckets_ok_def)
    have "mem_wf m"
      by (rule touches_mem_wf [OF tch wf2]) (use mem_wf_tfresh [OF wf2 f2(1)] rel in \<open>auto simp: relinked_def\<close>)
    then have "listed (Some x) m = Ok [x, a]"
      using v x h2 by (intro listed_two) (simp_all add: relinked_handle [OF rel])
    then show "safe E (\<lambda>(head, m). head = Some x \<and>
        HASH_COUNT head m = Ok (of_nat (length (x # zs) + 1)) \<and> listed head m = Ok [hd (x # zs), a])
      (Ok (Some x, m))"
      using v r(2) xs by (simp add: HASH_COUNT_def run_simps)
  qed (use E f2(2,6,7) in \<open>auto simp: expand_fails_def\<close>)
qed

lemma find_Some_inj:
  assumes "inj_on f (set ys)"
  shows "List.find (\<lambda>a. f a = k) ys = Some x \<longleftrightarrow> x \<in> set ys \<and> f x = k"
proof
  assume "x \<in> set ys \<and> f x = k"
  then show "List.find (\<lambda>a. f a = k) ys = Some x"
    using assms by (cases "List.find (\<lambda>a. f a = k) ys") (auto simp: find_None_iff find_Some_iff inj_on_def)
qed (auto simp: find_Some_iff)

lemma HASH_SELECT_returns:
  assumes "table_rep s src xs" and "mem_wf s" and "mem_wf d"
    and "\<forall>x \<in> set xs. valid d x \<and> key_at d x = key_at s x" and "\<not> scarce (length xs) d"
  obtains ys d' where "HASH_SELECT None src cond s d = Ok (hd_opt ys, d')" "distinct ys"
    "set ys = {x \<in> set xs. cond x}" "mem_wf d'"
    "ys \<noteq> [] \<Longrightarrow> selected d' (fresh d) ys \<and> touches (set ys) {fresh d} d d' \<and>
       limits (length ys + 2) (32 * 2 ^ length ys) (fresh d) d d'"
proof -
  obtain tp where rep: "hash_rep s src tp xs" using assms(1) by (auto simp: table_rep_def)
  have "safe (\<lambda>_. False) (\<lambda>(dst', d'). \<exists>ys. distinct ys \<and> set ys = {x \<in> set xs. cond x} \<and>
       dst' = hd_opt ys \<and> mem_wf d' \<and>
       (if ys = [] then d' = d else selected d' (fresh d) ys \<and> touches (set ys) {fresh d} d d' \<and>
          limits (length ys + 2) (32 * 2 ^ length ys) (fresh d) d d')) (HASH_SELECT None src cond s d)"
    by (rule safe_mono [OF HASH_SELECT_correct [OF rep assms(2-4), of cond]]) (use assms(5) in auto)
  from safe_returns [OF this] show thesis using that by fastforce
qed

section \<open>Properties\<close>

text \<open>
  \<open>HASH_SELECT\<close> into an empty hash returns a table that holds exactly the elements of the source
  that satisfy the condition: they are counted, and a lookup finds them and nothing else.
\<close>

theorem HASH_SELECT_selects:
  assumes "table_rep s src xs" and "mem_wf s" and "mem_wf d"
    and "\<forall>x \<in> set xs. valid d x \<and> key_at d x = key_at s x" and "\<not> scarce (length xs) d"
  shows "\<exists>dst d'. HASH_SELECT None src cond s d = Ok (dst, d') \<and>
    HASH_COUNT dst d' = Ok (of_nat (card {x \<in> set xs. cond x})) \<and>
    (\<forall>k x. HASH_FIND dst (key_bytes k) d' = Ok (Some x) \<longleftrightarrow> x \<in> set xs \<and> cond x \<and> key_at s x = k)"
proof -
  obtain ys d' where
    run: "HASH_SELECT None src cond s d = Ok (hd_opt ys, d')" and ys: "distinct ys" "set ys = {x \<in> set xs. cond x}"
    and wf: "mem_wf d'" and sel: "ys \<noteq> [] \<Longrightarrow> selected d' (fresh d) ys \<and> touches (set ys) {fresh d} d d'"
    using HASH_SELECT_returns [OF assms, of cond] by blast
  have len: "card {x \<in> set xs. cond x} = length ys" using distinct_card [OF ys(1)] ys(2) by simp
  show ?thesis
  proof (cases "ys = []")
    case True
    then show ?thesis using run ys len by (intro exI [of _ None] exI [of _ d']) (auto simp: len HASH_FIND_def HASH_COUNT_def)
  next
    case False
    then have s: "selected d' (fresh d) ys" and t: "touches (set ys) {fresh d} d d'" using sel by simp_all
    have keys: "key_at d' x = key_at s x" if "x \<in> set xs" for x
      using that assms(4) touches_key [OF t] by simp
    have inj: "inj_on (key_at d') (set ys)"
      using ut.rep_inj [OF assms(1)] keys ys(2) by (auto simp: inj_on_def)
    have "HASH_FIND (hd_opt ys) (key_bytes k) d' = Ok (Some x) \<longleftrightarrow> x \<in> set ys \<and> key_at d' x = k" for k x
      by (simp add: HASH_FIND_selected [OF s wf] find_Some_inj [OF inj])
    moreover have "HASH_COUNT (hd_opt ys) d' = Ok (of_nat (length ys))"
      using s False by (cases ys) (auto simp: HASH_COUNT_def run_simps table_ok_def app_ok_def elim!: selectedD)
    ultimately show ?thesis using run ys(2) len keys by (intro exI [of _ "hd_opt ys"] exI [of _ d']) auto
  qed
qed

text \<open>Three allocated nodes; the first two are put into a table.\<close>

definition select_example :: mem where
  "select_example = example_mem\<lparr>flows := (flows example_mem)(2 \<mapsto> zero_flow\<lparr>key := example_key 2\<rparr>), fresh := 3\<rparr>"

lemma select_example_facts:
  "mem_wf select_example" "valid select_example 0" "valid select_example 1" "valid select_example 2"
  "key_at select_example 0 = example_key 0" "key_at select_example 1 = example_key 1"
  "\<not> scarce 3 select_example" "\<not> scarce 2 select_example"
  by (simp_all add: select_example_def example_mem_def mem_wf_def valid_def scarce_def)

lemma select_example_table:
  "\<exists>src s. table_rep s src [0, 1] \<and> mem_wf s \<and>
     (\<forall>x. valid s x = valid select_example x \<and> key_at s x = key_at select_example x)"
proof -
  note f = select_example_facts
  have "2 \<le> budget select_example" "512 \<le> max_block select_example"
    by (simp_all add: select_example_def example_mem_def)
  from HASH_ADD_first [OF f(1,2) this] obtain m where
    m: "hash_rep m (Some 0) (Some (fresh select_example)) [0]" "mem_wf m"
    and t: "touches {0} {fresh select_example} select_example m" and
    c: "\<not> add_oom m (Some (fresh select_example))"
    by (auto simp: add_oom_def) (simp add: select_example_def example_mem_def)
  have k: "key_at m x = key_at select_example x" "valid m x = valid select_example x" for x
    by (simp_all add: touches_key [OF t] touches_valid [OF t])
  have "safe (\<lambda>c. False) (\<lambda>(h', m'). hash_rep m' h' (Some (add_tbl m (Some (fresh select_example)))) ([0] @ [1]) \<and>
      mem_wf m' \<and> touches (insert 1 (set [0])) {add_tbl m (Some (fresh select_example))} m m')
      (HASH_ADD (Some 0) (Some 1) m)"
    by (rule safe_mono [OF HASH_ADD_correct [OF m]]) (use f c example_mem_facts(8) in \<open>auto simp: k\<close>)
  from safe_returns [OF this] obtain h' m' where m': "hash_rep m' h' (Some (add_tbl m (Some (fresh select_example)))) ([0] @ [1])"
    "mem_wf m'" and t': "touches (insert 1 (set [0])) {add_tbl m (Some (fresh select_example))} m m'"
    by auto
  have "table_rep m' h' [0, 1]" using m'(1) by (auto simp: table_rep_def)
  moreover have "valid m' x = valid select_example x \<and> key_at m' x = key_at select_example x" for x
    using k touches_key [OF t'] touches_valid [OF t'] by simp
  ultimately show ?thesis using m'(2) by blast
qed

theorem HASH_SELECT_selects_witness:
  "\<exists>s src dst d'. table_rep s src [0, 1] \<and>
     HASH_SELECT None src (\<lambda>x. x = 1) s select_example = Ok (dst, d') \<and> HASH_COUNT dst d' = Ok 1 \<and>
     HASH_FIND dst (key_bytes (example_key 1)) d' = Ok (Some 1)"
proof -
  obtain src s where s: "table_rep s src [0, 1]" "mem_wf s"
    "\<forall>x. valid s x = valid select_example x \<and> key_at s x = key_at select_example x"
    using select_example_table by blast
  note f = select_example_facts
  have card: "card {x \<in> set [0::nat, 1]. x = 1} = 1"
  proof -
    have "{x \<in> set [0::nat, 1]. x = 1} = {1}" by auto
    then show ?thesis by simp
  qed
  have "\<forall>x \<in> set [0, 1]. valid select_example x \<and> key_at select_example x = key_at s x"
    and "\<not> scarce (length [0 :: nat, 1]) select_example"
    using s(3) f(2,3,8) by (simp_all add: numeral_2_eq_2 [symmetric])
  from HASH_SELECT_selects [OF s(1,2) f(1) this, of "\<lambda>x. x = 1", unfolded card] obtain dst d' where
    "HASH_SELECT None src (\<lambda>x. x = 1) s select_example = Ok (dst, d')" "HASH_COUNT dst d' = Ok 1"
    "HASH_FIND dst (key_bytes (example_key 1)) d' = Ok (Some 1)"
    using s(3) f(6) by auto
  then show ?thesis using s(1) by blast
qed

text \<open>
  C33: after \<open>HASH_SELECT\<close> has selected at least two elements, the next \<open>HASH_ADD\<close> to the new
  hash cuts its list: the table counts all elements, but an iteration visits the first one and
  the new one only.  The \<open>tail\<close> of the table still is its first element.
\<close>

theorem HASH_ADD_after_HASH_SELECT:
  assumes "table_rep s src xs" and "mem_wf s" and "mem_wf d"
    and "\<forall>x \<in> set xs. valid d x \<and> key_at d x = key_at s x" and "\<not> scarce (length xs + 1) d"
    and "valid d a" and "a \<notin> set xs" and "2 \<le> card {x \<in> set xs. cond x}"
  shows "\<exists>dst d' head m x. HASH_SELECT None src cond s d = Ok (dst, d') \<and>
    HASH_ADD dst (Some a) d' = Ok (head, m) \<and>
    HASH_COUNT head m = Ok (of_nat (card {x \<in> set xs. cond x} + 1)) \<and>
    x \<in> set xs \<and> listed head m = Ok [x, a]"
proof -
  have few: "\<not> scarce (length xs) d" using assms(5) by (simp add: scarce_def)
  obtain ys d' where
    run: "HASH_SELECT None src cond s d = Ok (hd_opt ys, d')" and ys: "distinct ys" "set ys = {x \<in> set xs. cond x}"
    and wf: "mem_wf d'" and sel: "ys \<noteq> [] \<Longrightarrow> selected d' (fresh d) ys \<and> touches (set ys) {fresh d} d d' \<and>
       limits (length ys + 2) (32 * 2 ^ length ys) (fresh d) d d'"
    using HASH_SELECT_returns [OF assms(1-4) few, of cond] by blast
  have len: "card {x \<in> set xs. cond x} = length ys" using distinct_card [OF ys(1)] ys(2) by simp
  then have ne: "ys \<noteq> []" using assms(8) by auto
  note s = sel [OF ne]
  have lx: "length ys \<le> length xs"
    using card_mono [of "set xs" "{x \<in> set xs. cond x}"] card_length [of xs] len
    by (simp add: order_trans)
  have tch: "touches (set ys) {fresh d} d d'" using s by blast
  have t: "valid d' a" "max_block d' = max_block d"
    using tch touches_valid [OF tch, of a] assms(6) by (simp_all add: touches_def)
  have "32 * width d' (fresh d) \<le> 1024 * 2 ^ length ys" using s by (simp add: limits_def)
  also have "\<dots> \<le> 1024 * 2 ^ (length xs + 1)" using lx by (intro mult_left_mono power_increasing) simp_all
  finally have "\<not> (budget d' = 0 \<or> max_block d' < 32 * width d' (fresh d))"
    using s assms(5) lx t(2) unfolding limits_def scarce_def by linarith
  then have "safe (\<lambda>_. False) (\<lambda>(head, m). head = hd_opt ys \<and>
      HASH_COUNT head m = Ok (of_nat (length ys + 1)) \<and> listed head m = Ok [hd ys, a]) (HASH_ADD (hd_opt ys) (Some a) d')"
    using ys(2) assms(7) by (intro add_after_select [OF conjunct1 [OF s] ne wf t(1)]) simp_all
  from safe_returns [OF this] run len ys(2) hd_in_set [OF ne] show ?thesis by fastforce
qed

theorem HASH_ADD_after_HASH_SELECT_witness:
  "\<exists>s src dst d' head m x. table_rep s src [0, 1] \<and>
     HASH_SELECT None src (\<lambda>_. True) s select_example = Ok (dst, d') \<and>
     HASH_ADD dst (Some 2) d' = Ok (head, m) \<and> HASH_COUNT head m = Ok 3 \<and> listed head m = Ok [x, 2]"
proof -
  obtain src s where s: "table_rep s src [0, 1]" "mem_wf s"
    "\<forall>x. valid s x = valid select_example x \<and> key_at s x = key_at select_example x"
    using select_example_table by blast
  note f = select_example_facts
  have card: "card {x \<in> set [0::nat, 1]. True} = 2"
  proof -
    have "{x \<in> set [0::nat, 1]. True} = {0, 1}" by auto
    then show ?thesis by simp
  qed
  have h: "\<forall>x \<in> set [0, 1]. valid select_example x \<and> key_at select_example x = key_at s x"
    "\<not> scarce (length [0 :: nat, 1] + 1) select_example" "2 \<notin> set [0 :: nat, 1]"
    "2 \<le> card {x \<in> set [0 :: nat, 1]. True}"
    using s(3) f(2,3,7) unfolding card by (simp_all add: numeral_3_eq_3 [symmetric])
  obtain dst d' head m x where "HASH_SELECT None src (\<lambda>_. True) s select_example = Ok (dst, d')"
    "HASH_ADD dst (Some 2) d' = Ok (head, m)" "HASH_COUNT head m = Ok (of_nat (2 + 1))" "listed head m = Ok [x, 2]"
    using HASH_ADD_after_HASH_SELECT [OF s(1,2) f(1) h(1,2) f(4) h(3,4), unfolded card] by blast
  moreover have "of_nat (2 + 1) = (3 :: u32)" by simp
  ultimately show ?thesis using s(1) by metis
qed

end
