(* ===== verification/Uthash_Select_Nonfatal.thy ===== *)
theory Uthash_Select_Nonfatal
  imports Uthash_Select "HOL-Library.Multiset"
begin

text \<open>
  \<open>HASH_SELECT\<close> as built with \<open>HASH_NONFATAL_OOM\<close>: an element that finds no memory is taken out of
  the new table again and given to \<open>uthash_nonfatal_oom\<close>, and the selection goes on with the next one.
\<close>

section \<open>The macro\<close>

text \<open>The state of the loops, and the elements given to \<open>uthash_nonfatal_oom\<close> so far.\<close>

type_synonym nonfatal_state = "select_state \<times> addr list"

definition select_elt_nonfatal :: "mem \<Rightarrow> addr \<Rightarrow> nonfatal_state \<Rightarrow> nonfatal_state outcome" where
  "select_elt_nonfatal s elt st =
     (case st of ((dst, last_elt, d), failed) \<Rightarrow>
        seq (select_link s elt last_elt d) (\<lambda>d.
        seq (if dst = None then
               seq (HASH_MAKE_TABLE_nonfatal (Some elt) d) (\<lambda>(oomed, d). Ok (Some elt, oomed, d))
             else seq (load_hh dst d) (\<lambda>h.
                  seq (upd_hh (Some elt) (\<lambda>h'. h'\<lparr>tbl := tbl h\<rparr>) d) (\<lambda>d. Ok (dst, False, d)))) (\<lambda>(dst, oomed, d).
        if oomed then Ok ((None, last_elt, d), failed @ [elt])
        else
          seq (load_hh (Some elt) d) (\<lambda>dst_hh.
          seq (load_tbl (tbl dst_hh) d) (\<lambda>T.
          seq (HASH_ADD_TO_BKT_nonfatal (tbl dst_hh) (unat (HASH_TO_BKT (hashv dst_hh) (num_buckets T))) (Some elt) d)
            (\<lambda>(oomed, d).
          seq (upd_tbl_of dst (\<lambda>T. T\<lparr>num_items := num_items T + 1\<rparr>) d) (\<lambda>d.
          if oomed then
            seq (HASH_ROLLBACK_BKT dst (Some elt) d) (\<lambda>d.
            seq (HASH_DELETE_HH dst (Some elt) d) (\<lambda>(dst, d).
            seq (upd_hh (Some elt) (\<lambda>h. h\<lparr>tbl := None\<rparr>) d) (\<lambda>d.
            Ok ((dst, last_elt, d), failed @ [elt]))))
          else Ok ((dst, Some elt, d), failed))))))))"

fun select_chain_nonfatal ::
  "nat \<Rightarrow> (addr \<Rightarrow> bool) \<Rightarrow> mem \<Rightarrow> ptr \<Rightarrow> nonfatal_state \<Rightarrow> nonfatal_state outcome" where
  "select_chain_nonfatal n cond s None st = Ok st"
| "select_chain_nonfatal 0 cond s (Some elt) st = Fault OutOfFuel"
| "select_chain_nonfatal (Suc n) cond s (Some elt) st =
     seq (if cond elt then select_elt_nonfatal s elt st else Ok st) (\<lambda>st.
     seq (load_hh (Some elt) s) (\<lambda>h. select_chain_nonfatal n cond s (hh_next h) st))"

fun select_buckets_nonfatal ::
  "(addr \<Rightarrow> bool) \<Rightarrow> mem \<Rightarrow> UT_hash_bucket list \<Rightarrow> nat list \<Rightarrow> nonfatal_state \<Rightarrow> nonfatal_state outcome" where
  "select_buckets_nonfatal cond s bs [] st = Ok st"
| "select_buckets_nonfatal cond s bs (i # is) st =
     seq (load_bucket i bs) (\<lambda>b.
     seq (select_chain_nonfatal (fresh s) cond s (hh_head b) st) (\<lambda>st.
     select_buckets_nonfatal cond s bs is st))"

definition HASH_SELECT_nonfatal ::
  "ptr \<Rightarrow> ptr \<Rightarrow> (addr \<Rightarrow> bool) \<Rightarrow> mem \<Rightarrow> mem \<Rightarrow> (ptr \<times> addr list \<times> mem) outcome" where
  "HASH_SELECT_nonfatal dst src cond s d =
     (case src of None \<Rightarrow> Ok (dst, [], d)
      | Some _ \<Rightarrow>
          seq (load_tbl_of src s) (\<lambda>T.
          seq (select_buckets_nonfatal cond s (buckets T) [0..<unat (num_buckets T)] ((dst, None, d), []))
            (\<lambda>((dst, last_elt, d), failed). Ok (dst, failed, d))))"

section \<open>One element\<close>

text \<open>What a failed element leaves: its own handle, and nothing else, is different.\<close>

definition quiet :: "addr \<Rightarrow> mem \<Rightarrow> mem \<Rightarrow> bool" where
  "quiet e d d' \<longleftrightarrow>
     (\<forall>b. b \<noteq> e \<longrightarrow> flows d' b = flows d b) \<and> tbls d' = tbls d \<and> fresh d \<le> fresh d' \<and>
     max_block d' = max_block d \<and> valid d e \<and> valid d' e \<and> stats_of (flow_at d' e) = stats_of (flow_at d e)"

lemma quiet_set_hh: "valid d e \<Longrightarrow> quiet e d (set_hh e f d)"
  by (auto simp: quiet_def set_rules)

lemma quiet_facts:
  assumes "quiet e d d'"
  shows "valid d' b = valid d b" "stats_of (flow_at d' b) = stats_of (flow_at d b)"
    "b \<noteq> e \<Longrightarrow> hh_at d' b = hh_at d b" "tbl_at d' t = tbl_at d t" "tvalid d' t = tvalid d t"
  using assms by (cases "b = e"; simp add: quiet_def valid_def tvalid_def)+

lemma quiet_mem_wf:
  assumes "quiet e d d'" and "mem_wf d"
  shows "mem_wf d'"
proof -
  have "flows d' b = None \<and> tbls d' b = None" if "fresh d' \<le> b" for b
  proof -
    have "fresh d \<le> b" using that assms(1) by (simp add: quiet_def)
    moreover have "b \<noteq> e" using calculation mem_wf_fresh [OF assms(2), of e] assms(1) by (auto simp: quiet_def)
    ultimately show ?thesis using assms by (simp add: quiet_def mem_wf_def)
  qed
  then show ?thesis using assms by (simp add: mem_wf_def quiet_def)
qed

lemma quiet_selected:
  assumes q: "quiet e d d'" and e: "e \<notin> set ys" and sel: "selected d t ys"
  shows "selected d' t ys"
proof -
  obtain cs where ok: "buckets_ok d t cs" "app_ok d t ys" "keys_ok d ys" "in_chains cs = set ys"
    "num_items (tbl_at d t) = of_nat (length ys)" "tail (tbl_at d t) = hd_opt ys"
    using selectedD [OF sel] by metis
  note f = quiet_facts [OF q]
  have h: "hh_at d' b = hh_at d b" if "b \<in> set ys" for b using that e f(3) by metis
  have k: "key_at d' b = key_at d b" for b using f(2) [of b] by (metis key_stats_of)
  have "chains_ok d' (num_buckets (tbl_at d t)) (buckets (tbl_at d t)) cs"
    by (rule chains_ok_cong [where m = d]) (use ok f(1) h in \<open>auto simp: buckets_ok_def\<close>)
  then have "buckets_ok d' t cs" using ok(1) f(4,5) by (simp add: buckets_ok_def)
  moreover have "app_ok d' t ys" by (rule app_ok_cong [OF _ ok(2)]) (use h f(1) in auto)
  moreover have "keys_ok d' ys" by (rule keys_ok_cong [where m = d, OF _ ok(3)]) (use h k in auto)
  ultimately show ?thesis by (rule selectedI) (use ok f(4) in simp_all)
qed


text \<open>
  Taking the last element out of the list again.  It is not the tail of the table, which stays at the
  first element.
\<close>

lemma HASH_DELETE_HH_stale:
  assumes t: "tvalid m t" "i < length (buckets (tbl_at m t))" "tail (tbl_at m t) \<noteq> Some a"
    and i: "i = unat (HASH_TO_BKT (hashv (hh_at m a)) (num_buckets (tbl_at m t)))"
    and hd: "hh_head (buckets (tbl_at m t) ! i) \<noteq> Some a"
    and a: "valid m a" "app_prev (hh_at m a) = Some z" "app_next (hh_at m a) = None"
      "hh_prev (hh_at m a) = None" "hh_next (hh_at m a) = None"
    and x: "valid m x" "tbl (hh_at m x) = Some t" and z: "valid m z" "z \<noteq> a"
  shows "HASH_DELETE_HH (Some x) (Some a) m =
    Ok (Some x, set_tbl t (\<lambda>T. T\<lparr>num_items := num_items T - 1\<rparr>)
      (set_bucket t i (\<lambda>b. b\<lparr>bkt_count := bkt_count b - 1\<rparr>) (set_hh z (\<lambda>h. h\<lparr>app_next := None\<rparr>) m)))"
proof -
  define m1 where "m1 = set_hh z (\<lambda>h. h\<lparr>app_next := None\<rparr>) m"
  have m1: "tvalid m1 t" "tbl_at m1 t = tbl_at m t" "valid m1 a" "valid m1 x"
    "hh_at m1 a = hh_at m a" "tbl (hh_at m1 x) = Some t"
    using t a x z by (auto simp: m1_def set_rules)
  have del: "HASH_DEL_IN_BKT (Some t) i (Some a) m1 =
      Ok (set_bucket t i (\<lambda>b. b\<lparr>bkt_count := bkt_count b - 1\<rparr>) m1)"
    by (rule HASH_DEL_IN_BKT_unlinked) (use m1 t hd a in simp_all)
  show ?thesis
    using t a x z m1 i del
    by (simp add: HASH_DELETE_HH_def run_simps m1_def [symmetric] tvalid_set_bucket)
qed

lemma unselect_run:
  assumes t: "tvalid d t" "i < length (buckets (tbl_at d t))" "tail (tbl_at d t) \<noteq> Some e"
    and i: "i = unat (HASH_TO_BKT hv (num_buckets (tbl_at d t)))"
    and hd: "hh_head (buckets (tbl_at d t) ! i) \<noteq> Some e"
    and e: "valid d e" and x: "valid d x" "tbl (hh_at d x) = Some t" "x \<noteq> e"
    and z: "valid d z" "app_next (hh_at d z) = None" "z \<noteq> e"
  shows "seq (HASH_ROLLBACK_BKT (Some x) (Some e) (set_tbl t (\<lambda>T. T\<lparr>num_items := num_items T + 1\<rparr>)
       (set_hh e (\<lambda>h. h\<lparr>hh_next := p, hh_prev := None\<rparr>) (behind_mem t z e hv d)))) (\<lambda>d.
     seq (HASH_DELETE_HH (Some x) (Some e) d) (\<lambda>(dst, d).
     seq (upd_hh (Some e) (\<lambda>h. h\<lparr>tbl := None\<rparr>) d) (K dst))) =
     K (Some x) (set_hh e (failed_handle e hv (Some z)) d)"
proof -
  define m2 where "m2 = set_tbl t (\<lambda>T. T\<lparr>num_items := num_items T + 1\<rparr>)
       (set_hh e (\<lambda>h. h\<lparr>hh_next := p, hh_prev := None\<rparr>) (behind_mem t z e hv d))"
  define m3 where "m3 = set_hh e (\<lambda>h. h\<lparr>hh_next := None, hh_prev := None\<rparr>)
      (set_bucket t i (\<lambda>b. b\<lparr>bkt_count := bkt_count b + 1\<rparr>) m2)"
  define m4 where "m4 = set_tbl t (\<lambda>T. T\<lparr>num_items := num_items T - 1\<rparr>)
      (set_bucket t i (\<lambda>b. b\<lparr>bkt_count := bkt_count b - 1\<rparr>) (set_hh z (\<lambda>h. h\<lparr>app_next := None\<rparr>) m3))"
  have T2: "tvalid m2 t" "tbl_at m2 t = (tbl_at d t)\<lparr>num_items := num_items (tbl_at d t) + 1\<rparr>"
    by (simp_all add: m2_def behind_mem_def set_rules)
  have v2: "valid m2 e" "valid m2 x" "valid m2 z" using e x z
    by (simp_all add: m2_def behind_mem_def set_rules)
  have h2: "hh_at m2 e = (new_handle e hv (Some t) (Some z) (hh_at d e))\<lparr>hh_next := p, hh_prev := None\<rparr>"
    "tbl (hh_at m2 x) = Some t"
    using e x z by (auto simp: m2_def behind_mem_def set_rules)
  have st1: "HASH_ROLLBACK_BKT (Some x) (Some e) m2 = Ok m3"
    unfolding m3_def by (rule HASH_ROLLBACK_BKT_run) (use v2 T2 h2 t i in \<open>simp_all add: new_handle_def\<close>)
  have st2: "HASH_DELETE_HH (Some x) (Some e) m3 = Ok (Some x, m4)"
    unfolding m4_def
    by (rule HASH_DELETE_HH_stale)
       (use v2 T2 h2 t i hd x z in \<open>simp_all add: m3_def set_rules bucket_rules new_handle_def\<close>)
  have v4: "valid m4 e" using v2 by (simp add: m4_def m3_def set_rules)
  have "set_hh e (\<lambda>h. h\<lparr>tbl := None\<rparr>) m4 = set_hh e (failed_handle e hv (Some z)) d"
  proof -
    have H: "set_tbl t (\<lambda>T. T\<lparr>num_items := num_items T - 1\<rparr>)
      (set_bucket t i (\<lambda>b. b\<lparr>bkt_count := bkt_count b - 1\<rparr>)
      (set_bucket t i (\<lambda>b. b\<lparr>bkt_count := bkt_count b + 1\<rparr>)
      (set_tbl t (\<lambda>T. T\<lparr>num_items := num_items T + 1\<rparr>) d))) = d"
      unfolding set_bucket_def set_tbl_set_tbl
      by (rule set_tbl_id) (use t in \<open>cases "tbl_at d t"; cases "buckets (tbl_at d t) ! i"; simp add: list_update_same_conv\<close>)+
    have Z: "set_hh z (\<lambda>h. h\<lparr>app_next := None\<rparr>) d = d"
      by (rule set_hh_id) (use z in \<open>cases "hh_at d z"; simp\<close>)+
    have fh: "failed_handle e hv (Some z) = (\<lambda>h. h\<lparr>hashv := hv, keyptr := Some e, keylen := 16,
        app_next := None, app_prev := Some z, hh_next := None, hh_prev := None, tbl := None\<rparr>)"
      by (simp add: failed_handle_def new_handle_def fun_eq_iff)
    have "set_hh e (\<lambda>h. h\<lparr>tbl := None\<rparr>) m4 = set_hh e (failed_handle e hv (Some z))
       (set_hh z (\<lambda>h. h\<lparr>app_next := None\<rparr>) d)"
      by (simp add: m4_def m3_def m2_def behind_mem_def set_tbl_set_hh set_bucket_set_hh
         set_hh_commute [OF z(3)] H new_handle_def failed_handle_def fh del: set_tbl_set_tbl)
    then show ?thesis by (simp add: Z)
  qed
  then show ?thesis
    unfolding m2_def [symmetric] using v4 by (simp add: st1 st2 run_simps)
qed

lemma upd_tbl_of_no_exit: "upd_tbl_of p f m \<noteq> Exit c"
  by (cases p) (auto simp: upd_tbl_of_def load_hh_def load_flow_def upd_tbl_def split: option.split)

lemma select_next_nonfatal:
  assumes sel: "selected d t ys" and ys: "ys \<noteq> []" "e \<notin> set ys" and wf: "mem_wf d" and e: "valid d e"
    and new: "key_at d e \<notin> key_at d ` set ys" and src: "src_handle s d e"
  shows "(\<exists>st'. select_elt s e (hd_opt ys, last_opt ys, d) = Ok st' \<and>
      select_elt_nonfatal s e ((hd_opt ys, last_opt ys, d), failed) = Ok (st', failed)) \<or>
    (\<exists>d'. select_elt_nonfatal s e ((hd_opt ys, last_opt ys, d), failed) =
        Ok ((hd_opt ys, last_opt ys, d'), failed @ [e]) \<and> quiet e d d')"
proof -
  define hv where "hv = hash_key (key_at d e)"
  define z where "z = last ys"
  define d1 where "d1 = behind_mem t z e hv d"
  obtain x where x: "hd_opt ys = Some x" "x \<in> set ys" using ys by (cases ys) auto
  have z: "z \<in> set ys" "last_opt ys = Some z" using ys by (auto simp: z_def last_opt_def)
  obtain cs where run: "seq (select_link s e (last_opt ys) d) (\<lambda>d. seq (load_hh (hd_opt ys) d)
      (\<lambda>h. upd_hh (Some e) (\<lambda>h'. h'\<lparr>tbl := tbl h\<rparr>) d)) = Ok d1"
    and ok: "buckets_ok d1 t cs" "app_ok d1 t (ys @ [e])" "keys_ok d1 (ys @ [e])" "in_chains cs = set ys"
      "tail (tbl_at d1 t) = hd_opt ys" "mem_wf d1"
    and tch: "touches (set (ys @ [e])) {t} d d1" and tv: "tvalid d t" and T1: "tbl_at d1 t = tbl_at d t"
    by (rule select_link_next [OF sel ys wf e new src, folded z_def hv_def, folded d1_def], rule that, assumption+)
  define i where "i = unat (HASH_TO_BKT (hashv (hh_at d1 e)) (num_buckets (tbl_at d1 t)))"
  have v1: "valid d1 e" "e \<notin> in_chains cs" "tbl (hh_at d1 e) = Some t" "valid d1 x" "tbl (hh_at d1 x) = Some t"
    "tvalid d1 t"
    using ok x ys by (auto simp: app_ok_def buckets_ok_def)
  have pre: "select_elt s e (hd_opt ys, last_opt ys, d) =
      seq (seq (select_link s e (last_opt ys) d) (\<lambda>d. seq (load_hh (Some x) d)
        (\<lambda>h. upd_hh (Some e) (\<lambda>h'. h'\<lparr>tbl := tbl h\<rparr>) d))) (\<lambda>d.
      seq (load_hh (Some e) d) (\<lambda>dst_hh.
      seq (load_tbl (tbl dst_hh) d) (\<lambda>T.
      seq (HASH_ADD_TO_BKT (tbl dst_hh) (unat (HASH_TO_BKT (hashv dst_hh) (num_buckets T))) (Some e) d) (\<lambda>d.
      seq (upd_tbl_of (Some x) (\<lambda>T. T\<lparr>num_items := num_items T + 1\<rparr>) d) (\<lambda>d. Ok (Some x, Some e, d))))))"
    using x by (simp add: select_elt_def seq_assoc)
  have pre': "select_elt_nonfatal s e ((hd_opt ys, last_opt ys, d), failed) =
      seq (seq (select_link s e (last_opt ys) d) (\<lambda>d. seq (load_hh (Some x) d)
        (\<lambda>h. upd_hh (Some e) (\<lambda>h'. h'\<lparr>tbl := tbl h\<rparr>) d))) (\<lambda>d.
      seq (load_hh (Some e) d) (\<lambda>dst_hh.
      seq (load_tbl (tbl dst_hh) d) (\<lambda>T.
      seq (HASH_ADD_TO_BKT_nonfatal (tbl dst_hh) (unat (HASH_TO_BKT (hashv dst_hh) (num_buckets T))) (Some e) d)
        (\<lambda>(oomed, d).
      seq (upd_tbl_of (Some x) (\<lambda>T. T\<lparr>num_items := num_items T + 1\<rparr>) d) (\<lambda>d.
      if oomed then
        seq (HASH_ROLLBACK_BKT (Some x) (Some e) d) (\<lambda>d.
        seq (HASH_DELETE_HH (Some x) (Some e) d) (\<lambda>(dst, d).
        seq (upd_hh (Some e) (\<lambda>h. h\<lparr>tbl := None\<rparr>) d) (\<lambda>d. Ok ((dst, last_opt ys, d), failed @ [e]))))
      else Ok ((Some x, Some e, d), failed))))))"
    using x by (simp add: select_elt_nonfatal_def seq_assoc)
  have runs: "select_elt s e (hd_opt ys, last_opt ys, d) =
      seq (HASH_ADD_TO_BKT (Some t) i (Some e) d1) (\<lambda>d.
      seq (upd_tbl_of (Some x) (\<lambda>T. T\<lparr>num_items := num_items T + 1\<rparr>) d) (\<lambda>d. Ok (Some x, Some e, d)))"
    "select_elt_nonfatal s e ((hd_opt ys, last_opt ys, d), failed) =
      seq (HASH_ADD_TO_BKT_nonfatal (Some t) i (Some e) d1) (\<lambda>(oomed, d).
      seq (upd_tbl_of (Some x) (\<lambda>T. T\<lparr>num_items := num_items T + 1\<rparr>) d) (\<lambda>d.
      if oomed then
        seq (HASH_ROLLBACK_BKT (Some x) (Some e) d) (\<lambda>d.
        seq (HASH_DELETE_HH (Some x) (Some e) d) (\<lambda>(dst, d).
        seq (upd_hh (Some e) (\<lambda>h. h\<lparr>tbl := None\<rparr>) d) (\<lambda>d. Ok ((dst, last_opt ys, d), failed @ [e]))))
      else Ok ((Some x, Some e, d), failed)))"
    unfolding pre pre' run [unfolded x(1)] using v1 by (simp_all add: run_simps i_def)
  from add_to_bkt_both [OF ok(1,6) v1(1-3) i_def] show ?thesis
  proof (elim disjE exE conjE)
    fix d2 assume d2: "HASH_ADD_TO_BKT (Some t) i (Some e) d1 = Ok d2"
      "HASH_ADD_TO_BKT_nonfatal (Some t) i (Some e) d1 = Ok (False, d2)"
    have "safe (\<lambda>_. True) (\<lambda>_. True) (select_elt s e (hd_opt ys, last_opt ys, d))"
      by (rule safe_mono [OF select_next [OF sel ys wf e new src]]) auto
    then obtain d3 where "upd_tbl_of (Some x) (\<lambda>T. T\<lparr>num_items := num_items T + 1\<rparr>) d2 = Ok d3"
      unfolding runs using d2(1) upd_tbl_of_no_exit
      by (cases "upd_tbl_of (Some x) (\<lambda>T. T\<lparr>num_items := num_items T + 1\<rparr>) d2") auto
    then show ?thesis unfolding runs using d2 by simp
  next
    fix p assume p: "HASH_ADD_TO_BKT_nonfatal (Some t) i (Some e) d1 =
      Ok (True, set_hh e (\<lambda>h. h\<lparr>hh_next := p, hh_prev := None\<rparr>) d1)"
    have h: "tail (tbl_at d t) \<noteq> Some e" "hashv (hh_at d1 e) = hv"
      using ok(3,5) x ys T1 touches_key [OF tch] by (auto simp: keys_ok_def hv_def)
    have b: "i < length (buckets (tbl_at d t))" "hh_head (buckets (tbl_at d t) ! i) \<noteq> Some e"
      using bucket_head [OF ok(1), of "hashv (hh_at d1 e)", folded i_def] v1(2) by (auto simp: T1)
    have i: "i = unat (HASH_TO_BKT hv (num_buckets (tbl_at d t)))" by (simp add: i_def h(2) T1)
    have app: "app_ok d t ys" using selectedD [OF sel] by metis
    then have vd: "valid d x" "tbl (hh_at d x) = Some t" "x \<noteq> e" "valid d z" "app_next (hh_at d z) = None" "z \<noteq> e"
      using x z ys next_in_None_iff [of ys z] by (auto simp: app_ok_def z_def)
    let ?K = "\<lambda>dst d. Ok ((dst, last_opt ys, d), failed @ [e]) :: nonfatal_state outcome"
    have "select_elt_nonfatal s e ((hd_opt ys, last_opt ys, d), failed) =
        ?K (Some x) (set_hh e (failed_handle e hv (Some z)) d)"
      unfolding runs p unselect_run [OF tv b(1) h(1) i b(2) e vd, symmetric, of ?K p] d1_def [symmetric]
      using v1 by (simp add: run_simps set_rules)
    then show ?thesis using quiet_set_hh [OF e] x(1) by auto
  qed
qed


lemma select_first_nonfatal:
  assumes wf: "mem_wf d" and e: "valid d e" and src: "src_handle s d e"
  shows "(\<exists>st'. select_elt s e (None, None, d) = Ok st' \<and>
      select_elt_nonfatal s e ((None, None, d), failed) = Ok (st', failed)) \<or>
    (\<exists>d'. select_elt_nonfatal s e ((None, None, d), failed) = Ok ((None, None, d'), failed @ [e]) \<and> quiet e d d')"
proof -
  define hv where "hv = hash_key (key_at d e)"
  let ?make = "\<lambda>K. seq (upd_hh (Some e) (\<lambda>h. h\<lparr>hashv := hv, keyptr := Some e, keylen := 16\<rparr>) d) (\<lambda>m.
    seq (upd_hh (Some e) (\<lambda>h. h\<lparr>app_next := None, app_prev := None\<rparr>) m) K)"
  let ?add = "\<lambda>d. seq (load_hh (Some e) d) (\<lambda>dst_hh. seq (load_tbl (tbl dst_hh) d) (\<lambda>T.
     seq (HASH_ADD_TO_BKT (tbl dst_hh) (unat (HASH_TO_BKT (hashv dst_hh) (num_buckets T))) (Some e) d) (\<lambda>d.
     seq (upd_tbl_of (Some e) (\<lambda>T. T\<lparr>num_items := num_items T + 1\<rparr>) d) (\<lambda>d. Ok (Some e, Some e, d)))))"
  let ?add' = "\<lambda>d. seq (load_hh (Some e) d) (\<lambda>dst_hh. seq (load_tbl (tbl dst_hh) d) (\<lambda>T.
     seq (HASH_ADD_TO_BKT_nonfatal (tbl dst_hh) (unat (HASH_TO_BKT (hashv dst_hh) (num_buckets T))) (Some e) d)
       (\<lambda>(oomed, d).
     seq (upd_tbl_of (Some e) (\<lambda>T. T\<lparr>num_items := num_items T + 1\<rparr>) d) (\<lambda>d.
     if oomed then
       seq (HASH_ROLLBACK_BKT (Some e) (Some e) d) (\<lambda>d.
       seq (HASH_DELETE_HH (Some e) (Some e) d) (\<lambda>(dst, d).
       seq (upd_hh (Some e) (\<lambda>h. h\<lparr>tbl := None\<rparr>) d) (\<lambda>d. Ok ((dst, None, d), failed @ [e]))))
     else Ok ((Some e, Some e, d), failed)))))"
  have runs: "select_elt s e (None, None, d) = seq (?make (HASH_MAKE_TABLE (Some e))) ?add"
    "select_elt_nonfatal s e ((None, None, d), failed) =
      seq (?make (HASH_MAKE_TABLE_nonfatal (Some e))) (\<lambda>(oomed, d).
        if oomed then Ok ((None, None, d), failed @ [e]) else ?add' d)"
  proof -
    have "select_elt s e (None, None, d) = seq (seq (select_link s e None d) (HASH_MAKE_TABLE (Some e))) ?add"
      by (simp add: select_elt_def seq_assoc)
    moreover have "select_elt_nonfatal s e ((None, None, d), failed) =
        seq (seq (select_link s e None d) (HASH_MAKE_TABLE_nonfatal (Some e))) (\<lambda>(oomed, d).
          if oomed then Ok ((None, None, d), failed @ [e]) else ?add' d)"
      by (cases "seq (select_link s e None d) (HASH_MAKE_TABLE_nonfatal (Some e))")
         (auto simp: select_elt_nonfatal_def seq_assoc [symmetric])
    ultimately show "select_elt s e (None, None, d) = seq (?make (HASH_MAKE_TABLE (Some e))) ?add"
      "select_elt_nonfatal s e ((None, None, d), failed) =
        seq (?make (HASH_MAKE_TABLE_nonfatal (Some e))) (\<lambda>(oomed, d).
          if oomed then Ok ((None, None, d), failed @ [e]) else ?add' d)"
      unfolding hv_def by (simp_all only: select_link_first [OF src])
  qed
  note made = HASH_MAKE_TABLE_nonfatal_run [OF e wf, of hv]
  show ?thesis
  proof (cases "budget d < 2 \<or> max_block d < 512")
    case True
    from made(2) [OF True] obtain m' where
      m': "?make (HASH_MAKE_TABLE_nonfatal (Some e)) = Ok (True, m')" "valid m' e"
        "unchanged_but e d (set_hh e (\<lambda>h. h\<lparr>tbl := None\<rparr>) m')" by blast
    have "quiet e d m'"
      using m'(2,3) e by (simp add: quiet_def unchanged_but_def set_rules)
    then show ?thesis unfolding runs m'(1) by simp
  next
    case False
    define m1 where "m1 = make_mem e hv d"
    note l = make_mem_linked [OF wf e, folded hv_def m1_def]
    have m1: "buckets_ok m1 (fresh d) (replicate 32 [])" "valid m1 e" "tbl (hh_at m1 e) = Some (fresh d)"
      "tvalid m1 (fresh d)"
      using l(1) by (auto simp: linked_def app_ok_def buckets_ok_def)
    have wf1: "mem_wf m1" by (rule touches_mem_wf [OF l(2) wf]) (simp add: m1_def make_mem_def)
    have "e \<notin> in_chains (replicate 32 [])" by (simp add: in_chains_def)
    note both = add_to_bkt_both [OF m1(1) wf1 m1(2) this m1(3) refl]
    moreover have "\<not> expand_fails m1 (fresh d) (unat (HASH_TO_BKT (hashv (hh_at m1 e)) (num_buckets (tbl_at m1 (fresh d)))))"
      using make_mem_linked(4) [OF wf e make_mem_linked(3) [OF wf e], of hv hv e, folded m1_def]
      by (simp add: add_bucket_def)
    ultimately obtain m2 where m2:
      "HASH_ADD_TO_BKT (Some (fresh d)) (unat (HASH_TO_BKT (hashv (hh_at m1 e)) (num_buckets (tbl_at m1 (fresh d))))) (Some e) m1 = Ok m2"
      "HASH_ADD_TO_BKT_nonfatal (Some (fresh d)) (unat (HASH_TO_BKT (hashv (hh_at m1 e)) (num_buckets (tbl_at m1 (fresh d))))) (Some e) m1 = Ok (False, m2)"
      by blast
    have runs': "select_elt s e (None, None, d) =
        seq (upd_tbl_of (Some e) (\<lambda>T. T\<lparr>num_items := num_items T + 1\<rparr>) m2) (\<lambda>d. Ok (Some e, Some e, d))"
      "select_elt_nonfatal s e ((None, None, d), failed) =
        seq (upd_tbl_of (Some e) (\<lambda>T. T\<lparr>num_items := num_items T + 1\<rparr>) m2) (\<lambda>d. Ok ((Some e, Some e, d), failed))"
      unfolding runs made(1) [OF False] HASH_MAKE_TABLE_run [OF e] if_not_P [OF False] m1_def [symmetric]
      using m1 m2 by (simp_all add: run_simps)
    have "safe (\<lambda>_. True) (\<lambda>_. True) (select_elt s e (None, None, d))"
      by (rule safe_mono [OF select_first [OF wf e src]]) auto
    then obtain d3 where "upd_tbl_of (Some e) (\<lambda>T. T\<lparr>num_items := num_items T + 1\<rparr>) m2 = Ok d3"
      unfolding runs' using upd_tbl_of_no_exit
      by (cases "upd_tbl_of (Some e) (\<lambda>T. T\<lparr>num_items := num_items T + 1\<rparr>) m2") auto
    then show ?thesis unfolding runs' by simp
  qed
qed

section \<open>The loops\<close>

text \<open>After \<open>ys\<close> have been selected and \<open>failed\<close> have failed, starting with the heap \<open>d0\<close>.\<close>

definition nonfatal_inv :: "mem \<Rightarrow> addr list \<Rightarrow> addr list \<Rightarrow> nonfatal_state \<Rightarrow> bool" where
  "nonfatal_inv d0 ys failed st \<longleftrightarrow>
     (\<exists>d. st = ((hd_opt ys, last_opt ys, d), failed) \<and> mem_wf d \<and>
       (\<forall>b. valid d b = valid d0 b \<and> stats_of (flow_at d b) = stats_of (flow_at d0 b)) \<and>
       (ys \<noteq> [] \<longrightarrow> (\<exists>t. selected d t ys)))"

lemma select_elt_nonfatal_inv:
  assumes inv: "nonfatal_inv d0 ys failed st" and b: "both_views s d0 A" and e: "e \<in> A" "set ys \<subseteq> A" "e \<notin> set ys"
  shows "\<exists>st'. select_elt_nonfatal s e st = Ok st' \<and>
    (nonfatal_inv d0 (ys @ [e]) failed st' \<and> select_elt s e (fst st) = Ok (fst st') \<or>
     nonfatal_inv d0 ys (failed @ [e]) st')"
proof -
  obtain d where st: "st = ((hd_opt ys, last_opt ys, d), failed)" and wf: "mem_wf d"
    and same: "\<forall>b. valid d b = valid d0 b \<and> stats_of (flow_at d b) = stats_of (flow_at d0 b)"
    and sel: "ys \<noteq> [] \<Longrightarrow> \<exists>t. selected d t ys"
    using inv by (auto simp: nonfatal_inv_def)
  have k: "key_at d b = key_at d0 b" for b using same key_stats_of by metis
  have v: "valid d e" and src: "src_handle s d e" and inj: "inj_on (key_at d0) A"
    using b e(1) same by (auto simp: both_views_def src_handle_def k)
  have "key_at d0 e \<notin> key_at d0 ` set ys" using inj_on_image_mem_iff [OF inj e(1,2)] e(3) by simp
  then have new: "key_at d e \<notin> key_at d ` set ys" by (simp add: k)
  have keeps: "nonfatal_inv d0 ys (failed @ [e]) ((hd_opt ys, last_opt ys, d'), failed @ [e])" if "quiet e d d'" for d'
    using quiet_mem_wf [OF that wf] quiet_facts [OF that] same sel quiet_selected [OF that e(3)]
    by (auto simp: nonfatal_inv_def) blast
  have grows: "nonfatal_inv d0 (ys @ [e]) failed (st', failed)"
    if "select_elt s e (hd_opt ys, last_opt ys, d) = Ok st'" for st'
  proof -
    have "\<exists>d'. st' = (hd_opt (ys @ [e]), Some e, d') \<and> (\<exists>t. selected d' t (ys @ [e])) \<and> mem_wf d' \<and>
        (\<forall>b. valid d' b = valid d b \<and> stats_of (flow_at d' b) = stats_of (flow_at d b))"
    proof (cases "ys = []")
      case True
      then show ?thesis
        using select_first [OF wf v src, of "\<lambda>_. True"] that
        by (auto simp: touches_def last_opt_def)
    next
      case False
      then obtain t where "selected d t ys" using sel by blast
      from select_next [OF this False e(3) wf v new src, of "\<lambda>_. True"] that False show ?thesis
        by (auto simp: touches_def hd_opt_append)
    qed
    then show ?thesis using same by (auto simp: nonfatal_inv_def last_opt_def)
  qed
  have "(\<exists>st'. select_elt s e (hd_opt ys, last_opt ys, d) = Ok st' \<and>
      select_elt_nonfatal s e ((hd_opt ys, last_opt ys, d), failed) = Ok (st', failed)) \<or>
    (\<exists>d'. select_elt_nonfatal s e ((hd_opt ys, last_opt ys, d), failed) =
        Ok ((hd_opt ys, last_opt ys, d'), failed @ [e]) \<and> quiet e d d')"
  proof (cases "ys = []")
    case True
    then show ?thesis using select_first_nonfatal [OF wf v src, of failed] by (simp add: last_opt_def)
  next
    case False
    then obtain t where "selected d t ys" using sel by blast
    from select_next_nonfatal [OF this False e(3) wf v new src] show ?thesis .
  qed
  then show ?thesis unfolding st using keeps grows by auto
qed


text \<open>
  What a loop over the elements \<open>es\<close> does: those that satisfy the condition are selected, in order, or
  fail; when none fails it has done what the loop of the ordinary build does.
\<close>

definition picked ::
  "mem \<Rightarrow> addr list \<Rightarrow> addr list \<Rightarrow> addr list \<Rightarrow> select_state outcome \<Rightarrow> nonfatal_state outcome \<Rightarrow> bool" where
  "picked d0 es ys failed r r' \<longleftrightarrow>
     (\<exists>us vs st'. r' = Ok st' \<and> mset us + mset vs = mset es \<and> nonfatal_inv d0 (ys @ us) (failed @ vs) st' \<and>
       (vs = [] \<longrightarrow> r = Ok (fst st')))"

lemma picked_Nil: "nonfatal_inv d0 ys failed st \<Longrightarrow> picked d0 [] ys failed (Ok (fst st)) (Ok st)"
  unfolding picked_def by (intro exI [of _ "[]"] exI [of _ st]) simp

lemma picked_seq:
  assumes p: "picked d0 es ys failed r r'"
    and k: "\<And>us vs st'. mset us + mset vs = mset es \<Longrightarrow> nonfatal_inv d0 (ys @ us) (failed @ vs) st' \<Longrightarrow>
      picked d0 es' (ys @ us) (failed @ vs) (g (fst st')) (g' st')"
  shows "picked d0 (es @ es') ys failed (seq r g) (seq r' g')"
proof -
  obtain us vs st' where s: "r' = Ok st'" "mset us + mset vs = mset es" "nonfatal_inv d0 (ys @ us) (failed @ vs) st'"
    "vs = [] \<Longrightarrow> r = Ok (fst st')"
    using p unfolding picked_def by blast
  obtain us' vs' st'' where t: "g' st' = Ok st''" "mset us' + mset vs' = mset es'"
    "nonfatal_inv d0 ((ys @ us) @ us') ((failed @ vs) @ vs') st''" "vs' = [] \<Longrightarrow> g (fst st') = Ok (fst st'')"
    using k [OF s(2,3)] unfolding picked_def by blast
  have "mset (us @ us') + mset (vs @ vs') = mset (es @ es')"
    using s(2) t(2) by (simp add: union_ac flip: s(2) t(2))
  then show ?thesis
    unfolding picked_def
    by (intro exI [of _ "us @ us'"] exI [of _ "vs @ vs'"] exI [of _ st'']) (use s t in auto)
qed

lemma picked_elt:
  assumes "nonfatal_inv d0 ys failed st" and "both_views s d0 A" and "e \<in> A" "set ys \<subseteq> A" "e \<notin> set ys"
  shows "picked d0 (if cond e then [e] else []) ys failed
    (if cond e then select_elt s e (fst st) else Ok (fst st)) (if cond e then select_elt_nonfatal s e st else Ok st)"
proof (cases "cond e")
  case True
  obtain st' where "select_elt_nonfatal s e st = Ok st'"
    "nonfatal_inv d0 (ys @ [e]) failed st' \<and> select_elt s e (fst st) = Ok (fst st') \<or>
     nonfatal_inv d0 ys (failed @ [e]) st'"
    using select_elt_nonfatal_inv [OF assms] by blast
  then show ?thesis using True unfolding picked_def
    by (elim disjE conjE)
       (intro exI [of _ "[e]"] exI [of _ "[]"] exI [of _ st'], simp,
        intro exI [of _ "[]"] exI [of _ "[e]"] exI [of _ st'], simp)
next
  case False
  then show ?thesis using picked_Nil [OF assms(1)] by simp
qed

lemma mset_parts: "mset us + mset vs = mset es \<Longrightarrow> set us \<subseteq> set es"
  by (metis le_sup_iff set_mset_mset set_mset_union subset_refl)

lemma select_chain_picked:
  assumes b: "both_views s d0 A" and c: "c = pre @ suf" "distinct c" "set c \<subseteq> A" "length suf \<le> n"
    and links: "\<forall>a \<in> set c. hh_next (hh_at s a) = next_in c a"
    and inv: "nonfatal_inv d0 ys failed st" and ys: "set ys \<subseteq> A" "set ys \<inter> set suf = {}"
  shows "picked d0 (filter cond suf) ys failed (select_chain n cond s (hd_opt suf) (fst st))
    (select_chain_nonfatal n cond s (hd_opt suf) st)"
  using c(1,4) inv ys
proof (induction suf arbitrary: pre n ys failed st)
  case Nil
  then show ?case by (simp add: picked_Nil)
next
  case (Cons e suf)
  obtain n' where n: "n = Suc n'" using Cons.prems by (cases n) auto
  have eA: "e \<in> A" "e \<notin> set ys" using Cons.prems c(3) by auto
  have nx: "hh_next (hh_at s e) = hd_opt suf" and ve: "valid s e"
    using links Cons.prems(1) c(2) b eA(1) by (auto simp: next_in_split both_views_def src_handle_def)
  have "picked d0 ((if cond e then [e] else []) @ filter cond suf) ys failed
    (seq (if cond e then select_elt s e (fst st) else Ok (fst st)) (select_chain n' cond s (hd_opt suf)))
    (seq (if cond e then select_elt_nonfatal s e st else Ok st) (select_chain_nonfatal n' cond s (hd_opt suf)))"
  proof (rule picked_seq [OF picked_elt [OF Cons.prems(3) b eA(1) Cons.prems(4) eA(2)]])
    fix us vs st' assume p: "mset us + mset vs = mset (if cond e then [e] else [])"
      "nonfatal_inv d0 (ys @ us) (failed @ vs) st'"
    have "set us \<subseteq> {e}" using mset_parts [OF p(1)] by (auto split: if_splits)
    then show "picked d0 (filter cond suf) (ys @ us) (failed @ vs) (select_chain n' cond s (hd_opt suf) (fst st'))
        (select_chain_nonfatal n' cond s (hd_opt suf) st')"
      using Cons.prems c(2) eA n p(2) by (intro Cons.IH [where pre = "pre @ [e]"]) auto
  qed
  then show ?case using ve by (simp add: n run_simps nx split: if_splits)
qed

lemma select_buckets_picked:
  assumes ch: "chains_ok s n bs cs" and b: "both_views s d0 A" "in_chains cs \<subseteq> A" and wf: "mem_wf s"
    and "is": "distinct is" "set is \<subseteq> {..<length cs}"
    and inv: "nonfatal_inv d0 ys failed st" and ys: "set ys \<subseteq> A" "\<forall>i \<in> set is. set ys \<inter> set (cs ! i) = {}"
  shows "picked d0 (filter cond (concat (map ((!) cs) is))) ys failed (select_buckets cond s bs is (fst st))
    (select_buckets_nonfatal cond s bs is st)"
  using "is" inv ys
proof (induction "is" arbitrary: ys failed st)
  case Nil
  then show ?case by (simp add: picked_Nil)
next
  case (Cons i js)
  have i: "i < length cs" "i < length bs" and c: "chain_ok s n i (bs ! i) (cs ! i)"
    using ch Cons.prems(2) by (auto simp: chains_ok_def)
  have A: "set (cs ! i) \<subseteq> A" using b(2) nth_mem [OF i(1)] by (auto simp: in_chains_def)
  have "length (cs ! i) \<le> fresh s"
    using c by (intro length_le_fresh [OF wf]) (auto simp: chain_ok_def)
  then have "picked d0 (filter cond (cs ! i)) ys failed (select_chain (fresh s) cond s (hd_opt (cs ! i)) (fst st))
      (select_chain_nonfatal (fresh s) cond s (hd_opt (cs ! i)) st)"
    using c A Cons.prems
    by (intro select_chain_picked [OF b(1), of "cs ! i" "[]"]) (auto simp: chain_ok_def)
  then have "picked d0 (filter cond (cs ! i) @ filter cond (concat (map ((!) cs) js))) ys failed
      (seq (select_chain (fresh s) cond s (hd_opt (cs ! i)) (fst st)) (select_buckets cond s bs js))
      (seq (select_chain_nonfatal (fresh s) cond s (hd_opt (cs ! i)) st) (select_buckets_nonfatal cond s bs js))"
  proof (rule picked_seq)
    fix us vs st' assume p: "mset us + mset vs = mset (filter cond (cs ! i))" "nonfatal_inv d0 (ys @ us) (failed @ vs) st'"
    have "set us \<subseteq> set (cs ! i)" using mset_parts [OF p(1)] by auto
    moreover have "set (cs ! i) \<inter> set (cs ! j) = {}" if "j \<in> set js" for j
      using that Cons.prems(1,2) by (intro chains_disjoint [OF ch i(1)]) auto
    ultimately show "picked d0 (filter cond (concat (map ((!) cs) js))) (ys @ us) (failed @ vs)
        (select_buckets cond s bs js (fst st')) (select_buckets_nonfatal cond s bs js st')"
      using Cons.prems A p(2) by (intro Cons.IH) auto
  qed
  moreover have "hh_head (bs ! i) = hd_opt (cs ! i)" using c by (simp add: chain_ok_def)
  ultimately show ?case using i by (simp add: run_simps)
qed


section \<open>The macro, correct\<close>

lemma mset_parts_filter:
  assumes "mset us + mset vs = mset (filter cond zs)" and "distinct zs"
  shows "distinct us" "distinct vs" "set us \<inter> set vs = {}" "set us \<union> set vs = {x \<in> set zs. cond x}"
proof -
  have p: "mset (us @ vs) = mset (filter cond zs)" using assms(1) by simp
  have "distinct (us @ vs)" using mset_eq_imp_distinct_iff [OF p] assms(2) by simp
  then show "distinct us" "distinct vs" "set us \<inter> set vs = {}" by auto
  show "set us \<union> set vs = {x \<in> set zs. cond x}" using mset_eq_setD [OF p] by auto
qed

lemma HASH_SELECT_nonfatal_run:
  assumes rep: "table_rep s src xs" and wf: "mem_wf s" "mem_wf d"
    and same: "\<forall>x \<in> set xs. valid d x \<and> key_at d x = key_at s x"
  obtains us failed d' where "HASH_SELECT_nonfatal None src cond s d = Ok (hd_opt us, failed, d')"
    "distinct us" "distinct failed" "set us \<inter> set failed = {}" "set us \<union> set failed = {x \<in> set xs. cond x}"
    "nonfatal_inv d us failed ((hd_opt us, last_opt us, d'), failed)"
    "failed = [] \<Longrightarrow> HASH_SELECT None src cond s d = Ok (hd_opt us, d')"
proof (cases xs)
  case Nil
  have "nonfatal_inv d [] [] ((None, None, d), [])" using wf by (simp add: nonfatal_inv_def last_opt_def)
  then show ?thesis
    using rep Nil that [of "[]" "[]" d]
    by (simp add: HASH_SELECT_nonfatal_def HASH_SELECT_def table_rep_def hash_rep_def last_opt_def)
next
  case (Cons x zs)
  obtain t cs where src: "src = Some x" and ok: "table_ok s t xs cs"
    using rep Cons by (auto simp: table_rep_def hash_rep_def)
  define T where "T = tbl_at s t"
  obtain k where k: "k < 32" "num_buckets T = 2 ^ k" "length cs = 2 ^ k"
    and T: "tvalid s t" "app_ok s t xs" "keys_ok s xs"
      "chains_ok s (num_buckets T) (buckets T) cs" "in_chains cs = set xs"
    using ok by (auto simp: table_ok_def T_def)
  have "inj_on (key_at d) (set xs)" using T(3) same by (simp add: keys_ok_def inj_on_def)
  then have b: "both_views s d (set xs)"
    using T(2,3) same by (auto simp: both_views_def src_handle_def app_ok_def keys_ok_def)
  define ws where "ws = concat (map ((!) cs) [0..<length cs])"
  have un: "unat (num_buckets T) = length cs" using k by (simp add: unat_pow2)
  have ws: "set ws = set xs" using T(5) in_chains_concat [of cs] by (simp add: ws_def)
  have "length ws = length xs"
    using chains_total [OF T(4) _ T(5)] T(2) by (simp add: app_ok_def ws_def length_concat comp_def)
  then have dis: "distinct ws"
    using ws T(2) by (intro card_distinct) (simp add: app_ok_def distinct_card)
  have inv: "nonfatal_inv d [] [] ((None, None, d), [])" using wf by (simp add: nonfatal_inv_def last_opt_def)
  have "picked d (filter cond ws) [] [] (select_buckets cond s (buckets T) [0..<length cs] (fst ((None, None, d), [])))
      (select_buckets_nonfatal cond s (buckets T) [0..<length cs] ((None, None, d), []))"
    unfolding ws_def using T(5) select_buckets_picked [OF T(4) b _ wf(1) _ _ inv, of "[0..<length cs]" cond] by fastforce
  then obtain us vs st where p: "select_buckets_nonfatal cond s (buckets T) [0..<length cs] ((None, None, d), []) = Ok st"
    "mset us + mset vs = mset (filter cond ws)" "nonfatal_inv d us vs st"
    "vs = [] \<Longrightarrow> select_buckets cond s (buckets T) [0..<length cs] (None, None, d) = Ok (fst st)"
    unfolding picked_def append_Nil fst_conv by blast
  obtain d' where st: "st = ((hd_opt us, last_opt us, d'), vs)" using p(3) by (auto simp: nonfatal_inv_def)
  have "load_tbl_of src s = Ok T" using T(1,2) Cons by (simp add: src app_ok_def run_simps T_def)
  then have runs: "HASH_SELECT_nonfatal None src cond s d = Ok (hd_opt us, vs, d')"
    "vs = [] \<Longrightarrow> HASH_SELECT None src cond s d = Ok (hd_opt us, d')"
    using p(1,4) by (simp_all add: HASH_SELECT_nonfatal_def HASH_SELECT_def src un st)
  show ?thesis
    using that [OF runs(1) _ _ _ _ p(3) [unfolded st] runs(2)] mset_parts_filter [OF p(2) dis] ws by simp
qed

text \<open>
  The new hash holds exactly the elements that satisfy the condition and have not been given to
  \<open>uthash_nonfatal_oom\<close>: it counts them, and a lookup finds them and nothing else.  When no element
  fails the macro has done what it does in the ordinary build.  The condition on memory of
  \<open>HASH_SELECT_selects\<close> is not needed here.
\<close>

theorem HASH_SELECT_nonfatal_selects:
  assumes "table_rep s src xs" and "mem_wf s" and "mem_wf d"
    and "\<forall>x \<in> set xs. valid d x \<and> key_at d x = key_at s x"
  shows "\<exists>dst failed d'. HASH_SELECT_nonfatal None src cond s d = Ok (dst, failed, d') \<and>
    distinct failed \<and> set failed \<subseteq> {x \<in> set xs. cond x} \<and>
    HASH_COUNT dst d' = Ok (of_nat (card ({x \<in> set xs. cond x} - set failed))) \<and>
    (\<forall>k x. HASH_FIND dst (key_bytes k) d' = Ok (Some x) \<longleftrightarrow>
       x \<in> set xs \<and> cond x \<and> x \<notin> set failed \<and> key_at s x = k) \<and>
    (failed = [] \<longrightarrow> HASH_SELECT None src cond s d = Ok (dst, d'))"
proof -
  obtain us failed d' where run: "HASH_SELECT_nonfatal None src cond s d = Ok (hd_opt us, failed, d')"
    and us: "distinct us" "distinct failed" "set us \<inter> set failed = {}" "set us \<union> set failed = {x \<in> set xs. cond x}"
    and inv: "nonfatal_inv d us failed ((hd_opt us, last_opt us, d'), failed)"
    and ord: "failed = [] \<Longrightarrow> HASH_SELECT None src cond s d = Ok (hd_opt us, d')"
    using HASH_SELECT_nonfatal_run [OF assms, of cond] by blast
  have rest: "{x \<in> set xs. cond x} - set failed = set us" using us(3,4) by blast
  have mem: "x \<in> set xs \<and> cond x \<and> x \<notin> set failed \<longleftrightarrow> x \<in> set us" for x using us(3,4) by blast
  have len: "card ({x \<in> set xs. cond x} - set failed) = length us" using distinct_card [OF us(1)] rest by simp
  have wf: "mem_wf d'" and same: "stats_of (flow_at d' x) = stats_of (flow_at d x)" for x
    using inv by (simp_all add: nonfatal_inv_def)
  then have key: "key_at d' x = key_at d x" for x by (metis key_stats_of)
  have find: "HASH_FIND (hd_opt us) (key_bytes k) d' = Ok (Some x) \<longleftrightarrow> x \<in> set us \<and> key_at s x = k"
    and count: "HASH_COUNT (hd_opt us) d' = Ok (of_nat (length us))" for k x
  proof -
    show "HASH_FIND (hd_opt us) (key_bytes k) d' = Ok (Some x) \<longleftrightarrow> x \<in> set us \<and> key_at s x = k"
    proof (cases "us = []")
      case True
      then show ?thesis by (simp add: HASH_FIND_def)
    next
      case False
      then obtain t where s: "selected d' t us" using inv by (auto simp: nonfatal_inv_def)
      have keys: "key_at d' x = key_at s x" if "x \<in> set us" for x using that mem assms(4) key by metis
      have inj: "inj_on (key_at d') (set us)"
        using ut.rep_inj [OF assms(1)] keys mem by (auto simp: inj_on_def)
      show ?thesis using keys by (auto simp: HASH_FIND_selected [OF s wf] find_Some_inj [OF inj])
    qed
    show "HASH_COUNT (hd_opt us) d' = Ok (of_nat (length us))"
    proof (cases "us = []")
      case True
      then show ?thesis by (simp add: HASH_COUNT_def)
    next
      case False
      then obtain t where s: "selected d' t us" using inv by (auto simp: nonfatal_inv_def)
      show ?thesis
        using s False by (cases us) (auto simp: HASH_COUNT_def run_simps table_ok_def app_ok_def elim!: selectedD)
    qed
  qed
  show ?thesis
    using run us(2,4) ord find count mem len
    by (intro exI [of _ "hd_opt us"] exI [of _ failed] exI [of _ d']) auto
qed

end
