(* ===== verification/Json.thy ===== *)
theory Json
  imports Kafka_Client
begin

text \<open>
  The JSON of the messages.  A JSON value apart from its text, its compact text, and a reader
  of such texts that inverts it.  The text \<open>json_text\<close> of kafka_client.c is the text of a
  JSON object, so a JSON reader recovers what the sniffer put in.
\<close>

section \<open>Values and their text\<close>

text \<open>
  The values of the messages: strings, integers, decimal fractions (sign, integer part, digits
  after the point) and objects.
\<close>

datatype json =
  JString string | JInteger int | JDecimal bool nat "nat list" | JObject "(string \<times> json) list"

definition digit :: "nat \<Rightarrow> char" where
  "digit d = char_of (48 + d)"

definition is_digit :: "char \<Rightarrow> bool" where
  "is_digit c \<longleftrightarrow> 48 \<le> (of_char c :: nat) \<and> (of_char c :: nat) \<le> 57"

definition quoted :: "string \<Rightarrow> string" where
  "quoted s = CHR ''\"'' # s @ [CHR ''\"'']"

fun render :: "json \<Rightarrow> string" and render_members :: "(string \<times> json) list \<Rightarrow> string" where
  "render (JString s) = quoted s"
| "render (JInteger i) = (if i < 0 then ''-'' else '''') @ dec (nat \<bar>i\<bar>)"
| "render (JDecimal neg q ds) = (if neg then ''-'' else '''') @ dec q @ ''.'' @ map digit ds"
| "render (JObject ms) = ''{'' @ render_members ms @ ''}''"
| "render_members [] = []"
| "render_members [(k, v)] = quoted k @ '':'' @ render v"
| "render_members ((k, v) # m # ms) = quoted k @ '':'' @ render v @ '','' @ render_members (m # ms)"

text \<open>
  The values whose text needs no escapes, whose fractions have digits, and whose member names
  are distinct.
\<close>

definition plain :: "string \<Rightarrow> bool" where
  "plain s \<longleftrightarrow> (\<forall>c \<in> set s. c \<noteq> CHR ''\"'' \<and> c \<noteq> CHR 0x5C \<and> 32 \<le> (of_char c :: nat) \<and> (of_char c :: nat) < 128)"

fun wf_json :: "json \<Rightarrow> bool" and wf_members :: "(string \<times> json) list \<Rightarrow> bool" where
  "wf_json (JString s) = plain s"
| "wf_json (JInteger i) = True"
| "wf_json (JDecimal neg q ds) = (ds \<noteq> [] \<and> (\<forall>d \<in> set ds. d < 10))"
| "wf_json (JObject ms) = wf_members ms"
| "wf_members [] = True"
| "wf_members ((k, v) # ms) = (plain k \<and> k \<notin> fst ` set ms \<and> wf_json v \<and> wf_members ms)"

section \<open>A reader\<close>

definition read_string :: "string \<Rightarrow> (string \<times> string) option" where
  "read_string cs = (case dropWhile (\<lambda>c. c \<noteq> CHR ''\"'') cs of [] \<Rightarrow> None
     | _ # rest \<Rightarrow> Some (takeWhile (\<lambda>c. c \<noteq> CHR ''\"'') cs, rest))"

definition read_digits :: "string \<Rightarrow> (string \<times> string) option" where
  "read_digits cs = (if takeWhile is_digit cs = [] then None
     else Some (takeWhile is_digit cs, dropWhile is_digit cs))"

definition read_number :: "string \<Rightarrow> (json \<times> string) option" where
  "read_number s =
     (let (neg, cs) = (case s of c # cs \<Rightarrow> if c = CHR ''-'' then (True, cs) else (False, s) | [] \<Rightarrow> (False, []))
      in case read_digits cs of None \<Rightarrow> None
       | Some (q, rest) \<Rightarrow>
           (case rest of c # cs' \<Rightarrow>
              if c = CHR ''.'' then
                (case read_digits cs' of None \<Rightarrow> None
                 | Some (ds, rest') \<Rightarrow> Some (JDecimal neg (read_dec q) (map (\<lambda>c. of_char c - 48) ds), rest'))
              else Some (JInteger (if neg then - int (read_dec q) else int (read_dec q)), rest)
            | [] \<Rightarrow> Some (JInteger (if neg then - int (read_dec q) else int (read_dec q)), [])))"

text \<open>The fuel is the length of the text.\<close>

fun read_value :: "nat \<Rightarrow> string \<Rightarrow> (json \<times> string) option"
  and read_members :: "nat \<Rightarrow> string \<Rightarrow> ((string \<times> json) list \<times> string) option" where
  "read_value 0 s = None"
| "read_value (Suc n) s =
     (case s of [] \<Rightarrow> None
      | c # cs \<Rightarrow>
          if c = CHR ''\"'' then map_option (apfst JString) (read_string cs)
          else if c = CHR ''{'' then
            (if cs \<noteq> [] \<and> hd cs = CHR ''}'' then Some (JObject [], tl cs)
             else map_option (apfst JObject) (read_members n cs))
          else read_number s)"
| "read_members 0 s = None"
| "read_members (Suc n) s =
     (case s of [] \<Rightarrow> None
      | c # cs \<Rightarrow>
          if c \<noteq> CHR ''\"'' then None
          else (case read_string cs of None \<Rightarrow> None
            | Some (k, r) \<Rightarrow>
                if r = [] \<or> hd r \<noteq> CHR '':'' then None
                else (case read_value n (tl r) of None \<Rightarrow> None
                  | Some (v, r') \<Rightarrow>
                      if r' = [] then None
                      else if hd r' = CHR '','' then
                        (case read_members n (tl r') of None \<Rightarrow> None
                         | Some (ms, r'') \<Rightarrow> Some ((k, v) # ms, r''))
                      else if hd r' = CHR ''}'' then Some ([(k, v)], tl r') else None)))"

definition read_json :: "string \<Rightarrow> json option" where
  "read_json s = (case read_value (length s) s of Some (v, []) \<Rightarrow> Some v | _ \<Rightarrow> None)"

section \<open>The reader inverts the text\<close>

lemma char_range: "char_of ` {48..57 :: nat} = {c. is_digit c}"
proof -
  have "is_digit c \<Longrightarrow> c \<in> char_of ` {48..57 :: nat}" for c
    by (rule image_eqI [of _ _ "of_char c"]) (auto simp: is_digit_def)
  moreover have "is_digit (char_of n)" if "n \<in> {48..57 :: nat}" for n
    using that by (simp add: is_digit_def)
  ultimately show ?thesis by auto
qed

lemma is_digit_digit: "d < 10 \<Longrightarrow> is_digit (digit d)"
  by (simp add: is_digit_def digit_def)

lemma of_char_digit: "d < 10 \<Longrightarrow> of_char (digit d) - 48 = d"
  by (simp add: digit_def)

lemma dec_all_digits: "\<forall>c \<in> set (dec n). is_digit c"
  using dec_digits char_range by auto

lemma dec_ne: "dec n \<noteq> []"
  by (simp add: dec.simps [of n])

text \<open>A text that no digit continues.\<close>

definition stops :: "string \<Rightarrow> bool" where
  "stops rest \<longleftrightarrow> (case rest of [] \<Rightarrow> True | c # _ \<Rightarrow> \<not> is_digit c \<and> c \<noteq> CHR ''.'')"

lemma stops_simps [simp]:
  "stops []" "stops (CHR '','' # cs)" "stops (CHR ''}'' # cs)"
  by (simp_all add: stops_def is_digit_def)

lemma takeWhile_stop: "stops rest \<Longrightarrow> takeWhile is_digit rest = []" "stops rest \<Longrightarrow> dropWhile is_digit rest = rest"
  by (auto simp: stops_def split: list.splits)

lemma read_digits_append:
  "\<forall>c \<in> set ds. is_digit c \<Longrightarrow> ds \<noteq> [] \<Longrightarrow> takeWhile is_digit rest = [] \<Longrightarrow>
     read_digits (ds @ rest) = Some (ds, rest)"
  by (auto simp: read_digits_def takeWhile_eq_Nil_iff dropWhile_append split: if_splits)
     (cases rest; auto)+

lemma read_string_quoted: "plain s \<Longrightarrow> read_string (s @ CHR ''\"'' # rest) = Some (s, rest)"
proof -
  assume "plain s"
  then have "\<forall>c \<in> set s. c \<noteq> CHR ''\"''" by (simp add: plain_def)
  then show ?thesis by (simp add: read_string_def dropWhile_append)
qed

lemma minus_not_digit: "is_digit c \<Longrightarrow> c \<noteq> CHR ''-'' \<and> c \<noteq> CHR ''\"'' \<and> c \<noteq> CHR ''{'' \<and> c \<noteq> CHR ''}'' \<and> c \<noteq> CHR ''.''"
  by (auto simp: is_digit_def)


lemma read_number_integer:
  assumes "stops rest"
  shows "read_number (render (JInteger i) @ rest) = Some (JInteger i, rest)"
proof -
  have r: "read_digits (dec (nat \<bar>i\<bar>) @ rest) = Some (dec (nat \<bar>i\<bar>), rest)"
    using assms by (intro read_digits_append dec_all_digits dec_ne takeWhile_stop)
  obtain c cs where c: "dec (nat \<bar>i\<bar>) = c # cs" using dec_ne by (cases "dec (nat \<bar>i\<bar>)") auto
  then have m: "c \<noteq> CHR ''-''" using dec_all_digits [of "nat \<bar>i\<bar>"] by (simp add: minus_not_digit)
  have v: "read_dec (c # cs) = nat \<bar>i\<bar>" using read_dec_dec [of "nat \<bar>i\<bar>"] by (simp only: c)
  show ?thesis using r m v assms
    by (cases rest) (auto simp: read_number_def c stops_def split: if_splits)
qed

lemma read_number_decimal:
  assumes "stops rest" and "wf_json (JDecimal neg q ds)"
  shows "read_number (render (JDecimal neg q ds) @ rest) = Some (JDecimal neg q ds, rest)"
proof -
  define tail where "tail = CHR ''.'' # map digit ds @ rest"
  have t: "takeWhile is_digit tail = []" by (simp add: tail_def is_digit_def)
  have r: "read_digits (dec q @ tail) = Some (dec q, tail)"
    using t by (intro read_digits_append dec_all_digits dec_ne)
  have d: "read_digits (map digit ds @ rest) = Some (map digit ds, rest)"
    using assms by (intro read_digits_append takeWhile_stop) (auto simp: is_digit_digit)
  have e: "map (\<lambda>c. of_char c - 48) (map digit ds) = ds"
    using assms(2) by (auto simp: of_char_digit intro!: map_idI)
  obtain c cs where c: "dec q = c # cs" using dec_ne by (cases "dec q") auto
  then have m: "c \<noteq> CHR ''-''" using dec_all_digits [of q] by (simp add: minus_not_digit)
  have "render (JDecimal neg q ds) @ rest = (if neg then ''-'' else '''') @ dec q @ tail"
    by (simp add: tail_def)
  then show ?thesis
    using r m d e read_dec_dec [of q]
    by (cases neg) (simp_all add: read_number_def c tail_def)
qed

lemma digits_start: "\<exists>c cs. dec n @ rest = c # cs \<and> c \<noteq> CHR ''\"'' \<and> c \<noteq> CHR ''{''"
  using dec_ne [of n] dec_all_digits [of n] by (cases "dec n") (auto simp: minus_not_digit)

lemma render_ne: "0 < length (render v)"
  using dec_ne by (cases v) (auto simp: quoted_def)

lemma render_members_start:
  assumes "ms \<noteq> []"
  shows "\<exists>cs. render_members ms = CHR ''\"'' # cs"
proof -
  obtain k v ms' where "ms = (k, v) # ms'" using assms by (cases ms) auto
  then show ?thesis by (cases ms') (auto simp: quoted_def)
qed

lemma read_value_number:
  "read_value (Suc n) (render (JInteger i) @ rest) = read_number (render (JInteger i) @ rest)"
  "read_value (Suc n) (render (JDecimal neg q ds) @ rest) = read_number (render (JDecimal neg q ds) @ rest)"
proof -
  obtain c cs where c: "dec (nat \<bar>i\<bar>) @ rest = c # cs" "c \<noteq> CHR ''\"''" "c \<noteq> CHR ''{''"
    using digits_start by blast
  show "read_value (Suc n) (render (JInteger i) @ rest) = read_number (render (JInteger i) @ rest)"
    using c by (cases "i < 0") simp_all
  obtain c cs where c: "dec q @ ''.'' @ map digit ds @ rest = c # cs" "c \<noteq> CHR ''\"''" "c \<noteq> CHR ''{''"
    using digits_start by blast
  then show "read_value (Suc n) (render (JDecimal neg q ds) @ rest) = read_number (render (JDecimal neg q ds) @ rest)"
    by (cases neg) simp_all
qed

lemma read_render:
  "wf_json v \<Longrightarrow> stops rest \<Longrightarrow> length (render v) \<le> n \<Longrightarrow>
     read_value n (render v @ rest) = Some (v, rest)"
  "wf_members ms \<Longrightarrow> ms \<noteq> [] \<Longrightarrow> length (render_members ms) \<le> n \<Longrightarrow>
     read_members n (render_members ms @ CHR ''}'' # rest) = Some (ms, rest)"
proof (induction v and ms arbitrary: rest n and rest n rule: render_render_members.induct)
  case (1 s)
  then obtain n' where "n = Suc n'" by (cases n) (auto simp: quoted_def)
  then show ?case using 1 by (simp add: quoted_def read_string_quoted)
next
  case (2 i)
  then obtain n' where "n = Suc n'" using render_ne [of "JInteger i"] by (cases n) auto
  then show ?case using read_number_integer [OF 2(2)] by (simp only: read_value_number)
next
  case (3 neg q ds)
  then obtain n' where "n = Suc n'" using render_ne [of "JDecimal neg q ds"] by (cases n) auto
  then show ?case using read_number_decimal [OF 3(2,1)] by (simp only: read_value_number)
next
  case (4 ms)
  then obtain n' where n: "n = Suc n'" "length (render_members ms) \<le> n'" by (cases n) auto
  show ?case
  proof (cases "ms = []")
    case True
    then show ?thesis by (simp add: n)
  next
    case False
    then obtain cs where "render_members ms = CHR ''\"'' # cs" using render_members_start by blast
    then show ?thesis using "4.IH" [of n' rest] 4(2) n False by simp
  qed
next
  case 5
  then show ?case by simp
next
  case (6 k v)
  then obtain n' where n: "n = Suc n'" "length (render v) \<le> n'" by (cases n) (auto simp: quoted_def)
  then show ?case using "6.IH" [of "CHR ''}'' # rest" n'] 6(2)
    by (simp add: quoted_def read_string_quoted)
next
  case (7 k v m ms)
  then obtain n' where n: "n = Suc n'" "length (render v) \<le> n'" "length (render_members (m # ms)) \<le> n'"
    by (cases n) (auto simp: quoted_def)
  then show ?case
    using "7.IH"(1) [of "CHR '','' # render_members (m # ms) @ CHR ''}'' # rest" n'] "7.IH"(2) [of n' rest] 7(3)
    by (simp add: quoted_def read_string_quoted)
qed

section \<open>A text determines its value\<close>

text \<open>
  What a writer and a reader of texts promise each other, and what follows: different values
  have different texts.
\<close>

locale text_codec =
  fixes enc :: "'v \<Rightarrow> string" and dcd :: "string \<Rightarrow> 'v option" and ok :: "'v \<Rightarrow> bool"
  assumes dcd_enc: "ok v \<Longrightarrow> dcd (enc v) = Some v"
begin

lemma enc_inject: "ok v \<Longrightarrow> ok w \<Longrightarrow> enc v = enc w \<longleftrightarrow> v = w"
  by (metis dcd_enc option.inject)

lemma dcd_map_enc: "\<forall>v \<in> set vs. ok v \<Longrightarrow> map (\<lambda>v. dcd (enc v)) vs = map Some vs"
  by (simp add: dcd_enc)

end

interpretation json: text_codec render read_json wf_json
  using read_render(1) [where rest = "[]"] by unfold_locales (simp add: read_json_def)

interpretation decimal: text_codec dec "\<lambda>s. Some (read_dec s)" "\<lambda>_. True"
  by unfold_locales (simp add: read_dec_dec)

section \<open>The messages are JSON\<close>

text \<open>The numbers of the conversions \<open>%u\<close> and \<open>%.1f\<close>.\<close>

definition json_u :: "'a::len word \<Rightarrow> json" where
  "json_u w = JInteger (uint w)"

definition json_1f :: "rat \<Rightarrow> json" where
  "json_1f x = (let n = nat (round_half_even (10 * \<bar>x\<bar>)) in JDecimal (x < 0) (n div 10) [n mod 10])"

definition json_of :: "'a flow_stats_scheme \<Rightarrow> json" where
  "json_of f = JObject
    [(''src_ip'', JString (inet_ntop (src_ip (key f)))),
     (''src_port'', json_u (ntohs (src_port (key f)))),
     (''dst_ip'', JString (inet_ntop (dst_ip (key f)))),
     (''dst_port'', json_u (ntohs (dst_port (key f)))),
     (''protocol'', JString (proto_str (protocol (key f)))),
     (''dir'', JString (dir_to_str (direction f))),
     (''packets'', json_u (packet_count f)),
     (''bytes'', json_u (byte_count f)),
     (''min_size'', json_u (min_packet_size f)),
     (''max_size'', json_u (max_packet_size f)),
     (''mean_iat_us'', json_1f (mean_iat f)),
     (''tcp'', JObject
       [(''syn'', json_u (tcp_syn_count f)), (''ack'', json_u (tcp_ack_count f)),
        (''fin'', json_u (tcp_fin_count f)), (''rst'', json_u (tcp_rst_count f))])]"

lemma render_json_u [simp]: "render (json_u w) = fmt_u w"
  by (simp add: json_u_def nat_uint_eq)

lemma render_json_1f [simp]: "render (json_1f x) = fmt_1f x"
  by (simp add: json_1f_def fmt_1f_def Let_def digit_def dec.simps [of "_ mod 10"])

lemma json_text_render: "json_text f = render (json_of f)"
  by (simp add: json_text_def json_of_def quoted_def)

lemma plain_literals [simp]:
  "plain ''''" "plain (c # s) \<longleftrightarrow> c \<noteq> CHR ''\"'' \<and> c \<noteq> CHR 0x5C \<and> 32 \<le> (of_char c :: nat) \<and> (of_char c :: nat) < 128 \<and> plain s"
  "plain (s @ t) \<longleftrightarrow> plain s \<and> plain t"
  by (auto simp: plain_def)

lemma digit_plain: "is_digit c \<Longrightarrow> c \<noteq> CHR ''\"'' \<and> c \<noteq> CHR 0x5C \<and> 32 \<le> (of_char c :: nat) \<and> (of_char c :: nat) < 128"
  by (auto simp: is_digit_def)

lemma plain_dec [simp]: "plain (dec n)"
  using dec_all_digits [of n] digit_plain unfolding plain_def by blast

lemma plain_texts [simp]: "plain (inet_ntop a)" "plain (proto_str p)" "plain (dir_to_str d)"
  by (simp_all add: inet_ntop_def proto_str_def, cases d, simp_all)

lemma wf_json_numbers [simp]: "wf_json (json_u w)" "wf_json (json_1f x)"
  by (simp_all add: json_u_def json_1f_def Let_def)

lemma wf_json_of [simp]: "wf_json (json_of f)"
  by (simp add: json_of_def)

section \<open>Properties\<close>

text \<open>
  C30: every message is well-formed JSON: the text \<open>kafka_client_send_flows\<close> prints for a flow,
  whose accumulated time is a finite double, is read back as the object with the twelve members
  of the documented schema, each holding the value of the flow.
\<close>

theorem json_payload_roundtrip:
  assumes "finite_double (total_iat_usec f)"
  shows "read_json (json_payload f) = Some (json_of f)"
proof -
  have "length (json_text f) < 1024" by (rule length_json_text [OF assms])
  then have "json_payload f = render (json_of f)"
    by (simp add: json_payload_def snprintf_def sizeof_json_payload_def json_text_render)
  then show ?thesis using json.dcd_enc [OF wf_json_of] by simp
qed

theorem json_payload_roundtrip_witness:
  "read_json (json_payload zero_flow) = Some (json_of zero_flow)"
  by (rule json_payload_roundtrip) (simp add: finite_double_def zero_flow_def)

end
