(* ===== verification/Java.thy ===== *)
theory Java
  imports Json
begin

text \<open>
  What the Java modules have in common: the integer types, the exceptions they meet, strings of
  integers, and the part of Jackson the parser of flows calls.  Jackson is not part of the
  repository: it is the record \<open>jackson\<close> of functions, and \<open>jackson_ok\<close> says what its documentation
  promises about the texts the sniffer writes.
\<close>

section \<open>Integers and exceptions\<close>

text \<open>The types \<open>int\<close> and \<open>long\<close>, two's complement; their values are read with \<open>sint\<close>.\<close>

type_synonym jint = "32 word"
type_synonym jlong = "64 word"

text \<open>The widening of an \<open>int\<close> operand of a \<open>long\<close> operation.\<close>

definition widen :: "jint \<Rightarrow> jlong" where
  "widen i = word_of_int (sint i)"

text \<open>The text of an integer in a string concatenation.\<close>

definition int_string :: "'a::len word \<Rightarrow> string" where
  "int_string w = (if sint w < 0 then ''-'' else '''') @ dec (nat \<bar>sint w\<bar>)"

lemma sint_word_of_int_fits:
  "- (2 ^ (LENGTH('a) - 1)) \<le> k \<Longrightarrow> k < 2 ^ (LENGTH('a) - 1) \<Longrightarrow> sint (word_of_int k :: 'a::len word) = k"
  by (simp add: signed_of_int signed_take_bit_int_eq_self)

lemma sint_bounds: "- (2 ^ (LENGTH('a) - 1)) \<le> sint (w :: 'a::len word)" "sint w < 2 ^ (LENGTH('a) - 1)"
  using sint_greater_eq [of w] sint_less [of w] by simp_all

lemma sint_widen [simp]: "sint (widen i) = sint i"
  using sint_bounds [of i] unfolding widen_def by (intro sint_word_of_int_fits) simp_all

text \<open>A sum of \<open>long\<close> values that stays in range.\<close>

lemma sint_plus_fits:
  fixes a b :: "'a::len word"
  assumes "- (2 ^ (LENGTH('a) - 1)) \<le> sint a + sint b" and "sint a + sint b < 2 ^ (LENGTH('a) - 1)"
  shows "sint (a + b) = sint a + sint b"
proof -
  have "a + b = word_of_int (sint a + sint b)" by simp
  then show ?thesis using assms by (simp only: sint_word_of_int_fits)
qed

datatype exn =
  NullPointerException | IllegalArgumentException | JsonProcessingException | NoSuchElementException |
  IndexOutOfBoundsException | RuntimeException

type_synonym 'a jresult = "exn + 'a"

fun attempt :: "'a jresult \<Rightarrow> ('a \<Rightarrow> 'b jresult) \<Rightarrow> 'b jresult" where
  "attempt (Inr x) k = k x"
| "attempt (Inl e) k = Inl e"

text \<open>The use of a reference that may be \<open>null\<close>.\<close>

fun deref :: "'a option \<Rightarrow> 'a jresult" where
  "deref None = Inl NullPointerException"
| "deref (Some x) = Inr x"

lemma attempt_eq_Inr_iff: "attempt r k = Inr y \<longleftrightarrow> (\<exists>x. r = Inr x \<and> k x = Inr y)"
  by (cases r) auto

section \<open>Jackson\<close>

text \<open>
  \<open>mapper.readTree (json)\<close> (which throws on \<open>null\<close> and on malformed text) and the methods \<open>get\<close>,
  \<open>asText\<close>, \<open>asInt\<close>, \<open>asDouble\<close> of a node.
\<close>

record 'n jackson =
  readTree :: "string option \<Rightarrow> 'n jresult"
  get :: "'n \<Rightarrow> string \<Rightarrow> 'n option"
  asText :: "'n \<Rightarrow> string"
  asInt :: "'n \<Rightarrow> jint"
  asDouble :: "'n \<Rightarrow> rat"

text \<open>The number a decimal fraction denotes.\<close>

definition decimal_value :: "bool \<Rightarrow> nat \<Rightarrow> nat list \<Rightarrow> rat" where
  "decimal_value neg q ds =
     (let x = of_nat q + of_nat (foldl (\<lambda>n d. 10 * n + d) 0 ds) / 10 ^ length ds in if neg then - x else x)"

text \<open>
  A node represents a value: strings are kept, integers are coerced to \<open>int\<close> by Java's narrowing,
  fractions are rounded to the nearest \<open>double\<close>, and a member is found under its name.
\<close>

fun represents :: "'n jackson \<Rightarrow> json \<Rightarrow> 'n \<Rightarrow> bool"
  and represents_members :: "'n jackson \<Rightarrow> (string \<times> json) list \<Rightarrow> 'n \<Rightarrow> bool" where
  "represents J (JString s) n = (asText J n = s)"
| "represents J (JInteger i) n = (asInt J n = word_of_int i)"
| "represents J (JDecimal neg q ds) n = (asDouble J n = dbl (decimal_value neg q ds))"
| "represents J (JObject ms) n = represents_members J ms n"
| "represents_members J [] n = True"
| "represents_members J ((k, v) # ms) n =
     ((\<exists>c. get J n k = Some c \<and> represents J v c) \<and> represents_members J ms n)"

text \<open>
  Texts within the limits of the reader (nesting, lengths) and of the number types: the message
  buffer of the sniffer is 1024 bytes.
\<close>

fun moderate :: "json \<Rightarrow> bool" and moderate_members :: "(string \<times> json) list \<Rightarrow> bool" where
  "moderate (JString s) = True"
| "moderate (JInteger i) = (\<bar>i\<bar> < 2 ^ 63)"
| "moderate (JDecimal neg q ds) = (q < 2 ^ 1023 \<and> length ds \<le> 100)"
| "moderate (JObject ms) = moderate_members ms"
| "moderate_members [] = True"
| "moderate_members ((k, v) # ms) = (moderate v \<and> moderate_members ms)"

definition jackson_ok :: "'n jackson \<Rightarrow> bool" where
  "jackson_ok J \<longleftrightarrow> (\<forall>v. wf_json v \<and> moderate v \<and> length (render v) < 1024 \<longrightarrow>
     (\<exists>n. readTree J (Some (render v)) = Inr n \<and> represents J v n))"

section \<open>A mapper with these properties\<close>

text \<open>The reader of the theory Json, its values serving as nodes.\<close>

definition tree_mapper :: "json jackson" where
  "tree_mapper = \<lparr>
     readTree = (\<lambda>s. case s of None \<Rightarrow> Inl IllegalArgumentException
       | Some t \<Rightarrow> (case read_json t of None \<Rightarrow> Inl JsonProcessingException | Some v \<Rightarrow> Inr v)),
     get = (\<lambda>v k. case v of JObject ms \<Rightarrow> map_of ms k | _ \<Rightarrow> None),
     asText = (\<lambda>v. case v of JString s \<Rightarrow> s | _ \<Rightarrow> ''''),
     asInt = (\<lambda>v. case v of JInteger i \<Rightarrow> word_of_int i | _ \<Rightarrow> 0),
     asDouble = (\<lambda>v. case v of JDecimal neg q ds \<Rightarrow> dbl (decimal_value neg q ds) | _ \<Rightarrow> 0)\<rparr>"

lemma tree_mapper_represents:
  "wf_json v \<Longrightarrow> represents tree_mapper v v"
  "wf_members ms \<Longrightarrow> (\<And>k v. (k, v) \<in> set ms \<Longrightarrow> map_of all k = Some v) \<Longrightarrow>
     represents_members tree_mapper ms (JObject all)"
proof (induction v and ms arbitrary: and all rule: wf_json_wf_members.induct)
  case (4 ms)
  have "map_of ms k = Some v" if "(k, v) \<in> set ms" for k v
    using that 4(2)
  proof (induction ms)
    case (Cons m ms)
    then show ?case by (cases m) (auto intro: rev_image_eqI)
  qed simp
  then show ?case using 4 by simp
next
  case (6 k v ms)
  then have "get tree_mapper (JObject all) k = Some v" by (simp add: tree_mapper_def)
  then show ?case using 6 by simp
qed (simp_all add: tree_mapper_def)

lemma tree_mapper_ok: "jackson_ok tree_mapper"
  unfolding jackson_ok_def
proof (intro allI impI)
  fix v
  assume "wf_json v \<and> moderate v \<and> length (render v) < 1024"
  then have "readTree tree_mapper (Some (render v)) = Inr v" "represents tree_mapper v v"
    using json.dcd_enc [of v] tree_mapper_represents(1) [of v] by (simp_all add: tree_mapper_def)
  then show "\<exists>n. readTree tree_mapper (Some (render v)) = Inr n \<and> represents tree_mapper v n" by blast
qed

end
