(* ===== verification/Java_Flow.thy ===== *)
theory Java_Flow
  imports Java
begin

text \<open>
  kafkatch-core: the class \<open>Flow\<close>, the parser of the sniffer's messages (FlowParser.java), and the
  first stage of the stream (App.java), which drops what cannot be parsed.  Names of the C side
  that occur again carry a final J.
\<close>

section \<open>The domain classes\<close>

datatype FlowProtocol = TCP | UDP

datatype FlowDirection = INBOUND | OUTBOUND | LATERAL | UNKNOWN

text \<open>A \<open>LocalDateTime\<close> is the number of milliseconds of its date and time since that of the epoch.\<close>

type_synonym LocalDateTime = int

record FlowJ =
  flow_keyJ :: string
  src_ipJ :: string
  dst_ipJ :: string
  src_portJ :: jint
  dst_portJ :: jint
  protocolJ :: FlowProtocol
  dirJ :: FlowDirection
  packet_countJ :: jint
  byte_countJ :: jint
  min_packet_sizeJ :: jint
  max_packet_sizeJ :: jint
  timestampJ :: LocalDateTime
  mean_iat_usJ :: rat
  tcp_syn_countJ :: jint
  tcp_fin_countJ :: jint
  tcp_rst_countJ :: jint
  tcp_ack_countJ :: jint

fun protocol_name :: "FlowProtocol \<Rightarrow> string" where
  "protocol_name TCP = ''TCP''"
| "protocol_name UDP = ''UDP''"

fun direction_name :: "FlowDirection \<Rightarrow> string" where
  "direction_name INBOUND = ''INBOUND''"
| "direction_name OUTBOUND = ''OUTBOUND''"
| "direction_name LATERAL = ''LATERAL''"
| "direction_name UNKNOWN = ''UNKNOWN''"

text \<open>The method \<open>valueOf\<close> of the two enums.\<close>

definition protocol_valueOf :: "string \<Rightarrow> FlowProtocol jresult" where
  "protocol_valueOf s =
     (if s = ''TCP'' then Inr TCP else if s = ''UDP'' then Inr UDP else Inl IllegalArgumentException)"

definition direction_valueOf :: "string \<Rightarrow> FlowDirection jresult" where
  "direction_valueOf s =
     (if s = ''INBOUND'' then Inr INBOUND else if s = ''OUTBOUND'' then Inr OUTBOUND
      else if s = ''LATERAL'' then Inr LATERAL else if s = ''UNKNOWN'' then Inr UNKNOWN
      else Inl IllegalArgumentException)"

text \<open>The key the constructor of the parser builds.\<close>

definition make_flow_key :: "string \<Rightarrow> string \<Rightarrow> jint \<Rightarrow> jint \<Rightarrow> FlowProtocol \<Rightarrow> string" where
  "make_flow_key = (\<lambda>src_ip dst_ip src_port dst_port protocol.
     src_ip @ '':'' @ int_string src_port @ ''-'' @ dst_ip @ '':'' @ int_string dst_port @ ''-'' @
     protocol_name protocol)"

definition new_Flow ::
  "string \<Rightarrow> string \<Rightarrow> jint \<Rightarrow> jint \<Rightarrow> FlowProtocol \<Rightarrow> FlowDirection \<Rightarrow> jint \<Rightarrow> jint \<Rightarrow> jint \<Rightarrow> jint \<Rightarrow>
   LocalDateTime \<Rightarrow> rat \<Rightarrow> jint \<Rightarrow> jint \<Rightarrow> jint \<Rightarrow> jint \<Rightarrow> FlowJ" where
  "new_Flow = (\<lambda>src_ip dst_ip src_port dst_port protocol dir packet_count byte_count min_packet_size
     max_packet_size timestamp mean_iat_us tcp_syn_count tcp_fin_count tcp_rst_count tcp_ack_count.
   \<lparr>flow_keyJ = make_flow_key src_ip dst_ip src_port dst_port protocol,
    src_ipJ = src_ip, dst_ipJ = dst_ip, src_portJ = src_port, dst_portJ = dst_port,
    protocolJ = protocol, dirJ = dir, packet_countJ = packet_count, byte_countJ = byte_count,
    min_packet_sizeJ = min_packet_size, max_packet_sizeJ = max_packet_size, timestampJ = timestamp,
    mean_iat_usJ = mean_iat_us, tcp_syn_countJ = tcp_syn_count, tcp_fin_countJ = tcp_fin_count,
    tcp_rst_countJ = tcp_rst_count, tcp_ack_countJ = tcp_ack_count\<rparr>)"

section \<open>FlowParser.readJson\<close>

text \<open>
  \<open>zone\<close> is the offset of the system's time zone at an instant.  \<open>node.get (name).as...\<close> fails on a
  missing member.
\<close>

definition text_member :: "'n jackson \<Rightarrow> 'n \<Rightarrow> string \<Rightarrow> string jresult" where
  "text_member J n name = attempt (deref (get J n name)) (\<lambda>c. Inr (asText J c))"

definition int_member :: "'n jackson \<Rightarrow> 'n \<Rightarrow> string \<Rightarrow> jint jresult" where
  "int_member J n name = attempt (deref (get J n name)) (\<lambda>c. Inr (asInt J c))"

definition double_member :: "'n jackson \<Rightarrow> 'n \<Rightarrow> string \<Rightarrow> rat jresult" where
  "double_member J n name = attempt (deref (get J n name)) (\<lambda>c. Inr (asDouble J c))"

definition readJson :: "'n jackson \<Rightarrow> (int \<Rightarrow> int) \<Rightarrow> string option \<Rightarrow> int \<Rightarrow> FlowJ jresult" where
  "readJson J zone json kafka_timestamp =
     attempt (readTree J json) (\<lambda>root.
     attempt (text_member J root ''src_ip'') (\<lambda>src_ip.
     attempt (text_member J root ''dst_ip'') (\<lambda>dst_ip.
     attempt (int_member J root ''src_port'') (\<lambda>src_port.
     attempt (int_member J root ''dst_port'') (\<lambda>dst_port.
     attempt (attempt (text_member J root ''protocol'') protocol_valueOf) (\<lambda>protocol.
     attempt (attempt (text_member J root ''dir'') direction_valueOf) (\<lambda>dir.
     attempt (int_member J root ''packets'') (\<lambda>packets.
     attempt (int_member J root ''bytes'') (\<lambda>bytes.
     attempt (int_member J root ''min_size'') (\<lambda>min_size.
     attempt (int_member J root ''max_size'') (\<lambda>max_size.
     let timestamp = kafka_timestamp + zone kafka_timestamp in
     attempt (double_member J root ''mean_iat_us'') (\<lambda>mean_iat_us.
     attempt (deref (get J root ''tcp'')) (\<lambda>tcp.
     attempt (int_member J tcp ''syn'') (\<lambda>tcp_syn_count.
     attempt (int_member J tcp ''fin'') (\<lambda>tcp_fin_count.
     attempt (int_member J tcp ''rst'') (\<lambda>tcp_rst_count.
     attempt (int_member J tcp ''ack'') (\<lambda>tcp_ack_count.
     Inr (new_Flow src_ip dst_ip src_port dst_port protocol dir packets bytes min_size max_size
            timestamp mean_iat_us tcp_syn_count tcp_fin_count tcp_rst_count tcp_ack_count))))))))))))))))))"

text \<open>
  \<open>mapValues\<close> and \<open>filter\<close> of App.java: a message that cannot be parsed is dropped; \<open>clock\<close> is the
  result of \<open>System.currentTimeMillis\<close> at each message.
\<close>

definition parse_stage :: "'n jackson \<Rightarrow> (int \<Rightarrow> int) \<Rightarrow> string option \<Rightarrow> int \<Rightarrow> FlowJ option" where
  "parse_stage J zone value clock = (case readJson J zone value clock of Inl e \<Rightarrow> None | Inr flow \<Rightarrow> Some flow)"

definition parsed_flows :: "'n jackson \<Rightarrow> (int \<Rightarrow> int) \<Rightarrow> (string option \<times> int) list \<Rightarrow> FlowJ list" where
  "parsed_flows J zone msgs = List.map_filter (\<lambda>(value, clock). parse_stage J zone value clock) msgs"

section \<open>What arrives of a flow of the sniffer\<close>

fun direction_of :: "flow_direction_t \<Rightarrow> FlowDirection" where
  "direction_of DIR_OUTBOUND = OUTBOUND"
| "direction_of DIR_INBOUND = INBOUND"
| "direction_of DIR_LATERAL = LATERAL"
| "direction_of DIR_UNKNOWN = UNKNOWN"

definition protocol_of :: "u8 \<Rightarrow> FlowProtocol" where
  "protocol_of p = (if p = IPPROTO_TCP then TCP else UDP)"

definition tcp_or_udp :: "u8 \<Rightarrow> bool" where
  "tcp_or_udp p \<longleftrightarrow> p = IPPROTO_TCP \<or> p = IPPROTO_UDP"

text \<open>A number as \<open>%.1f\<close> prints it: the nearest multiple of one tenth.\<close>

definition tenths :: "rat \<Rightarrow> rat" where
  "tenths x = (if x < 0 then - 1 else 1) * of_int (round_half_even (10 * \<bar>x\<bar>)) / 10"

definition flow_received :: "LocalDateTime \<Rightarrow> 'a flow_stats_scheme \<Rightarrow> FlowJ" where
  "flow_received ts f =
     new_Flow (inet_ntop (src_ip (key f))) (inet_ntop (dst_ip (key f)))
       (ucast (ntohs (src_port (key f)))) (ucast (ntohs (dst_port (key f))))
       (protocol_of (protocol (key f))) (direction_of (direction f))
       (packet_count f) (byte_count f) (ucast (min_packet_size f)) (ucast (max_packet_size f))
       ts (dbl (tenths (mean_iat f)))
       (tcp_syn_count f) (tcp_fin_count f) (tcp_rst_count f) (tcp_ack_count f)"

lemma member_values:
  "(\<exists>c. get J n k = Some c \<and> represents J (JString s) c) \<Longrightarrow> text_member J n k = Inr s"
  "(\<exists>c. get J n k = Some c \<and> represents J (JInteger i) c) \<Longrightarrow> int_member J n k = Inr (word_of_int i)"
  "(\<exists>c. get J n k = Some c \<and> represents J (JDecimal neg q ds) c) \<Longrightarrow>
     double_member J n k = Inr (dbl (decimal_value neg q ds))"
  by (auto simp: text_member_def int_member_def double_member_def)

lemma direction_valueOf_str: "direction_valueOf (dir_to_str d) = Inr (direction_of d)"
  by (cases d) (simp_all add: direction_valueOf_def)

lemma IPPROTO_distinct: "IPPROTO_TCP \<noteq> IPPROTO_UDP"
  by (simp add: IPPROTO_TCP_def IPPROTO_UDP_def)

lemma protocol_valueOf_str:
  "protocol_valueOf (proto_str p) = (if tcp_or_udp p then Inr (protocol_of p) else Inl IllegalArgumentException)"
  using IPPROTO_distinct by (auto simp: protocol_valueOf_def proto_str_def protocol_of_def tcp_or_udp_def)

lemma round_half_even_nonneg: "0 \<le> x \<Longrightarrow> 0 \<le> round_half_even x"
proof (rule ccontr)
  assume x: "0 \<le> x" and "\<not> 0 \<le> round_half_even x"
  then have "(of_int (round_half_even x) :: rat) \<le> of_int (-1)" by (simp only: of_int_le_iff)
  then show False using x round_half_even_error [of x] by simp
qed

lemma json_1f_value:
  "\<exists>neg q d. json_1f x = JDecimal neg q [d] \<and> decimal_value neg q [d] = tenths x \<and>
     int q \<le> round_half_even (10 * \<bar>x\<bar>)"
proof -
  define n where "n = nat (round_half_even (10 * \<bar>x\<bar>))"
  have n: "(of_nat n :: rat) = of_int (round_half_even (10 * \<bar>x\<bar>))"
    by (simp add: n_def round_half_even_nonneg)
  have "(of_nat (n div 10) + of_nat (n mod 10) / 10 :: rat) = of_nat (10 * (n div 10) + n mod 10) / 10"
    by (simp only: of_nat_add of_nat_mult add_divide_distrib of_nat_numeral)
  then have v: "(of_nat (n div 10) + of_nat (n mod 10) / 10 :: rat) = of_int (round_half_even (10 * \<bar>x\<bar>)) / 10"
    using n by (simp only: mult_div_mod_eq)
  have "int (n div 10) \<le> round_half_even (10 * \<bar>x\<bar>)"
    using round_half_even_nonneg [of "10 * \<bar>x\<bar>"] by (simp add: n_def)
  then show ?thesis using v by (auto simp: json_1f_def Let_def n_def [symmetric] decimal_value_def tenths_def)
qed

lemma tenths_accurate: "\<bar>tenths x - x\<bar> \<le> 1 / 20"
proof -
  have e: "\<bar>of_int (round_half_even (10 * \<bar>x\<bar>)) - 10 * \<bar>x\<bar>\<bar> \<le> 1 / 2" by (rule round_half_even_error)
  define r :: rat where "r = of_int (round_half_even (10 * \<bar>x\<bar>))"
  have "tenths x = (if x < 0 then - (r / 10) else r / 10)" by (simp add: tenths_def r_def)
  then show ?thesis using e unfolding r_def [symmetric] by (cases "x < 0"; simp only: if_True if_False abs_if [of x]; linarith)
qed

text \<open>Accumulated times far beyond those of any capture, and the values that fit the reader.\<close>

definition iat_moderate :: "'a flow_stats_scheme \<Rightarrow> bool" where
  "iat_moderate f \<longleftrightarrow> \<bar>total_iat_usec f\<bar> \<le> 2 ^ 1000"

lemma iat_moderate_finite: "iat_moderate f \<Longrightarrow> finite_double (total_iat_usec f)"
proof -
  assume "iat_moderate f"
  moreover have "(2::rat) ^ 1000 < 2 ^ 1024" by (rule power_strict_increasing) simp_all
  ultimately show ?thesis by (simp add: iat_moderate_def finite_double_def)
qed

lemma moderate_json_1f:
  assumes "iat_moderate f"
  shows "moderate (json_1f (mean_iat f))"
proof -
  define x where "x = mean_iat f"
  obtain neg q d where j: "json_1f x = JDecimal neg q [d]" "int q \<le> round_half_even (10 * \<bar>x\<bar>)"
    using json_1f_value by blast
  have "\<bar>x\<bar> \<le> 2 * 2 ^ 1000"
    using mean_iat_abs_le [of f] assms unfolding x_def iat_moderate_def by linarith
  then have b: "of_int (round_half_even (10 * \<bar>x\<bar>)) \<le> 20 * (2::rat) ^ 1000 + 1"
    using round_half_even_error [of "10 * \<bar>x\<bar>"] by linarith
  have "(of_int (int q) :: rat) \<le> of_int (round_half_even (10 * \<bar>x\<bar>))" using j(2) by (simp only: of_int_le_iff)
  also note b
  also have "20 * (2::rat) ^ 1000 + 1 < 2 ^ 1023" by simp
  finally have "(of_int (int q) :: rat) < of_int (2 ^ 1023)" by simp
  then have "int q < 2 ^ 1023" by (simp only: of_int_less_iff)
  then have "int q < int (2 ^ 1023)" by simp
  then have "q < 2 ^ 1023" by (simp only: of_nat_less_iff)
  then show ?thesis using j(1) by (simp add: x_def)
qed

lemma moderate_json_u: "moderate (json_u (w :: u16))" "moderate (json_u (v :: u32))"
  using unsigned_less [of w, where ?'a = int] unsigned_less [of v, where ?'a = int]
  by (simp_all add: json_u_def)

lemma message_tree:
  assumes "jackson_ok J" and "iat_moderate f"
  shows "\<exists>n. readTree J (Some (json_payload f)) = Inr n \<and> represents J (json_of f) n"
proof -
  have l: "length (json_text f) < 1024" by (rule length_json_text [OF iat_moderate_finite [OF assms(2)]])
  then have p: "json_payload f = render (json_of f)"
    by (simp add: json_payload_def snprintf_def sizeof_json_payload_def json_text_render)
  have "moderate (json_of f)"
    using moderate_json_1f [OF assms(2)] by (simp add: json_of_def moderate_json_u)
  then show ?thesis using assms(1) l wf_json_of [of f] by (simp add: jackson_ok_def p json_text_render)
qed

lemma readJson_message:
  assumes "jackson_ok J" and "iat_moderate f"
  shows "readJson J zone (Some (json_payload f)) t =
    (if tcp_or_udp (protocol (key f)) then Inr (flow_received (t + zone t) f) else Inl IllegalArgumentException)"
proof -
  obtain n where n: "readTree J (Some (json_payload f)) = Inr n" "represents J (json_of f) n"
    using message_tree [OF assms] by blast
  obtain neg q d where v: "json_1f (mean_iat f) = JDecimal neg q [d]"
    "decimal_value neg q [d] = tenths (mean_iat f)"
    using json_1f_value by blast
  obtain tcp where tcp: "get J n ''tcp'' = Some tcp"
    "represents_members J [(''syn'', json_u (tcp_syn_count f)), (''ack'', json_u (tcp_ack_count f)),
        (''fin'', json_u (tcp_fin_count f)), (''rst'', json_u (tcp_rst_count f))] tcp"
    using n(2) by (auto simp: json_of_def)
  have texts: "text_member J n ''src_ip'' = Inr (inet_ntop (src_ip (key f)))"
    "text_member J n ''dst_ip'' = Inr (inet_ntop (dst_ip (key f)))"
    "text_member J n ''protocol'' = Inr (proto_str (protocol (key f)))"
    "text_member J n ''dir'' = Inr (dir_to_str (direction f))"
    using n(2) by (auto simp: json_of_def intro!: member_values(1))
  have ints: "int_member J n ''src_port'' = Inr (ucast (ntohs (src_port (key f))))"
    "int_member J n ''dst_port'' = Inr (ucast (ntohs (dst_port (key f))))"
    "int_member J n ''packets'' = Inr (packet_count f)" "int_member J n ''bytes'' = Inr (byte_count f)"
    "int_member J n ''min_size'' = Inr (ucast (min_packet_size f))"
    "int_member J n ''max_size'' = Inr (ucast (max_packet_size f))"
    using n(2) by (auto simp: json_of_def json_u_def int_member_def)
  have double: "double_member J n ''mean_iat_us'' = Inr (dbl (tenths (mean_iat f)))"
    using n(2) v by (auto simp: json_of_def double_member_def)
  have flags: "int_member J tcp ''syn'' = Inr (tcp_syn_count f)" "int_member J tcp ''fin'' = Inr (tcp_fin_count f)"
    "int_member J tcp ''rst'' = Inr (tcp_rst_count f)" "int_member J tcp ''ack'' = Inr (tcp_ack_count f)"
    using tcp(2) by (auto simp: json_u_def int_member_def)
  show ?thesis
    by (simp add: readJson_def n(1) texts ints double tcp(1) flags protocol_valueOf_str direction_valueOf_str
        flow_received_def Let_def)
qed

section \<open>The integers that arrive\<close>

lemma sint_of_u32: "sint (w :: u32) = (if uint w < 2 ^ 31 then uint w else uint w - 2 ^ 32)"
proof (cases "uint w < 2 ^ 31")
  case True
  then have "sint (word_of_int (uint w) :: u32) = uint w"
    by (intro sint_word_of_int_fits) (simp_all add: order_trans [OF _ uint_ge_0])
  then show ?thesis using True by simp
next
  case False
  have "uint w < 2 ^ 32" using unsigned_less [of w, where ?'a = int] by simp
  then have "sint (word_of_int (uint w - 2 ^ 32) :: u32) = uint w - 2 ^ 32"
    using False by (intro sint_word_of_int_fits) simp_all
  moreover have "(word_of_int (uint w - 2 ^ 32) :: u32) = w"
    using \<open>uint w < 2 ^ 32\<close>
    by (simp only: word_uint_eq_iff uint_word_of_int) (simp add: mod_diff_eq [symmetric])
  ultimately show ?thesis using False by (simp only: if_False)
qed

lemma sint_ucast_u16: "sint (ucast (w :: u16) :: jint) = uint w"
proof -
  have "uint w < 2 ^ 16" using unsigned_less [of w, where ?'a = int] by simp
  moreover have "- (2 ^ 31) \<le> uint w" by (rule order_trans [of _ 0]) simp_all
  ultimately have "sint (word_of_int (uint w) :: jint) = uint w" by (intro sint_word_of_int_fits) simp_all
  then show ?thesis by simp
qed

lemma flow_received_members [simp]:
  "src_ipJ (flow_received ts f) = inet_ntop (src_ip (key f))"
  "dst_ipJ (flow_received ts f) = inet_ntop (dst_ip (key f))"
  "src_portJ (flow_received ts f) = ucast (ntohs (src_port (key f)))"
  "dst_portJ (flow_received ts f) = ucast (ntohs (dst_port (key f)))"
  "protocolJ (flow_received ts f) = protocol_of (protocol (key f))"
  "dirJ (flow_received ts f) = direction_of (direction f)"
  "packet_countJ (flow_received ts f) = packet_count f" "byte_countJ (flow_received ts f) = byte_count f"
  "tcp_syn_countJ (flow_received ts f) = tcp_syn_count f" "tcp_fin_countJ (flow_received ts f) = tcp_fin_count f"
  "tcp_rst_countJ (flow_received ts f) = tcp_rst_count f" "tcp_ack_countJ (flow_received ts f) = tcp_ack_count f"
  by (simp_all add: flow_received_def new_Flow_def)

section \<open>Texts with separators\<close>

lemma append_sep_inject:
  "c \<notin> set a \<Longrightarrow> c \<notin> set b \<Longrightarrow> a @ c # x = b @ c # y \<longleftrightarrow> a = b \<and> x = y"
  by (induction a arbitrary: b; case_tac b; auto)

lemma dec_eq_iff [simp]: "dec m = dec n \<longleftrightarrow> m = n"
  by (rule decimal.enc_inject) simp_all

lemma dec_no_sep: "\<not> is_digit c \<Longrightarrow> c \<notin> set (dec n)"
  using dec_all_digits by blast

lemma sep_chars: "\<not> is_digit CHR ''.''" "\<not> is_digit CHR '':''" "\<not> is_digit CHR ''-''"
  by (simp_all add: is_digit_def)

lemma inet_ntop_inject [simp]: "inet_ntop a = inet_ntop b \<longleftrightarrow> a = b"
proof
  assume "inet_ntop a = inet_ntop b"
  then have "bytes32 a = bytes32 b"
    using dec_no_sep [OF sep_chars(1)]
    by (simp add: inet_ntop_def append_sep_inject bytes32_def word_unat_eq_iff)
  then show "a = b" by simp
qed simp

lemma inet_ntop_chars: "CHR '':'' \<notin> set (inet_ntop a)" "CHR ''-'' \<notin> set (inet_ntop a)"
  using dec_no_sep [OF sep_chars(2)] dec_no_sep [OF sep_chars(3)] by (auto simp: inet_ntop_def)

lemma int_string_port: "int_string (ucast (w :: u16) :: jint) = dec (unat w)"
  by (simp add: int_string_def sint_ucast_u16 nat_uint_eq del: sint_up_scast)

lemma ntohs_inject [simp]: "ntohs v = ntohs w \<longleftrightarrow> v = w"
  by (metis ntohs_involution)

lemma make_flow_key_inject:
  "make_flow_key (inet_ntop a) (inet_ntop b) (ucast (v :: u16)) (ucast (w :: u16)) p =
   make_flow_key (inet_ntop a') (inet_ntop b') (ucast (v' :: u16)) (ucast (w' :: u16)) p' \<longleftrightarrow>
     a = a' \<and> b = b' \<and> v = v' \<and> w = w' \<and> p = p'"
  using dec_no_sep [OF sep_chars(2)] dec_no_sep [OF sep_chars(3)] inet_ntop_chars
  by (cases p; cases p') (auto simp: make_flow_key_def int_string_port append_sep_inject word_unat_eq_iff)

section \<open>Properties\<close>

definition example_tcp_flow :: flow_t where
  "example_tcp_flow = zero_flow\<lparr>key := zero_key\<lparr>protocol := IPPROTO_TCP\<rparr>, direction := DIR_INBOUND,
     byte_count := 0xC0000000\<rparr>"

lemma example_tcp_flow_ok: "iat_moderate example_tcp_flow" "tcp_or_udp (protocol (key example_tcp_flow))"
  by (simp_all add: example_tcp_flow_def zero_flow_def iat_moderate_def tcp_or_udp_def)

text \<open>
  C13: a message of the sniffer about a TCP or UDP flow parses in the stream processor: addresses,
  direction and protocol are those of the flow, the ports are in host order, the mean arrival time is
  the one printed, and the counters arrive as the same 32 bits.  The message of any other protocol is
  refused with an exception.  Jackson is assumed to read JSON as documented.
\<close>

theorem message_parsed:
  assumes "jackson_ok J" and "iat_moderate f"
  shows "readJson J zone (Some (json_payload f)) t =
    (if tcp_or_udp (protocol (key f))
     then Inr (new_Flow (inet_ntop (src_ip (key f))) (inet_ntop (dst_ip (key f)))
       (ucast (ntohs (src_port (key f)))) (ucast (ntohs (dst_port (key f))))
       (if protocol (key f) = IPPROTO_TCP then TCP else UDP) (direction_of (direction f))
       (packet_count f) (byte_count f) (ucast (min_packet_size f)) (ucast (max_packet_size f))
       (t + zone t) (dbl (tenths (mean_iat f)))
       (tcp_syn_count f) (tcp_fin_count f) (tcp_rst_count f) (tcp_ack_count f))
     else Inl IllegalArgumentException)"
  using readJson_message [OF assms] by (simp add: flow_received_def protocol_of_def)

theorem message_parsed_witness:
  "\<exists>fl. readJson tree_mapper (\<lambda>_. 0) (Some (json_payload example_tcp_flow)) 7 = Inr fl \<and>
     protocolJ fl = TCP \<and> dirJ fl = INBOUND \<and> timestampJ fl = 7 \<and> byte_countJ fl = 0xC0000000"
  using message_parsed [OF tree_mapper_ok example_tcp_flow_ok(1), of "\<lambda>_. 0" 7] example_tcp_flow_ok(2)
  by (simp add: new_Flow_def example_tcp_flow_def)

text \<open>
  C31: the counters of the sniffer are unsigned, those of the class \<open>Flow\<close> signed: a parsed message
  shows the byte count of the flow below \<open>2\<^sup>3\<^sup>1\<close> and a negative number from there on, and so for the
  packet count.  Ports and packet sizes, of 16 bits, always arrive as they are.
\<close>

theorem counters_read_as_signed:
  assumes "jackson_ok J" and "iat_moderate f"
    and "readJson J zone (Some (json_payload f)) t = Inr fl"
  shows "sint (byte_countJ fl) = (if uint (byte_count f) < 2 ^ 31 then uint (byte_count f) else uint (byte_count f) - 2 ^ 32) \<and>
    sint (packet_countJ fl) = (if uint (packet_count f) < 2 ^ 31 then uint (packet_count f) else uint (packet_count f) - 2 ^ 32) \<and>
    sint (src_portJ fl) = uint (ntohs (src_port (key f))) \<and> sint (dst_portJ fl) = uint (ntohs (dst_port (key f))) \<and>
    sint (min_packet_sizeJ fl) = uint (min_packet_size f) \<and> sint (max_packet_sizeJ fl) = uint (max_packet_size f)"
proof -
  have "fl = flow_received (t + zone t) f"
    using assms(3) readJson_message [OF assms(1,2)] by (auto split: if_splits)
  moreover have "min_packet_sizeJ (flow_received (t + zone t) f) = ucast (min_packet_size f)"
    "max_packet_sizeJ (flow_received (t + zone t) f) = ucast (max_packet_size f)"
    by (simp_all add: flow_received_def new_Flow_def)
  ultimately show ?thesis
    using sint_of_u32 [of "byte_count f"] sint_of_u32 [of "packet_count f"]
    by (simp only: sint_ucast_u16 flow_received_members simp_thms)
qed

theorem counters_read_as_signed_witness:
  "\<exists>fl. readJson tree_mapper (\<lambda>_. 0) (Some (json_payload example_tcp_flow)) 7 = Inr fl \<and>
     uint (byte_count example_tcp_flow) = 3221225472 \<and> sint (byte_countJ fl) = - 1073741824"
proof -
  define fl where "fl = flow_received 7 example_tcp_flow"
  have r: "readJson tree_mapper (\<lambda>_. 0) (Some (json_payload example_tcp_flow)) 7 = Inr fl"
    using readJson_message [OF tree_mapper_ok example_tcp_flow_ok(1), of "\<lambda>_. 0" 7] example_tcp_flow_ok(2)
    by (simp add: fl_def)
  have "uint (byte_count example_tcp_flow) = 3221225472" by (simp add: example_tcp_flow_def)
  then show ?thesis
    using counters_read_as_signed [OF tree_mapper_ok example_tcp_flow_ok(1) r] r by simp
qed

text \<open>
  The \<open>flow_key\<close> the parser builds tells flows apart: of two flows of TCP or UDP it is the same
  exactly when addresses, ports and protocol are.
\<close>

theorem flow_key_identifies:
  "flow_keyJ (flow_received t f) = flow_keyJ (flow_received u g) \<longleftrightarrow>
     src_ip (key f) = src_ip (key g) \<and> dst_ip (key f) = dst_ip (key g) \<and>
     src_port (key f) = src_port (key g) \<and> dst_port (key f) = dst_port (key g) \<and>
     protocol_of (protocol (key f)) = protocol_of (protocol (key g))"
  by (simp add: flow_received_def new_Flow_def make_flow_key_inject)

end
