(* ===== verification/Java_Aggregate.thy ===== *)
theory Java_Aggregate
  imports Java_Flow
begin

text \<open>
  kafkatch-core: the class \<open>AggregatedFlow\<close> and the aggregation of one time window (App.java).  The
  assignment of records to windows and their storage are Kafka Streams'; the serde of the store, which
  is built on Jackson, is a parameter.
\<close>

section \<open>AggregatedFlow\<close>

record AggregatedFlow =
  timestamp_start :: "LocalDateTime option"
  timestamp_end :: "LocalDateTime option"
  bytes_inbound :: jlong
  bytes_outbound :: jlong
  packets_inbound :: jlong
  packets_outbound :: jlong
  unique_flow_count :: jint
  flowKeys :: "string set"
  tcp_syn_total :: jlong
  tcp_ack_total :: jlong
  tcp_fin_total :: jlong
  tcp_rst_total :: jlong

definition new_AggregatedFlow :: "LocalDateTime \<Rightarrow> AggregatedFlow" where
  "new_AggregatedFlow start =
     \<lparr>timestamp_start = Some start, timestamp_end = None, bytes_inbound = 0, bytes_outbound = 0,
      packets_inbound = 0, packets_outbound = 0, unique_flow_count = 0, flowKeys = {},
      tcp_syn_total = 0, tcp_ack_total = 0, tcp_fin_total = 0, tcp_rst_total = 0\<rparr>"

text \<open>The string \<open>key\<close> of \<open>addFlow\<close>.\<close>

definition unique_key :: "FlowJ \<Rightarrow> string" where
  "unique_key flow =
     src_ipJ flow @ int_string (src_portJ flow) @ dst_ipJ flow @ int_string (dst_portJ flow) @
     protocol_name (protocolJ flow)"

text \<open>\<open>now\<close> is the result of \<open>LocalDateTime.now\<close>.\<close>

definition addFlow :: "FlowJ \<Rightarrow> LocalDateTime \<Rightarrow> AggregatedFlow \<Rightarrow> AggregatedFlow" where
  "addFlow flow now a =
     (let a = (if dirJ flow = INBOUND then
                 a\<lparr>bytes_inbound := bytes_inbound a + widen (byte_countJ flow),
                   packets_inbound := packets_inbound a + widen (packet_countJ flow)\<rparr>
               else if dirJ flow = OUTBOUND then
                 a\<lparr>bytes_outbound := bytes_outbound a + widen (byte_countJ flow),
                   packets_outbound := packets_outbound a + widen (packet_countJ flow)\<rparr>
               else a);
          a = a\<lparr>tcp_syn_total := tcp_syn_total a + widen (tcp_syn_countJ flow),
                tcp_ack_total := tcp_ack_total a + widen (tcp_ack_countJ flow),
                tcp_fin_total := tcp_fin_total a + widen (tcp_fin_countJ flow),
                tcp_rst_total := tcp_rst_total a + widen (tcp_rst_countJ flow)\<rparr>;
          k = unique_key flow;
          a = (if k \<notin> flowKeys a
               then a\<lparr>flowKeys := insert k (flowKeys a), unique_flow_count := unique_flow_count a + 1\<rparr>
               else a)
      in a\<lparr>timestamp_end := Some now\<rparr>)"

definition getAveragePacketSize :: "AggregatedFlow \<Rightarrow> rat" where
  "getAveragePacketSize a =
     (let totalPackets = packets_inbound a + packets_outbound a in
      if totalPackets = 0 then 0
      else dbl (dbl (of_int (sint (bytes_inbound a + bytes_outbound a))) / dbl (of_int (sint totalPackets))))"

section \<open>The aggregation of a window\<close>

text \<open>
  The serde of the state store: \<open>null\<close> where it fails.  Before each record the stored aggregate is
  deserialised (a new one is made where there is none), afterwards the result is stored.  A record is a
  flow, the clock when it is added and the clock a new aggregate would start with.
\<close>

record 'd agg_serde =
  ser :: "AggregatedFlow \<Rightarrow> 'd option"
  des :: "'d \<Rightarrow> AggregatedFlow option"

definition stored_aggregate :: "'d agg_serde \<Rightarrow> LocalDateTime \<Rightarrow> 'd option \<Rightarrow> AggregatedFlow" where
  "stored_aggregate S start stored =
     (case Option.bind stored (des S) of None \<Rightarrow> new_AggregatedFlow start | Some a \<Rightarrow> a)"

fun aggregator :: "FlowJ option \<Rightarrow> LocalDateTime \<Rightarrow> AggregatedFlow \<Rightarrow> AggregatedFlow" where
  "aggregator None now a = a"
| "aggregator (Some flow) now a = addFlow flow now a"

type_synonym event = "FlowJ \<times> LocalDateTime \<times> LocalDateTime"

definition aggregate_record :: "'d agg_serde \<Rightarrow> event \<Rightarrow> 'd option \<Rightarrow> 'd option" where
  "aggregate_record S ev stored =
     (case ev of (flow, now, start) \<Rightarrow> ser S (aggregator (Some flow) now (stored_aggregate S start stored)))"

definition window_store :: "'d agg_serde \<Rightarrow> event list \<Rightarrow> 'd option" where
  "window_store S evs = fold (aggregate_record S) evs None"

text \<open>The aggregate without a store.\<close>

definition window_aggregate :: "event list \<Rightarrow> AggregatedFlow" where
  "window_aggregate evs =
     fold (\<lambda>(flow, now, _). addFlow flow now) evs (new_AggregatedFlow (case evs of [] \<Rightarrow> 0 | (_, _, start) # _ \<Rightarrow> start))"

abbreviation ev_flow :: "event \<Rightarrow> FlowJ" where
  "ev_flow \<equiv> fst"

section \<open>The deprecated splitter\<close>

text \<open>
  Splitter.java: what a message sends to the inbound and outbound topics and to the topic of the flow
  counts.  A message that does not parse becomes \<open>null\<close>, which is not filtered out.
\<close>

definition split_message ::
  "('m \<Rightarrow> AggregatedFlow option jresult) \<Rightarrow> 'm \<Rightarrow> ((string \<times> jlong) list \<times> (string \<times> jint)) jresult" where
  "split_message fromJson value =
     attempt (deref (case fromJson value of Inl e \<Rightarrow> None | Inr a \<Rightarrow> a)) (\<lambda>a.
     Inr ([(''in'', bytes_inbound a), (''out'', bytes_outbound a)], (''flow'', unique_flow_count a)))"

definition branch_of :: "string \<Rightarrow> (string \<times> jlong) list \<Rightarrow> jlong list" where
  "branch_of prefix records = map snd (filter (\<lambda>(k, v). take (length prefix) k = prefix) records)"

section \<open>Sums of a window\<close>

text \<open>The contribution of a flow to a counter of one direction.\<close>

definition by_dir :: "FlowDirection \<Rightarrow> (FlowJ \<Rightarrow> jint) \<Rightarrow> FlowJ \<Rightarrow> jint" where
  "by_dir d g flow = (if dirJ flow = d then g flow else 0)"

lemma widen_0 [simp]: "widen 0 = 0"
  by (simp add: widen_def)

lemma addFlow_sums [simp]:
  "bytes_inbound (addFlow f now a) = bytes_inbound a + widen (by_dir INBOUND byte_countJ f)"
  "packets_inbound (addFlow f now a) = packets_inbound a + widen (by_dir INBOUND packet_countJ f)"
  "bytes_outbound (addFlow f now a) = bytes_outbound a + widen (by_dir OUTBOUND byte_countJ f)"
  "packets_outbound (addFlow f now a) = packets_outbound a + widen (by_dir OUTBOUND packet_countJ f)"
  "tcp_syn_total (addFlow f now a) = tcp_syn_total a + widen (tcp_syn_countJ f)"
  "tcp_ack_total (addFlow f now a) = tcp_ack_total a + widen (tcp_ack_countJ f)"
  "tcp_fin_total (addFlow f now a) = tcp_fin_total a + widen (tcp_fin_countJ f)"
  "tcp_rst_total (addFlow f now a) = tcp_rst_total a + widen (tcp_rst_countJ f)"
  "flowKeys (addFlow f now a) = insert (unique_key f) (flowKeys a)"
  "unique_flow_count (addFlow f now a) = unique_flow_count a + (if unique_key f \<in> flowKeys a then 0 else 1)"
  "timestamp_start (addFlow f now a) = timestamp_start a"
  "timestamp_end (addFlow f now a) = Some now"
  by (auto simp: addFlow_def Let_def by_dir_def)

text \<open>A sum of widened \<open>int\<close> values does not overflow.\<close>

lemma sum_widen:
  assumes "length fs < 2 ^ 32"
  shows "sint (\<Sum>f\<leftarrow>fs. widen (g f)) = (\<Sum>f\<leftarrow>fs. sint (g f))"
proof -
  have b: "\<bar>\<Sum>f\<leftarrow>fs. sint (g f)\<bar> \<le> int (length fs) * 2 ^ 31"
  proof (induction fs)
    case (Cons f fs)
    then show ?case using sint_bounds [of "g f"] by (simp add: algebra_simps)
  qed simp
  have e: "(\<Sum>f\<leftarrow>fs. widen (g f)) = word_of_int (\<Sum>f\<leftarrow>fs. sint (g f))"
    by (induction fs) (simp_all add: widen_def)
  have "int (length fs) * 2 ^ 31 \<le> (2 ^ 32 - 1) * 2 ^ 31"
    using assms by (intro mult_right_mono) simp_all
  then have "- (2 ^ 63) \<le> (\<Sum>f\<leftarrow>fs. sint (g f))" "(\<Sum>f\<leftarrow>fs. sint (g f)) < 2 ^ 63"
    using b by simp_all
  then show ?thesis unfolding e by (intro sint_word_of_int_fits) simp_all
qed

lemma fold_addFlow:
  fixes evs :: "event list" and a :: AggregatedFlow
  defines "r \<equiv> fold (\<lambda>(flow, now, _). addFlow flow now) evs a"
  shows "bytes_inbound r = bytes_inbound a + (\<Sum>e\<leftarrow>evs. widen (by_dir INBOUND byte_countJ (ev_flow e)))"
    "packets_inbound r = packets_inbound a + (\<Sum>e\<leftarrow>evs. widen (by_dir INBOUND packet_countJ (ev_flow e)))"
    "bytes_outbound r = bytes_outbound a + (\<Sum>e\<leftarrow>evs. widen (by_dir OUTBOUND byte_countJ (ev_flow e)))"
    "packets_outbound r = packets_outbound a + (\<Sum>e\<leftarrow>evs. widen (by_dir OUTBOUND packet_countJ (ev_flow e)))"
    "tcp_syn_total r = tcp_syn_total a + (\<Sum>e\<leftarrow>evs. widen (tcp_syn_countJ (ev_flow e)))"
    "tcp_ack_total r = tcp_ack_total a + (\<Sum>e\<leftarrow>evs. widen (tcp_ack_countJ (ev_flow e)))"
    "tcp_fin_total r = tcp_fin_total a + (\<Sum>e\<leftarrow>evs. widen (tcp_fin_countJ (ev_flow e)))"
    "tcp_rst_total r = tcp_rst_total a + (\<Sum>e\<leftarrow>evs. widen (tcp_rst_countJ (ev_flow e)))"
    "flowKeys r = unique_key ` ev_flow ` set evs \<union> flowKeys a"
    "timestamp_start r = timestamp_start a"
  unfolding r_def by (induction evs arbitrary: a) (auto simp: algebra_simps)

lemma fold_addFlow_unique:
  "unique_flow_count (fold (\<lambda>(flow, now, _). addFlow flow now) evs a) =
     unique_flow_count a + of_nat (card (unique_key ` ev_flow ` set (evs :: event list) - flowKeys a))"
proof (induction evs rule: rev_induct)
  case (snoc e evs)
  obtain f t u where e: "e = (f, t, u)" by (cases e)
  have s: "insert (unique_key f) (unique_key ` ev_flow ` set evs) - flowKeys a =
      (if unique_key f \<in> unique_key ` ev_flow ` set evs \<union> flowKeys a then unique_key ` ev_flow ` set evs - flowKeys a
       else insert (unique_key f) (unique_key ` ev_flow ` set evs - flowKeys a))"
    by auto
  show ?case
    using snoc by (simp add: e fold_addFlow(9) insert_Diff_if) (auto simp: s card_insert_if)
qed simp

lemma sum_by_dir:
  "(\<Sum>f\<leftarrow>fs. sint (by_dir d g (h f))) = (\<Sum>f\<leftarrow>filter (\<lambda>f. dirJ (h f) = d) fs. sint (g (h f)))"
  by (induction fs) (simp_all add: by_dir_def)

section \<open>The store\<close>

text \<open>What the aggregation asks of the serde: it gives back what was stored.\<close>

definition serde_ok :: "'d agg_serde \<Rightarrow> bool" where
  "serde_ok S \<longleftrightarrow> (\<forall>a. finite (flowKeys a) \<longrightarrow> Option.bind (ser S a) (des S) = Some a)"

definition identity_serde :: "AggregatedFlow agg_serde" where
  "identity_serde = \<lparr>ser = Some, des = Some\<rparr>"

lemma identity_serde_ok: "serde_ok identity_serde"
  by (simp add: serde_ok_def identity_serde_def)

lemma window_aggregate_snoc:
  "evs \<noteq> [] \<Longrightarrow> window_aggregate (evs @ [(flow, now, start)]) = addFlow flow now (window_aggregate evs)"
  by (cases evs) (auto simp: window_aggregate_def)

lemma finite_flowKeys: "finite (flowKeys (window_aggregate evs))"
  by (simp add: window_aggregate_def fold_addFlow(9) new_AggregatedFlow_def)

lemma window_store_aggregate:
  assumes "serde_ok S" and "evs \<noteq> []"
  shows "window_store S evs = ser S (window_aggregate evs)"
  using assms(2)
proof (induction evs rule: rev_nonempty_induct)
  case (single ev)
  then show ?case
    by (cases ev) (simp add: window_store_def window_aggregate_def aggregate_record_def stored_aggregate_def)
next
  case (snoc ev evs)
  obtain flow now start where ev: "ev = (flow, now, start)" by (cases ev)
  have "Option.bind (ser S (window_aggregate evs)) (des S) = Some (window_aggregate evs)"
    using assms(1) finite_flowKeys by (simp add: serde_ok_def)
  then show ?case
    using snoc by (simp add: window_store_def ev window_aggregate_snoc aggregate_record_def stored_aggregate_def)
qed

section \<open>Properties\<close>

definition five_tuple :: "FlowJ \<Rightarrow> string \<times> jint \<times> string \<times> jint \<times> FlowProtocol" where
  "five_tuple flow = (src_ipJ flow, src_portJ flow, dst_ipJ flow, dst_portJ flow, protocolJ flow)"

lemma unique_key_five_tuple: "five_tuple f = five_tuple g \<Longrightarrow> unique_key f = unique_key g"
  by (simp add: five_tuple_def unique_key_def)

lemma card_unique_keys: "card (unique_key ` A) \<le> card (five_tuple ` A)" if "finite A"
proof -
  define h where "h = (\<lambda>t. unique_key (SOME f. f \<in> A \<and> five_tuple f = t))"
  have "unique_key f = h (five_tuple f)" if "f \<in> A" for f
    unfolding h_def by (rule unique_key_five_tuple) (metis (mono_tags, lifting) someI_ex that)
  then have "unique_key ` A = h ` five_tuple ` A" by (simp add: image_image)
  then show ?thesis by (simp add: card_image_le that)
qed

lemma sint_of_nat_jint: "n < 2 ^ 31 \<Longrightarrow> sint (of_nat n :: jint) = int n"
proof -
  assume "n < 2 ^ 31"
  then have "sint (word_of_int (int n) :: jint) = int n" by (intro sint_word_of_int_fits) simp_all
  then show ?thesis by simp
qed

text \<open>The aggregate read back from the store, as sums over its records.\<close>

lemma stored_sums:
  assumes "serde_ok S" and "evs \<noteq> []" and "length evs < 2 ^ 31"
  shows "\<exists>a. Option.bind (window_store S evs) (des S) = Some a \<and>
    sint (bytes_inbound a) = (\<Sum>e\<leftarrow>evs. sint (by_dir INBOUND byte_countJ (ev_flow e))) \<and>
    sint (bytes_outbound a) = (\<Sum>e\<leftarrow>evs. sint (by_dir OUTBOUND byte_countJ (ev_flow e))) \<and>
    sint (packets_inbound a) = (\<Sum>e\<leftarrow>evs. sint (by_dir INBOUND packet_countJ (ev_flow e))) \<and>
    sint (packets_outbound a) = (\<Sum>e\<leftarrow>evs. sint (by_dir OUTBOUND packet_countJ (ev_flow e))) \<and>
    sint (tcp_syn_total a) = (\<Sum>e\<leftarrow>evs. sint (tcp_syn_countJ (ev_flow e))) \<and>
    sint (tcp_ack_total a) = (\<Sum>e\<leftarrow>evs. sint (tcp_ack_countJ (ev_flow e))) \<and>
    sint (tcp_fin_total a) = (\<Sum>e\<leftarrow>evs. sint (tcp_fin_countJ (ev_flow e))) \<and>
    sint (tcp_rst_total a) = (\<Sum>e\<leftarrow>evs. sint (tcp_rst_countJ (ev_flow e))) \<and>
    sint (unique_flow_count a) = int (card (unique_key ` ev_flow ` set evs))"
proof -
  define a where "a = window_aggregate evs"
  have s: "Option.bind (window_store S evs) (des S) = Some a"
    using assms(1) finite_flowKeys by (simp add: window_store_aggregate [OF assms(1,2)] serde_ok_def a_def)
  have l: "length evs < 2 ^ 32" using assms(3) by simp
  have "card (unique_key ` ev_flow ` set evs) \<le> length evs"
    by (metis card_length image_set length_map)
  then have u: "sint (unique_flow_count a) = int (card (unique_key ` ev_flow ` set evs))"
    using assms(3)
    by (simp add: a_def window_aggregate_def fold_addFlow_unique new_AggregatedFlow_def sint_of_nat_jint)
  show ?thesis
    using s u by (simp add: a_def window_aggregate_def fold_addFlow new_AggregatedFlow_def sum_widen [OF l])
qed

text \<open>
  C14: the aggregate of a window of at least one and fewer than \<open>2\<^sup>3\<^sup>1\<close> records, kept in the store
  between its records: the volumes of each direction and the totals of the SYN, ACK, FIN and RST flags
  are the exact sums over the flows, without overflow, flows of other directions add no volume, and the
  number of unique flows is the number of different key strings, which is at most the number of different
  five-tuples.  The serde of the store is assumed to give back what it stored.
\<close>

theorem window_totals:
  assumes "serde_ok S" and "evs \<noteq> []" and "length evs < 2 ^ 31"
  shows "\<exists>a. Option.bind (window_store S evs) (des S) = Some a \<and>
    sint (bytes_inbound a) = (\<Sum>e\<leftarrow>filter (\<lambda>e. dirJ (ev_flow e) = INBOUND) evs. sint (byte_countJ (ev_flow e))) \<and>
    sint (bytes_outbound a) = (\<Sum>e\<leftarrow>filter (\<lambda>e. dirJ (ev_flow e) = OUTBOUND) evs. sint (byte_countJ (ev_flow e))) \<and>
    sint (packets_inbound a) = (\<Sum>e\<leftarrow>filter (\<lambda>e. dirJ (ev_flow e) = INBOUND) evs. sint (packet_countJ (ev_flow e))) \<and>
    sint (packets_outbound a) = (\<Sum>e\<leftarrow>filter (\<lambda>e. dirJ (ev_flow e) = OUTBOUND) evs. sint (packet_countJ (ev_flow e))) \<and>
    sint (tcp_syn_total a) = (\<Sum>e\<leftarrow>evs. sint (tcp_syn_countJ (ev_flow e))) \<and>
    sint (tcp_ack_total a) = (\<Sum>e\<leftarrow>evs. sint (tcp_ack_countJ (ev_flow e))) \<and>
    sint (tcp_fin_total a) = (\<Sum>e\<leftarrow>evs. sint (tcp_fin_countJ (ev_flow e))) \<and>
    sint (tcp_rst_total a) = (\<Sum>e\<leftarrow>evs. sint (tcp_rst_countJ (ev_flow e))) \<and>
    sint (unique_flow_count a) = int (card (unique_key ` ev_flow ` set evs)) \<and>
    card (unique_key ` ev_flow ` set evs) \<le> card (five_tuple ` ev_flow ` set evs)"
  using stored_sums [OF assms] card_unique_keys [of "ev_flow ` set evs"] by (simp add: sum_by_dir)

text \<open>Two connections to the same server: from 10.0.0.1, port 23, and from 10.0.0.12, port 3.\<close>

definition connection :: "u32 \<Rightarrow> u16 \<Rightarrow> flow_t" where
  "connection src port = zero_flow\<lparr>key := \<lparr>src_ip = src, dst_ip = 0x0900000A, src_port = ntohs port,
     dst_port = ntohs 80, protocol = IPPROTO_TCP\<rparr>, direction := DIR_INBOUND, packet_count := 2, byte_count := 300\<rparr>"

definition flow_1 :: FlowJ where
  "flow_1 = flow_received 0 (connection 0x0100000A 23)"

definition flow_2 :: FlowJ where
  "flow_2 = flow_received 0 (connection 0x0C00000A 3)"

theorem window_totals_witness:
  "\<exists>a. Option.bind (window_store identity_serde [(flow_1, 1, 0), (flow_1, 2, 0), (flow_2, 3, 0)]) (des identity_serde) = Some a \<and>
     sint (bytes_inbound a) = 900 \<and> sint (bytes_outbound a) = 0 \<and> sint (packets_inbound a) = 6"
proof -
  have "length [(flow_1, 1, 0), (flow_1, 2, 0), (flow_2, 3, 0::LocalDateTime)] < 2 ^ 31" by simp
  from window_totals [OF identity_serde_ok list.distinct(2) this]
  show ?thesis by (auto simp: flow_1_def flow_2_def connection_def)
qed

lemma address_texts:
  "inet_ntop 0x0100000A = ''10.0.0.1''" "inet_ntop 0x0C00000A = ''10.0.0.12''"
  "dec 23 = ''23''" "dec 3 = ''3''"
  by code_simp+

lemma keys_collide: "unique_key flow_1 = unique_key flow_2"
proof -
  have "int_string (ucast (23::u16) :: jint) = ''23''" "int_string (ucast (3::u16) :: jint) = ''3''"
    using int_string_port [of 23] int_string_port [of 3] address_texts by simp_all
  then show ?thesis
    by (simp add: unique_key_def flow_1_def flow_2_def connection_def address_texts)
qed

text \<open>
  C32: the key string puts addresses and ports side by side without separators, so different
  connections can have the same one: two connections of different addresses and ports, whose
  \<open>flow_key\<close> differs as well, are counted as one unique flow.
\<close>

theorem unique_flows_collide:
  "key (connection 0x0100000A 23) \<noteq> key (connection 0x0C00000A 3) \<and>
   flow_keyJ flow_1 \<noteq> flow_keyJ flow_2 \<and> five_tuple flow_1 \<noteq> five_tuple flow_2 \<and>
   unique_flow_count (window_aggregate [(flow_1, t, s), (flow_2, t', s')]) = 1"
proof -
  have k: "key (connection 0x0100000A 23) \<noteq> key (connection 0x0C00000A 3)"
    by (simp add: connection_def)
  have "src_ip (key (connection 0x0100000A 23)) \<noteq> src_ip (key (connection 0x0C00000A 3))"
    by (simp add: connection_def)
  then have "flow_keyJ flow_1 \<noteq> flow_keyJ flow_2" "five_tuple flow_1 \<noteq> five_tuple flow_2"
    by (simp_all add: flow_1_def flow_2_def five_tuple_def)
       (simp add: flow_received_def new_Flow_def make_flow_key_inject)
  then show ?thesis using k keys_collide by (simp add: window_aggregate_def new_AggregatedFlow_def)
qed

text \<open>
  A serde that loses the set of keys, as a public JSON without \<open>flowKeys\<close> would, makes every
  record count as a unique flow: the store needs the internal form.
\<close>

theorem serde_without_keys_overcounts:
  assumes "\<forall>a. Option.bind (ser S a) (des S) = Some (a\<lparr>flowKeys := {}\<rparr>)" and "evs \<noteq> []"
  shows "\<exists>a. Option.bind (window_store S evs) (des S) = Some a \<and> flowKeys a = {} \<and>
    unique_flow_count a = of_nat (length evs)"
  using assms(2)
proof (induction evs rule: rev_nonempty_induct)
  case (single ev)
  then show ?case
    using assms(1)
    by (cases ev) (simp add: window_store_def aggregate_record_def stored_aggregate_def new_AggregatedFlow_def)
next
  case (snoc ev evs)
  obtain flow now start where ev: "ev = (flow, now, start)" by (cases ev)
  obtain a where a: "Option.bind (window_store S evs) (des S) = Some a" "flowKeys a = {}"
    "unique_flow_count a = of_nat (length evs)" using snoc by blast
  then have "window_store S (evs @ [ev]) = ser S (addFlow flow now a)"
    by (simp add: window_store_def ev aggregate_record_def stored_aggregate_def)
  then show ?case using a(2,3) assms(1) by simp
qed

theorem serde_without_keys_overcounts_witness:
  "\<exists>a. Option.bind (window_store \<lparr>ser = \<lambda>a. Some (a\<lparr>flowKeys := {}\<rparr>), des = Some\<rparr>
       [(flow_1, 1, 0), (flow_1, 2, 0)]) Some = Some a \<and> flowKeys a = {} \<and> unique_flow_count a = 2"
  using serde_without_keys_overcounts
    [of "\<lparr>ser = \<lambda>a. Some (a\<lparr>flowKeys := {}\<rparr>), des = Some\<rparr>" "[(flow_1, 1, 0), (flow_1, 2, 0)]"]
  by simp

text \<open>
  The splitter sends the two volumes of a parsed aggregate to their topics, and fails with a
  \<open>NullPointerException\<close> exactly on the messages that do not parse.
\<close>

theorem split_message_result:
  "split_message fromJson v =
     (case fromJson v of Inr (Some a) \<Rightarrow>
        Inr ([(''in'', bytes_inbound a), (''out'', bytes_outbound a)], (''flow'', unique_flow_count a))
      | _ \<Rightarrow> Inl NullPointerException)"
  "branch_of ''in'' [(''in'', x), (''out'', y)] = [x]" "branch_of ''out'' [(''in'', x), (''out'', y)] = [y]"
  by (auto simp: split_message_def branch_of_def split: sum.split option.split)

end
