(* ===== verification/Pipeline.thy ===== *)
theory Pipeline
  imports Liveness Java_Aggregate
begin

text \<open>
  The sniffer and the stream processor together: every message of the sniffer parses, and the
  volumes the stream processor reports are those of the captured packets.
\<close>

section \<open>The flows of a window\<close>

definition capture_ok :: "pkt_stats_t list \<Rightarrow> bool" where
  "capture_ok ss \<longleftrightarrow> length ss < 2 ^ 31 \<and>
     (\<forall>s \<in> set ss. time_ok (timestamp s) \<and> tcp_or_udp (protocol (pkt_key s)) \<and> 0 \<le> payload_size s)"

lemma sum_filter_le: "(\<forall>s \<in> set ss. 0 \<le> f s) \<Longrightarrow> (\<Sum>s\<leftarrow>filter P ss. f s) \<le> (\<Sum>s\<leftarrow>ss. (f s :: int))"
  by (induction ss) auto

lemma sum_list_nonneg': "(\<forall>s \<in> set ss. 0 \<le> f s) \<Longrightarrow> 0 \<le> (\<Sum>s\<leftarrow>ss. (f s :: int))"
  by (induction ss) auto

lemma aggregate_received:
  assumes "capture_ok ss" and "k \<in> pkt_key ` set ss"
  shows "iat_moderate (aggregate ip msk ss k)" "tcp_or_udp (protocol (key (aggregate ip msk ss k)))"
    "(\<Sum>s\<leftarrow>ss. payload_size s) < 2 ^ 31 \<Longrightarrow>
       sint (byte_count (aggregate ip msk ss k)) = (\<Sum>s\<leftarrow>packets_of k ss. payload_size s)"
    "sint (packet_count (aggregate ip msk ss k)) = int (length (packets_of k ss))"
proof -
  define ps where "ps = packets_of k ss"
  have ps: "set ps \<subseteq> set ss" "length ps \<le> length ss" "ps \<noteq> []"
    using assms(2) by (auto simp: ps_def packets_of_def filter_empty_conv)
  then have l: "length ps < 2 ^ 31" "length ps < 2 ^ 32" using assms(1) by (auto simp: capture_ok_def)
  have t: "\<forall>s \<in> set ps. time_ok (timestamp s)" using assms(1) ps(1) by (auto simp: capture_ok_def)
  then have "total_iat_usec (aggregate ip msk ss k) = of_int (usecs (timestamp (last ps)) - usecs (timestamp (hd ps)))"
    using fold_update_iat [OF l(2) t ps(3), of "new_flow ip msk k"] by (simp add: aggregate_def ps_def)
  moreover have "\<bar>usecs (timestamp (last ps)) - usecs (timestamp (hd ps))\<bar> \<le> 2 ^ 53"
    using t ps(3) by (intro usecs_diff) simp_all
  then have "(of_int \<bar>usecs (timestamp (last ps)) - usecs (timestamp (hd ps))\<bar> :: rat) \<le> of_int (2 ^ 53)"
    by (simp only: of_int_le_iff)
  moreover have "(2::rat) ^ 53 \<le> 2 ^ 1000" by (rule power_increasing) simp_all
  ultimately show "iat_moderate (aggregate ip msk ss k)" by (simp add: iat_moderate_def)
  show "tcp_or_udp (protocol (key (aggregate ip msk ss k)))" using assms by (auto simp: capture_ok_def)
  have "0 \<le> (\<Sum>s\<leftarrow>ps. payload_size s)" "(\<Sum>s\<leftarrow>ps. payload_size s) \<le> (\<Sum>s\<leftarrow>ss. payload_size s)"
    using assms(1) sum_filter_le [of ss payload_size "\<lambda>s. pkt_key s = k"] sum_list_nonneg' [of ps payload_size] ps(1)
    by (auto simp: capture_ok_def ps_def packets_of_def)
  then show "(\<Sum>s\<leftarrow>ss. payload_size s) < 2 ^ 31 \<Longrightarrow> sint (byte_count (aggregate ip msk ss k)) = (\<Sum>s\<leftarrow>packets_of k ss. payload_size s)"
    by (simp add: aggregate_def fold_update_counters flip: ps_def) (intro sint_word_of_int_fits; simp)
  show "sint (packet_count (aggregate ip msk ss k)) = int (length (packets_of k ss))"
    using l(1) by (simp add: aggregate_def fold_update_counters sint_of_nat_jint flip: ps_def)
qed

text \<open>Sums over the flows of a window are sums over its packets.\<close>

lemma sum_over_keys:
  assumes "finite K" and "pkt_key ` set ss \<subseteq> K"
  shows "(\<Sum>k\<in>K. if P k then \<Sum>s\<leftarrow>packets_of k ss. (f s :: int) else 0) = (\<Sum>s\<leftarrow>filter (\<lambda>s. P (pkt_key s)) ss. f s)"
  using assms(2)
proof (induction ss)
  case Nil
  have "(\<Sum>k\<in>K. if P k then \<Sum>s\<leftarrow>packets_of k []. f s else 0) = 0"
    by (rule sum.neutral) (simp add: packets_of_def)
  then show ?case by simp
next
  case (Cons s ss)
  have "(\<Sum>k\<in>K. if P k then \<Sum>s\<leftarrow>packets_of k (s # ss). f s else 0) =
      (\<Sum>k\<in>K. (if pkt_key s = k then if P k then f s else 0 else 0) + (if P k then \<Sum>s\<leftarrow>packets_of k ss. f s else 0))"
    by (rule sum.cong) (auto simp: packets_of_def)
  also have "\<dots> = (if P (pkt_key s) then f s else 0) + (\<Sum>s\<leftarrow>filter (\<lambda>s. P (pkt_key s)) ss. f s)"
    using Cons assms(1) by (simp add: sum.distrib sum.delta)
  finally show ?case by simp
qed

lemma sum_over_flows:
  "(\<Sum>k\<leftarrow>first_keys ss. if P k then \<Sum>s\<leftarrow>packets_of k ss. (f s :: int) else 0) = (\<Sum>s\<leftarrow>filter (\<lambda>s. P (pkt_key s)) ss. f s)"
  using sum_over_keys [of "pkt_key ` set ss" ss P f]
  by (simp add: sum_list_distinct_conv_sum_set)

section \<open>The messages of a run\<close>

text \<open>The values handed to \<open>rd_kafka_producev\<close>.\<close>

definition sent :: "kafka_call list \<Rightarrow> string list" where
  "sent cs = List.map_filter (\<lambda>c. case c of Producev topic v \<Rightarrow> Some v | _ \<Rightarrow> None) cs"

definition exported_flows :: "u32 \<Rightarrow> u32 \<Rightarrow> pkt_stats_t list list \<Rightarrow> flow_stats list" where
  "exported_flows ip msk ws = concat (map (window ip msk) ws)"

lemma sent_append: "sent (cs @ ds) = sent cs @ sent ds"
  by (simp add: sent_def List.map_filter_def)

lemma sent_export_calls: "sent (export_calls ip msk w) = map json_payload (window ip msk w)"
  by (auto simp: sent_def export_calls_def messages_def List.map_filter_def o_def window_def)

lemma sent_run:
  assumes "inv ip msk s"
  shows "sent (calls s) = map json_payload (exported_flows ip msk (windows s))"
proof -
  have "sent (concat (map (export_calls ip msk) ws)) = map json_payload (exported_flows ip msk ws)" for ws
    by (induction ws) (simp_all add: sent_append sent_export_calls exported_flows_def, simp add: sent_def List.map_filter_simps)
  then show ?thesis using assms by (simp add: inv_def)
qed

lemma parsed_messages:
  assumes "jackson_ok J" and "\<forall>f \<in> set fs. iat_moderate f \<and> tcp_or_udp (protocol (key f))"
    and "map fst msgs = map (\<lambda>f. Some (json_payload f)) fs"
  shows "\<exists>stamps. length stamps = length fs \<and> parsed_flows J zone msgs = map2 flow_received stamps fs"
  using assms(2,3)
proof (induction fs arbitrary: msgs)
  case Nil
  then show ?case by (simp add: parsed_flows_def List.map_filter_simps)
next
  case (Cons f fs)
  obtain c ms where m: "msgs = (Some (json_payload f), c) # ms" "map fst ms = map (\<lambda>f. Some (json_payload f)) fs"
    using Cons.prems(2) by (cases msgs) auto
  obtain stamps where stamps: "length stamps = length fs" "parsed_flows J zone ms = map2 flow_received stamps fs"
    using Cons m by auto
  have "parse_stage J zone (Some (json_payload f)) c = Some (flow_received (c + zone c) f)"
    using readJson_message [OF assms(1), of f zone c] Cons.prems(1) by (simp add: parse_stage_def)
  then have "parsed_flows J zone msgs = map2 flow_received ((c + zone c) # stamps) (f # fs)"
    using stamps(2) by (simp add: parsed_flows_def m(1) List.map_filter_simps)
  then show ?case using stamps(1) by (intro exI [of _ "(c + zone c) # stamps"]) simp
qed

lemma sum_received:
  "length stamps = length fs \<Longrightarrow>
     (\<Sum>fl\<leftarrow>map2 flow_received stamps fs. sint (by_dir d byte_countJ fl)) =
       (\<Sum>f\<leftarrow>fs. if direction_of (direction f) = d then sint (byte_count f) else 0)"
  "length stamps = length fs \<Longrightarrow>
     (\<Sum>fl\<leftarrow>map2 flow_received stamps fs. sint (by_dir d packet_countJ fl)) =
       (\<Sum>f\<leftarrow>fs. if direction_of (direction f) = d then sint (packet_count f) else 0)"
  by (induction stamps fs rule: list_induct2) (simp_all add: by_dir_def)

lemma sum_window:
  fixes ip msk :: u32
  assumes "capture_ok ss" and "(\<Sum>s\<leftarrow>ss. payload_size s) < 2 ^ 31"
  shows "(\<Sum>f\<leftarrow>window ip msk ss. if direction_of (direction f) = d then sint (byte_count f) else 0) =
      (\<Sum>s\<leftarrow>filter (\<lambda>s. direction_of (infer_direction ip msk (pkt_key s)) = d) ss. payload_size s)"
    "(\<Sum>f\<leftarrow>window ip msk ss. if direction_of (direction f) = d then sint (packet_count f) else 0) =
      int (length (filter (\<lambda>s. direction_of (infer_direction ip msk (pkt_key s)) = d) ss))"
proof -
  note r = aggregate_received(3) [OF assms(1) _ assms(2)] aggregate_received(4) [OF assms(1)]
  have d: "direction (aggregate ip msk ss k) = infer_direction ip msk k" for k
    by (simp add: aggregate_def)
  have "(\<Sum>f\<leftarrow>window ip msk ss. if direction_of (direction f) = d then sint (byte_count f) else 0) =
      (\<Sum>k\<leftarrow>first_keys ss. if direction_of (infer_direction ip msk k) = d then \<Sum>s\<leftarrow>packets_of k ss. payload_size s else 0)"
    unfolding window_group_by map_map o_def d
    by (rule arg_cong [of _ _ sum_list], rule map_cong [OF refl]) (simp add: r)
  then show "(\<Sum>f\<leftarrow>window ip msk ss. if direction_of (direction f) = d then sint (byte_count f) else 0) =
      (\<Sum>s\<leftarrow>filter (\<lambda>s. direction_of (infer_direction ip msk (pkt_key s)) = d) ss. payload_size s)"
    by (simp only: sum_over_flows [where P = "\<lambda>k. direction_of (infer_direction ip msk k) = d"])
  have c: "(\<Sum>s\<leftarrow>xs. 1) = int (length xs)" for xs :: "pkt_stats_t list" by (induction xs) simp_all
  have "(\<Sum>f\<leftarrow>window ip msk ss. if direction_of (direction f) = d then sint (packet_count f) else 0) =
      (\<Sum>k\<leftarrow>first_keys ss. if direction_of (infer_direction ip msk k) = d then \<Sum>s\<leftarrow>packets_of k ss. 1 else 0)"
    unfolding window_group_by map_map o_def d
    by (rule arg_cong [of _ _ sum_list], rule map_cong [OF refl]) (simp add: r c)
  also have "\<dots> = (\<Sum>s\<leftarrow>filter (\<lambda>s. direction_of (infer_direction ip msk (pkt_key s)) = d) ss. 1)"
    by (rule sum_over_flows [where P = "\<lambda>k. direction_of (infer_direction ip msk k) = d"])
  also have "\<dots> = int (length (filter (\<lambda>s. direction_of (infer_direction ip msk (pkt_key s)) = d) ss))" by (rule c)
  finally show "(\<Sum>f\<leftarrow>window ip msk ss. if direction_of (direction f) = d then sint (packet_count f) else 0) =
      int (length (filter (\<lambda>s. direction_of (infer_direction ip msk (pkt_key s)) = d) ss))" .
qed

section \<open>A run of the sniffer\<close>

text \<open>Fewer than \<open>2\<^sup>3\<^sup>1\<close> packets, with time stamps until the year 2106.\<close>

definition run_ok :: "sys \<Rightarrow> bool" where
  "run_ok s \<longleftrightarrow> length (accepted s) < 2 ^ 31 \<and> (\<forall>st \<in> set (accepted s). time_ok (timestamp st))"

lemma from_frame_accepted: "from_frame st \<Longrightarrow> tcp_or_udp (protocol (pkt_key st)) \<and> 0 \<le> payload_size st"
  using parse_packet_accepted_ok by (fastforce simp: from_frame_def captured_def accepted_ok_def tcp_or_udp_def)

lemma capture_ok_window:
  assumes "inv ip msk s" and "frames_ok s" and "run_ok s" and "w \<in> set (windows s)"
  shows "capture_ok w"
proof -
  have a: "accepted s = concat (windows s) @ pending s @ current s" using assms(1) by (simp add: inv_def)
  obtain us vs where "windows s = us @ w # vs" using assms(4) by (meson split_list)
  then have "length w \<le> length (accepted s)" using a by simp
  moreover have "set w \<subseteq> set (accepted s)" using a assms(4) by auto
  ultimately show ?thesis
    using assms(2,3) from_frame_accepted by (auto simp: capture_ok_def run_ok_def frames_ok_def)
qed

lemma exported_ok:
  assumes "inv ip msk s" and "frames_ok s" and "run_ok s"
  shows "\<forall>f \<in> set (exported_flows ip msk (windows s)). iat_moderate f \<and> tcp_or_udp (protocol (key f))"
  using capture_ok_window [OF assms] aggregate_received(1,2)
  by (fastforce simp: exported_flows_def window_group_by)

lemma volume_window:
  assumes "inv ip msk s" and "frames_ok s" and "(\<Sum>st\<leftarrow>accepted s. payload_size st) < 2 ^ 31" and "w \<in> set (windows s)"
  shows "(\<Sum>st\<leftarrow>w. payload_size st) < 2 ^ 31"
proof -
  have a: "accepted s = concat (windows s) @ pending s @ current s" using assms(1) by (simp add: inv_def)
  obtain us vs where "windows s = us @ w # vs" using assms(4) by (meson split_list)
  then have e: "accepted s = concat us @ w @ concat vs @ pending s @ current s" using a by simp
  have n: "\<forall>st \<in> set (accepted s). 0 \<le> payload_size st"
    using assms(2) from_frame_accepted by (auto simp: frames_ok_def)
  have "0 \<le> (\<Sum>st\<leftarrow>concat us. payload_size st)" by (rule sum_list_nonneg') (use n e in auto)
  moreover have "0 \<le> (\<Sum>st\<leftarrow>concat vs @ pending s @ current s. payload_size st)"
    by (rule sum_list_nonneg') (use n e in auto)
  ultimately show ?thesis using assms(3) unfolding e by simp
qed

lemma exported_sums_windows:
  fixes ip msk :: u32
  assumes "\<forall>w \<in> set ws. capture_ok w \<and> (\<Sum>st\<leftarrow>w. payload_size st) < 2 ^ 31"
  shows "(\<Sum>f\<leftarrow>exported_flows ip msk ws. if direction_of (direction f) = d then sint (byte_count f) else 0) =
      (\<Sum>st\<leftarrow>filter (\<lambda>st. direction_of (infer_direction ip msk (pkt_key st)) = d) (concat ws). payload_size st)"
    "(\<Sum>f\<leftarrow>exported_flows ip msk ws. if direction_of (direction f) = d then sint (packet_count f) else 0) =
      int (length (filter (\<lambda>st. direction_of (infer_direction ip msk (pkt_key st)) = d) (concat ws)))"
  using assms by (induction ws) (simp_all add: exported_flows_def sum_window)

lemma exported_sums:
  assumes "inv ip msk s" and "frames_ok s" and "run_ok s" and "(\<Sum>st\<leftarrow>accepted s. payload_size st) < 2 ^ 31"
  shows "(\<Sum>f\<leftarrow>exported_flows ip msk (windows s). if direction_of (direction f) = d then sint (byte_count f) else 0) =
      (\<Sum>st\<leftarrow>filter (\<lambda>st. direction_of (infer_direction ip msk (pkt_key st)) = d) (concat (windows s)). payload_size st)"
    "(\<Sum>f\<leftarrow>exported_flows ip msk (windows s). if direction_of (direction f) = d then sint (packet_count f) else 0) =
      int (length (filter (\<lambda>st. direction_of (infer_direction ip msk (pkt_key st)) = d) (concat (windows s))))"
proof -
  have "\<forall>w \<in> set (windows s). capture_ok w \<and> (\<Sum>st\<leftarrow>w. payload_size st) < 2 ^ 31"
    using capture_ok_window [OF assms(1-3)] volume_window [OF assms(1,2,4)] by blast
  note exported_sums_windows [OF this]
  then show "(\<Sum>f\<leftarrow>exported_flows ip msk (windows s). if direction_of (direction f) = d then sint (byte_count f) else 0) =
      (\<Sum>st\<leftarrow>filter (\<lambda>st. direction_of (infer_direction ip msk (pkt_key st)) = d) (concat (windows s)). payload_size st)"
    "(\<Sum>f\<leftarrow>exported_flows ip msk (windows s). if direction_of (direction f) = d then sint (packet_count f) else 0) =
      int (length (filter (\<lambda>st. direction_of (infer_direction ip msk (pkt_key st)) = d) (concat (windows s))))"
    by blast+
qed

lemma length_exported:
  assumes "inv ip msk s" and "run_ok s"
  shows "length (exported_flows ip msk (windows s)) < 2 ^ 31"
proof -
  have k: "length (first_keys w) \<le> length w" for w
    unfolding first_keys_def by (metis length_map length_rev length_remdups_leq)
  have "length (exported_flows ip msk ws) \<le> length (concat ws)" for ws
    by (induction ws) (use k in \<open>simp_all add: exported_flows_def window_group_by add_mono\<close>)
  moreover have "length (concat (windows s)) \<le> length (accepted s)" using assms(1) by (simp add: inv_def)
  ultimately show ?thesis using assms(2) by (meson le_less_trans run_ok_def)
qed

lemma keys_exported: "key ` set (exported_flows ip msk ws) = pkt_key ` set (concat ws)"
  by (induction ws) (simp_all add: exported_flows_def window_group_by image_Un image_image)

text \<open>The key string of a received flow depends only on the key of the flow.\<close>

lemma unique_keys_received:
  assumes "length stamps = length fs"
  shows "card (unique_key ` set (map2 flow_received stamps fs)) \<le> card (key ` set fs)"
proof -
  define u where "u k = unique_key (flow_received 0 (zero_flow\<lparr>key := k\<rparr>))" for k
  have "map unique_key (map2 flow_received stamps fs) = map (u \<circ> key) fs"
    using assms by (induction stamps fs rule: list_induct2) (simp_all add: u_def unique_key_def)
  then have "unique_key ` set (map2 flow_received stamps fs) = u ` key ` set fs"
    by (metis (no_types, lifting) image_comp image_set)
  then show ?thesis by (simp add: card_image_le)
qed

section \<open>Properties\<close>

text \<open>
  C10: no message of the sniffer is lost in the parser of the stream processor: in every run that has
  accepted fewer than \<open>2\<^sup>3\<^sup>1\<close> packets, with time stamps before the year 2106, each value handed to Kafka
  parses without exception, into what the stream processor receives of the aggregate of one flow of
  one exported window.
\<close>

theorem every_message_parses:
  assumes "heap_empty m" and "rk \<noteq> None" and "reachable (main_init ip msk rk m) (Ok s)" and "run_ok s"
    and "jackson_ok J" and "v \<in> set (sent (calls s))"
  shows "\<exists>w \<in> set (windows s). \<exists>k \<in> pkt_key ` set w.
    readJson J zone (Some v) now = Inr (flow_received (now + zone now) (aggregate ip msk w k))"
proof -
  have I: "inv ip msk s" using reachable_inv [OF assms(1-3)] by simp
  have F: "frames_ok s" using frames_ok_reachable [OF assms(3) refl] .
  obtain f where f: "f \<in> set (exported_flows ip msk (windows s))" "v = json_payload f"
    using assms(6) by (auto simp: sent_run [OF I])
  then obtain w k where w: "w \<in> set (windows s)" "k \<in> pkt_key ` set w" "f = aggregate ip msk w k"
    by (auto simp: exported_flows_def window_group_by)
  have "iat_moderate f \<and> tcp_or_udp (protocol (key f))" using exported_ok [OF I F assms(4)] f(1) by blast
  then have "readJson J zone (Some v) now = Inr (flow_received (now + zone now) f)"
    using readJson_message [OF assms(5), of f zone now] f(2) by simp
  then show ?thesis using w by blast
qed

text \<open>
  C5: from the wire to the dashboard, up to 2 GiB.  Take a run that has accepted fewer than \<open>2\<^sup>3\<^sup>1\<close> packets
  of less than \<open>2\<^sup>3\<^sup>1\<close> bytes together, the range of the counters of the class \<open>Flow\<close>, with time stamps
  before the year 2106.  When its messages fall into one window of the stream processor, the volumes it
  reports are those of the exported packets: the inbound bytes are the sum of the payload sizes of the
  inbound packets, the inbound packets their number, and the same outbound; the number of unique flows
  is at most that of the different flow keys.
\<close>

theorem captured_volume_reported:
  assumes "heap_empty m" and "rk \<noteq> None" and "reachable (main_init ip msk rk m) (Ok s)" and "run_ok s"
    and "(\<Sum>st\<leftarrow>accepted s. payload_size st) < 2 ^ 31"
    and "jackson_ok J" and "serde_ok S"
    and "map fst msgs = map Some (sent (calls s))" and "map ev_flow evs = parsed_flows J zone msgs" and "evs \<noteq> []"
  shows "\<exists>a. Option.bind (window_store S evs) (des S) = Some a \<and>
    sint (bytes_inbound a) =
      (\<Sum>st\<leftarrow>filter (\<lambda>st. infer_direction ip msk (pkt_key st) = DIR_INBOUND) (concat (windows s)). payload_size st) \<and>
    sint (bytes_outbound a) =
      (\<Sum>st\<leftarrow>filter (\<lambda>st. infer_direction ip msk (pkt_key st) = DIR_OUTBOUND) (concat (windows s)). payload_size st) \<and>
    sint (packets_inbound a) =
      int (length (filter (\<lambda>st. infer_direction ip msk (pkt_key st) = DIR_INBOUND) (concat (windows s)))) \<and>
    sint (packets_outbound a) =
      int (length (filter (\<lambda>st. infer_direction ip msk (pkt_key st) = DIR_OUTBOUND) (concat (windows s)))) \<and>
    sint (unique_flow_count a) \<le> int (card (pkt_key ` set (concat (windows s))))"
proof -
  have I: "inv ip msk s" using reachable_inv [OF assms(1-3)] by simp
  have F: "frames_ok s" using frames_ok_reachable [OF assms(3) refl] .
  define fs where "fs = exported_flows ip msk (windows s)"
  have "map fst msgs = map (\<lambda>f. Some (json_payload f)) fs" using assms(8) by (simp add: sent_run [OF I] fs_def)
  then obtain stamps where p: "length stamps = length fs" "map ev_flow evs = map2 flow_received stamps fs"
    using parsed_messages [OF assms(6) exported_ok [OF I F assms(4)]] assms(9) unfolding fs_def by metis
  have l: "length evs < 2 ^ 31"
    using length_exported [OF I assms(4)] p by (metis fs_def length_map map_fst_zip)
  obtain a where a: "Option.bind (window_store S evs) (des S) = Some a"
    "sint (bytes_inbound a) = (\<Sum>fl\<leftarrow>map ev_flow evs. sint (by_dir INBOUND byte_countJ fl))"
    "sint (bytes_outbound a) = (\<Sum>fl\<leftarrow>map ev_flow evs. sint (by_dir OUTBOUND byte_countJ fl))"
    "sint (packets_inbound a) = (\<Sum>fl\<leftarrow>map ev_flow evs. sint (by_dir INBOUND packet_countJ fl))"
    "sint (packets_outbound a) = (\<Sum>fl\<leftarrow>map ev_flow evs. sint (by_dir OUTBOUND packet_countJ fl))"
    "sint (unique_flow_count a) = int (card (unique_key ` set (map ev_flow evs)))"
    using stored_sums [OF assms(7,10) l] by (auto simp: o_def)
  have d: "direction_of x = INBOUND \<longleftrightarrow> x = DIR_INBOUND" "direction_of x = OUTBOUND \<longleftrightarrow> x = DIR_OUTBOUND" for x
    by (cases x; simp)+
  have "card (unique_key ` set (map ev_flow evs)) \<le> card (pkt_key ` set (concat (windows s)))"
    unfolding p(2) using unique_keys_received [OF p(1)] by (simp only: fs_def keys_exported)
  then show ?thesis
    using a exported_sums [OF I F assms(4,5), folded fs_def, of INBOUND] exported_sums [OF I F assms(4,5), folded fs_def, of OUTBOUND]
    unfolding p(2) by (simp only: sum_received [OF p(1)] d of_nat_le_iff) auto
qed

text \<open>The example packet seen from the network of its destination.\<close>

lemma example_received:
  fixes ip msk :: u32
  shows "\<exists>s. reachable (main_init ip msk (Some 0) empty_mem) (Ok s) \<and> run_ok s \<and>
     accepted s = [example_udp_stats] \<and> concat (windows s) = [example_udp_stats] \<and>
     exported_flows ip msk (windows s) \<noteq> []"
proof -
  obtain s where s: "reachable (main_init ip msk (Some 0) empty_mem) (Ok s)"
    "concat (windows s) = [example_udp_stats]" "accepted s = [example_udp_stats]" using example_export by blast
  have "run_ok s" by (simp add: run_ok_def s(3) example_udp_stats_def time_ok_def)
  moreover have "key ` set (exported_flows ip msk (windows s)) \<noteq> {}" by (simp only: keys_exported s(2)) simp
  then have "exported_flows ip msk (windows s) \<noteq> []" by auto
  ultimately show ?thesis using s by blast
qed

theorem every_message_parses_witness:
  "\<exists>(s::sys) v fl. reachable (main_init 0x0200000A 0xFF0000FF (Some 0) empty_mem) (Ok s) \<and> v \<in> set (sent (calls s)) \<and>
     readJson tree_mapper (\<lambda>_. 0) (Some v) 5 = Inr fl"
proof -
  obtain s where s: "reachable (main_init 0x0200000A 0xFF0000FF (Some 0) empty_mem) (Ok s)" "run_ok s"
    "exported_flows 0x0200000A 0xFF0000FF (windows s) \<noteq> []" using example_received by blast
  have "inv 0x0200000A 0xFF0000FF s" using reachable_inv [OF heap_empty_mem _ s(1)] by simp
  then obtain v where v: "v \<in> set (sent (calls s))"
    using s(3) by (cases "exported_flows 0x0200000A 0xFF0000FF (windows s)") (auto simp: sent_run)
  from every_message_parses [OF heap_empty_mem option.distinct(2) s(1,2) tree_mapper_ok v]
  show ?thesis using s(1) v by blast
qed

theorem captured_volume_reported_witness:
  "\<exists>(s::sys) evs a. reachable (main_init 0x0200000A 0xFF0000FF (Some 0) empty_mem) (Ok s) \<and>
     map ev_flow evs = parsed_flows tree_mapper (\<lambda>_. 0) (map (\<lambda>v. (Some v, 5)) (sent (calls s))) \<and>
     window_store identity_serde evs = Some a \<and>
     sint (bytes_inbound a) = 8 \<and> sint (packets_inbound a) = 1 \<and> sint (bytes_outbound a) = 0"
proof -
  obtain s where s: "reachable (main_init 0x0200000A 0xFF0000FF (Some 0) empty_mem) (Ok s)" "run_ok s"
    "accepted s = [example_udp_stats]" "concat (windows s) = [example_udp_stats]"
    "exported_flows 0x0200000A 0xFF0000FF (windows s) \<noteq> []" using example_received by blast
  have I: "inv 0x0200000A 0xFF0000FF s" using reachable_inv [OF heap_empty_mem _ s(1)] by simp
  define msgs where "msgs = map (\<lambda>v. (Some v, 5::int)) (sent (calls s))"
  define evs where "evs = map (\<lambda>fl. (fl, 0::int, 0::int)) (parsed_flows tree_mapper (\<lambda>_. 0) msgs)"
  have m: "map fst msgs = map Some (sent (calls s))" by (simp add: msgs_def o_def)
  have e: "map ev_flow evs = parsed_flows tree_mapper (\<lambda>_. 0) msgs" by (simp add: evs_def o_def)
  have "map fst msgs = map (\<lambda>f. Some (json_payload f)) (exported_flows 0x0200000A 0xFF0000FF (windows s))"
    using m by (simp add: sent_run [OF I])
  then have ne: "evs \<noteq> []"
    using parsed_messages [OF tree_mapper_ok exported_ok [OF I frames_ok_reachable [OF s(1) refl] s(2)], of msgs "\<lambda>_. 0"] s(5)
    by (auto simp: evs_def)
  have v: "(\<Sum>st\<leftarrow>accepted s. payload_size st) < 2 ^ 31" by (simp add: s(3) example_udp_stats_def)
  have d: "infer_direction 0x0200000A 0xFF0000FF (pkt_key example_udp_stats) = DIR_INBOUND"
    by (simp add: infer_direction_def example_udp_stats_def)
  have "payload_size example_udp_stats = 8" by (simp add: example_udp_stats_def)
  then show ?thesis
    using captured_volume_reported [OF heap_empty_mem option.distinct(2) s(1,2) v tree_mapper_ok identity_serde_ok m e ne]
      s(1) e by (auto simp: s(4) d identity_serde_def msgs_def)
qed

end
