(* ===== verification/Java_Detector.thy ===== *)
theory Java_Detector
  imports Java_Aggregate
begin

text \<open>
  kafkatch-notification: the rolling statistics (RollingStats.java), the anomaly detector
  (AnomalyDetectorTransformer.java) and its stream (OutputWatcher.java).  A state store is a map from
  keys; Jackson's reader of aggregates is a parameter.  Texts are UTF-8 byte strings.
\<close>

section \<open>RollingStats\<close>

record RollingStats =
  valuesJ :: "jlong list"
  maxSize :: jint
  sumJ :: jlong

definition new_RollingStats :: "jint \<Rightarrow> RollingStats" where
  "new_RollingStats n = \<lparr>valuesJ = [], maxSize = n, sumJ = 0\<rparr>"

text \<open>The loop of \<open>add\<close>; \<open>removeFirst\<close> of an empty list throws.\<close>

fun remove_oldest :: "jint \<Rightarrow> jlong list \<Rightarrow> jlong \<Rightarrow> (jlong list \<times> jlong) jresult" where
  "remove_oldest n [] s = (if 0 > sint n then Inl NoSuchElementException else Inr ([], s))"
| "remove_oldest n (v # vs) s =
     (if int (length (v # vs)) > sint n then remove_oldest n vs (s - v) else Inr (v # vs, s))"

definition add_value :: "jlong \<Rightarrow> RollingStats \<Rightarrow> RollingStats jresult" where
  "add_value v st =
     attempt (remove_oldest (maxSize st) (valuesJ st @ [v]) (sumJ st + v)) (\<lambda>(vs, s).
     Inr (st\<lparr>valuesJ := vs, sumJ := s\<rparr>))"

definition average :: "RollingStats \<Rightarrow> rat" where
  "average st = (if valuesJ st = [] then 0
     else dbl (dbl (of_int (sint (sumJ st))) / of_nat (length (valuesJ st))))"

definition stats_size :: "RollingStats \<Rightarrow> nat" where
  "stats_size st = length (valuesJ st)"

section \<open>AnomalyDetectorTransformer\<close>

text \<open>\<open>Math.round\<close> of a \<open>double\<close>: the floor of the value plus one half, clipped to the range of \<open>long\<close>.\<close>

definition math_round :: "rat \<Rightarrow> jlong" where
  "math_round x = word_of_int (max (- (2 ^ 63)) (min (2 ^ 63 - 1) \<lfloor>x + 1 / 2\<rfloor>))"

record Warning =
  severidade :: string
  descricao :: string

record detector =
  windowSize :: jint
  ratioRegular :: rat
  ratioMedia :: rat
  ratioAlta :: rat

text \<open>The stores of the three metrics.\<close>

record stores =
  inboundStore :: "string \<Rightarrow> RollingStats option"
  outboundStore :: "string \<Rightarrow> RollingStats option"
  flowsStore :: "string \<Rightarrow> RollingStats option"

definition load_stats :: "detector \<Rightarrow> (string \<Rightarrow> RollingStats option) \<Rightarrow> string \<Rightarrow> RollingStats" where
  "load_stats det store storeKey =
     (case store storeKey of None \<Rightarrow> new_RollingStats (windowSize det) | Some stats \<Rightarrow> stats)"

definition ratio :: "jlong \<Rightarrow> RollingStats \<Rightarrow> rat" where
  "ratio current stats = dbl (dbl (of_int (sint current)) / average stats)"

definition percent_above :: "rat \<Rightarrow> jint" where
  "percent_above r = ucast (math_round (dbl (dbl (r - 1) * 100)))"

definition describe :: "jlong \<Rightarrow> string \<Rightarrow> RollingStats \<Rightarrow> string" where
  "describe current label stats =
     ''O '' @ [CHR 0xC3, CHR 0xBA] @ ''ltimo agregado registrou '' @ int_string current @ '' '' @ label @ '', '' @
     int_string (percent_above (ratio current stats)) @ ''% acima da m'' @ [CHR 0xC3, CHR 0xA9] @ ''dia de '' @
     int_string (math_round (average stats)) @ '' nas '' @ dec (stats_size stats) @ '' amostras anteriores''"

definition check ::
  "detector \<Rightarrow> (string \<Rightarrow> RollingStats option) \<Rightarrow> string \<Rightarrow> jlong \<Rightarrow> string \<Rightarrow>
   (Warning list \<times> (string \<Rightarrow> RollingStats option)) jresult" where
  "check det store storeKey current label =
     (let stats = load_stats det store storeKey;
          warn = (\<lambda>s. [\<lparr>severidade = s, descricao = describe current label stats\<rparr>]);
          result =
            (if stats_size stats \<ge> 3 then
               if average stats > 0 then
                 if ratio current stats \<ge> ratioAlta det then warn ''alta''
                 else if ratio current stats \<ge> ratioMedia det then warn ''media''
                 else if ratio current stats \<ge> ratioRegular det then warn ''regular''
                 else []
               else []
             else [])
      in attempt (add_value current stats) (\<lambda>stats'. Inr (result, store(storeKey \<mapsto> stats'))))"

text \<open>An exception in the check of a metric is logged; its store stays as it is.\<close>

fun caught :: "(Warning list \<times> 's) jresult \<Rightarrow> 's \<Rightarrow> Warning list \<times> 's" where
  "caught (Inl e) store = ([], store)"
| "caught (Inr r) store = r"

definition label_inbound :: string where "label_inbound = ''bytes recebidos''"
definition label_outbound :: string where "label_outbound = ''bytes enviados''"

definition label_flows :: string where
  "label_flows = ''conex'' @ [CHR 0xC3, CHR 0xB5] @ ''es '' @ [CHR 0xC3, CHR 0xBA] @ ''nicas''"

definition transform ::
  "detector \<Rightarrow> string option \<Rightarrow> AggregatedFlow option \<Rightarrow> stores \<Rightarrow> Warning list \<times> stores" where
  "transform det k value st =
     (case value of None \<Rightarrow> ([], st)
      | Some a \<Rightarrow>
          let storeKey = (case k of None \<Rightarrow> ''global'' | Some k' \<Rightarrow> k');
              (w1, s1) = caught (check det (inboundStore st) storeKey (bytes_inbound a) label_inbound) (inboundStore st);
              (w2, s2) = caught (check det (outboundStore st) storeKey (bytes_outbound a) label_outbound) (outboundStore st);
              (w3, s3) = caught (check det (flowsStore st) storeKey (widen (unique_flow_count a)) label_flows) (flowsStore st)
          in (w1 @ w2 @ w3, \<lparr>inboundStore = s1, outboundStore = s2, flowsStore = s3\<rparr>))"

section \<open>OutputWatcher\<close>

definition output_watcher :: detector where
  "output_watcher = \<lparr>windowSize = 30, ratioRegular = dbl (12 / 10), ratioMedia = dbl (15 / 10), ratioAlta = 2\<rparr>"

text \<open>
  One message: \<open>fromJson\<close> is \<open>AggregatedFlowParser.fromJsonString\<close>; what cannot be parsed, or is
  \<open>null\<close>, is dropped.  The warnings go out under the key of the message.
\<close>

definition watch_message ::
  "('m \<Rightarrow> AggregatedFlow option jresult) \<Rightarrow> detector \<Rightarrow> string option \<times> 'm \<Rightarrow> stores \<Rightarrow>
   (string option \<times> Warning) list \<times> stores" where
  "watch_message fromJson det msg st =
     (case msg of (k, value) \<Rightarrow>
        (case fromJson value of Inl e \<Rightarrow> ([], st)
         | Inr None \<Rightarrow> ([], st)
         | Inr (Some a) \<Rightarrow> apfst (map (Pair k)) (transform det k (Some a) st)))"

fun watch ::
  "('m \<Rightarrow> AggregatedFlow option jresult) \<Rightarrow> detector \<Rightarrow> (string option \<times> 'm) list \<Rightarrow> stores \<Rightarrow>
   (string option \<times> Warning) list \<times> stores" where
  "watch fromJson det [] st = ([], st)"
| "watch fromJson det (msg # msgs) st =
     (let (ws, st') = watch_message fromJson det msg st; (ws', st'') = watch fromJson det msgs st'
      in (ws @ ws', st''))"

section \<open>The window of a rolling statistic\<close>

text \<open>
  What the detector relies on: a bounded window over a stream of samples, whose contents after a
  sample are the last ones of the contents before, with the sample appended.
\<close>

definition lastn :: "nat \<Rightarrow> 'a list \<Rightarrow> 'a list" where
  "lastn n xs = drop (length xs - n) xs"

lemma lastn_lastn_snoc: "lastn n (lastn n xs @ [x]) = lastn n (xs @ [x])"
  by (simp add: lastn_def drop_Cons' split: nat_diff_split)

lemma lastn_simps [simp]: "lastn n [] = []" "lastn 0 xs = []" "length (lastn n xs) = min n (length xs)"
  "length xs \<le> n \<Longrightarrow> lastn n xs = xs"
  by (auto simp: lastn_def)

locale sample_window =
  fixes push :: "'x \<Rightarrow> 's \<Rightarrow> 's" and contents :: "'s \<Rightarrow> 'x list" and capacity :: nat and invar :: "'s \<Rightarrow> bool"
  assumes contents_push: "invar s \<Longrightarrow> contents (push x s) = lastn capacity (contents s @ [x])"
    and invar_push: "invar s \<Longrightarrow> invar (push x s)"
    and contents_fit: "invar s \<Longrightarrow> length (contents s) \<le> capacity"
begin

lemma invar_pushes: "invar s \<Longrightarrow> invar (fold push xs s)"
  by (induction xs arbitrary: s) (simp_all add: invar_push)

lemma contents_pushes: "invar s \<Longrightarrow> contents (fold push xs s) = lastn capacity (contents s @ xs)"
proof (induction xs rule: rev_induct)
  case Nil
  then show ?case by (simp add: contents_fit)
next
  case (snoc x xs)
  then show ?case
    using lastn_lastn_snoc [of capacity "contents s @ xs" x] by (simp add: contents_push invar_pushes)
qed

end

lemma remove_oldest_last:
  "0 \<le> sint n \<Longrightarrow> s = sum_list vs \<Longrightarrow>
     remove_oldest n vs s = Inr (lastn (nat (sint n)) vs, sum_list (lastn (nat (sint n)) vs))"
proof (induction n vs s rule: remove_oldest.induct)
  case (2 n v vs s)
  show ?case
  proof (cases "int (length (v # vs)) > sint n")
    case True
    then have "lastn (nat (sint n)) (v # vs) = lastn (nat (sint n)) vs"
      using 2(2) by (simp add: lastn_def Suc_diff_le)
    then show ?thesis using 2 True by simp
  next
    case False
    then have "length (v # vs) \<le> nat (sint n)" by simp
    then show ?thesis using 2(3) False by simp
  qed
qed simp

text \<open>A statistic of \<open>n\<close> values: the sum is that of the values.\<close>

definition stats_ok :: "jint \<Rightarrow> RollingStats \<Rightarrow> bool" where
  "stats_ok n st \<longleftrightarrow> maxSize st = n \<and> 0 \<le> sint n \<and> sumJ st = sum_list (valuesJ st) \<and>
     length (valuesJ st) \<le> nat (sint n)"

definition pushed :: "jlong \<Rightarrow> RollingStats \<Rightarrow> RollingStats" where
  "pushed v st = (let vs = lastn (nat (sint (maxSize st))) (valuesJ st @ [v]) in st\<lparr>valuesJ := vs, sumJ := sum_list vs\<rparr>)"

lemma add_value_pushed: "stats_ok n st \<Longrightarrow> add_value v st = Inr (pushed v st)"
  by (simp add: add_value_def stats_ok_def pushed_def Let_def remove_oldest_last)

interpretation rolling: sample_window pushed valuesJ "nat (sint n)" "stats_ok n"
  by unfold_locales (simp_all add: stats_ok_def pushed_def Let_def)

lemma new_stats_ok: "0 \<le> sint n \<Longrightarrow> stats_ok n (new_RollingStats n)"
  by (simp add: stats_ok_def new_RollingStats_def)

section \<open>The detector on a history of samples\<close>

text \<open>
  What the check of a metric says of the last samples of its history, and the statistic that stands
  for them.
\<close>

definition stats_of_samples :: "jint \<Rightarrow> jlong list \<Rightarrow> RollingStats" where
  "stats_of_samples n vs = \<lparr>valuesJ = lastn (nat (sint n)) vs, maxSize = n, sumJ = sum_list (lastn (nat (sint n)) vs)\<rparr>"

definition verdict :: "detector \<Rightarrow> string \<Rightarrow> RollingStats \<Rightarrow> jlong \<Rightarrow> Warning list" where
  "verdict det label stats current =
     (if stats_size stats < 3 \<or> average stats \<le> 0 \<or> ratio current stats < ratioRegular det then []
      else [\<lparr>severidade =
               (if ratio current stats \<ge> ratioAlta det then ''alta''
                else if ratio current stats \<ge> ratioMedia det then ''media'' else ''regular''),
             descricao = describe current label stats\<rparr>])"

definition thresholds_ok :: "detector \<Rightarrow> bool" where
  "thresholds_ok det \<longleftrightarrow> 0 \<le> sint (windowSize det) \<and> ratioRegular det \<le> ratioMedia det \<and> ratioMedia det \<le> ratioAlta det"

lemma stats_of_samples_ok: "0 \<le> sint n \<Longrightarrow> stats_ok n (stats_of_samples n vs)"
  by (simp add: stats_ok_def stats_of_samples_def)

lemma stats_of_samples_simps: "0 \<le> sint n \<Longrightarrow> stats_of_samples n [] = new_RollingStats n"
  "pushed v (stats_of_samples n vs) = stats_of_samples n (vs @ [v])"
  by (simp_all add: stats_of_samples_def new_RollingStats_def pushed_def Let_def lastn_lastn_snoc)

text \<open>A store holds the histories of its keys.\<close>

definition holds_history :: "detector \<Rightarrow> (string \<Rightarrow> RollingStats option) \<Rightarrow> (string \<Rightarrow> jlong list) \<Rightarrow> bool" where
  "holds_history det store h \<longleftrightarrow> (\<forall>k. load_stats det store k = stats_of_samples (windowSize det) (h k))"

lemma check_verdict:
  assumes "thresholds_ok det" and "holds_history det store h"
  shows "\<exists>store'. check det store k current label =
      Inr (verdict det label (stats_of_samples (windowSize det) (h k)) current, store') \<and>
    holds_history det store' (h(k := h k @ [current]))"
proof -
  define stats where "stats = stats_of_samples (windowSize det) (h k)"
  have l: "load_stats det store k = stats" using assms(2) by (simp add: holds_history_def stats_def)
  have "stats_ok (windowSize det) stats"
    using assms(1) by (simp add: stats_def stats_of_samples_ok thresholds_ok_def)
  then have a: "add_value current stats = Inr (stats_of_samples (windowSize det) (h k @ [current]))"
    by (simp add: add_value_pushed stats_of_samples_simps(2) stats_def)
  define store' where "store' = store(k \<mapsto> stats_of_samples (windowSize det) (h k @ [current]))"
  have "holds_history det store' (h(k := h k @ [current]))"
    using assms(2) by (auto simp: holds_history_def store'_def load_stats_def)
  moreover have "check det store k current label = Inr (verdict det label stats current, store')"
    using assms(1) a
    by (auto simp: check_def l Let_def verdict_def store'_def thresholds_ok_def not_less not_le)
  ultimately show ?thesis by (auto simp: stats_def)
qed

section \<open>The stream of warnings\<close>

definition empty_stores :: stores where
  "empty_stores = \<lparr>inboundStore = Map.empty, outboundStore = Map.empty, flowsStore = Map.empty\<rparr>"

definition store_key :: "string option \<Rightarrow> string" where
  "store_key k = (case k of None \<Rightarrow> ''global'' | Some k' \<Rightarrow> k')"

text \<open>The aggregates the stream sees, and the samples of a metric they have added under a key.\<close>

definition parsed_aggregates ::
  "('m \<Rightarrow> AggregatedFlow option jresult) \<Rightarrow> (string option \<times> 'm) list \<Rightarrow> (string option \<times> AggregatedFlow) list" where
  "parsed_aggregates fromJson msgs =
     List.map_filter (\<lambda>(k, v). case fromJson v of Inr (Some a) \<Rightarrow> Some (k, a) | _ \<Rightarrow> None) msgs"

definition samples ::
  "(AggregatedFlow \<Rightarrow> jlong) \<Rightarrow> (string option \<times> AggregatedFlow) list \<Rightarrow> string \<Rightarrow> jlong list" where
  "samples g ps k = map (g \<circ> snd) (filter (\<lambda>(k', a). store_key k' = k) ps)"

definition warnings_for ::
  "detector \<Rightarrow> (string option \<times> AggregatedFlow) list \<Rightarrow> string option \<times> AggregatedFlow \<Rightarrow> Warning list" where
  "warnings_for det ps p =
     (let judge = (\<lambda>label g. verdict det label
            (stats_of_samples (windowSize det) (samples g ps (store_key (fst p)))) (g (snd p)))
      in judge label_inbound bytes_inbound @ judge label_outbound bytes_outbound @
         judge label_flows (\<lambda>a. widen (unique_flow_count a)))"

definition stores_hold :: "detector \<Rightarrow> stores \<Rightarrow> (string option \<times> AggregatedFlow) list \<Rightarrow> bool" where
  "stores_hold det st ps \<longleftrightarrow>
     holds_history det (inboundStore st) (samples bytes_inbound ps) \<and>
     holds_history det (outboundStore st) (samples bytes_outbound ps) \<and>
     holds_history det (flowsStore st) (samples (\<lambda>a. widen (unique_flow_count a)) ps)"

lemma samples_snoc:
  "samples g (ps @ [(k, a)]) = (samples g ps)(store_key k := samples g ps (store_key k) @ [g a])"
  by (auto simp: samples_def fun_eq_iff)

lemma empty_stores_hold: "thresholds_ok det \<Longrightarrow> stores_hold det empty_stores []"
  by (simp add: stores_hold_def empty_stores_def holds_history_def samples_def load_stats_def
      stats_of_samples_simps thresholds_ok_def)

lemma transform_warnings:
  assumes t: "thresholds_ok det" and h: "stores_hold det st ps"
  shows "\<exists>st'. transform det k (Some a) st = (warnings_for det ps (k, a), st') \<and> stores_hold det st' (ps @ [(k, a)])"
proof -
  note i = h [unfolded stores_hold_def, THEN conjunct1]
    and o = h [unfolded stores_hold_def, THEN conjunct2, THEN conjunct1]
    and f = h [unfolded stores_hold_def, THEN conjunct2, THEN conjunct2]
  obtain s1 where s1: "check det (inboundStore st) (store_key k) (bytes_inbound a) label_inbound =
      Inr (verdict det label_inbound (stats_of_samples (windowSize det) (samples bytes_inbound ps (store_key k))) (bytes_inbound a), s1)"
    "holds_history det s1 (samples bytes_inbound (ps @ [(k, a)]))"
    using check_verdict [OF t i] unfolding samples_snoc by blast
  obtain s2 where s2: "check det (outboundStore st) (store_key k) (bytes_outbound a) label_outbound =
      Inr (verdict det label_outbound (stats_of_samples (windowSize det) (samples bytes_outbound ps (store_key k))) (bytes_outbound a), s2)"
    "holds_history det s2 (samples bytes_outbound (ps @ [(k, a)]))"
    using check_verdict [OF t o] unfolding samples_snoc by blast
  obtain s3 where s3: "check det (flowsStore st) (store_key k) (widen (unique_flow_count a)) label_flows =
      Inr (verdict det label_flows (stats_of_samples (windowSize det)
        (samples (\<lambda>a. widen (unique_flow_count a)) ps (store_key k))) (widen (unique_flow_count a)), s3)"
    "holds_history det s3 (samples (\<lambda>a. widen (unique_flow_count a)) (ps @ [(k, a)]))"
    using check_verdict [OF t f] unfolding samples_snoc by blast
  show ?thesis
    using s1 s2 s3 by (simp add: transform_def warnings_for_def stores_hold_def Let_def flip: store_key_def)
qed

lemma watch_append:
  "watch fromJson det (ms @ [m]) st =
     (let (ws, st') = watch fromJson det ms st; (ws', st'') = watch_message fromJson det m st' in (ws @ ws', st''))"
  by (induction ms arbitrary: st) (simp_all split: prod.split)

text \<open>The warnings for each aggregate in turn, each judged against the aggregates before it.\<close>

definition emitted ::
  "detector \<Rightarrow> (string option \<times> AggregatedFlow) list \<Rightarrow> (string option \<times> Warning) list" where
  "emitted det ps =
     concat (map (\<lambda>i. map (Pair (fst (ps ! i))) (warnings_for det (take i ps) (ps ! i))) [0..<length ps])"

lemma emitted_snoc: "emitted det (ps @ [p]) = emitted det ps @ map (Pair (fst p)) (warnings_for det ps p)"
proof -
  have e: "map (\<lambda>i. map (Pair (fst ((ps @ [p]) ! i))) (warnings_for det (take i (ps @ [p])) ((ps @ [p]) ! i))) [0..<length ps] =
      map (\<lambda>i. map (Pair (fst (ps ! i))) (warnings_for det (take i ps) (ps ! i))) [0..<length ps]"
    by (rule map_cong) (auto simp: nth_append)
  have "[0..<length (ps @ [p])] = [0..<length ps] @ [length ps]" by simp
  then show ?thesis unfolding emitted_def by (simp only: map_append concat_append e) simp
qed

lemma watch_emitted:
  assumes t: "thresholds_ok det"
  shows "\<exists>st. watch fromJson det msgs empty_stores = (emitted det (parsed_aggregates fromJson msgs), st) \<and>
    stores_hold det st (parsed_aggregates fromJson msgs)"
proof (induction msgs rule: rev_induct)
  case Nil
  then show ?case by (simp add: parsed_aggregates_def List.map_filter_simps empty_stores_hold [OF t] emitted_def)
next
  case (snoc m msgs)
  define ps where "ps = parsed_aggregates fromJson msgs"
  obtain k v where m: "m = (k, v)" by (cases m)
  obtain st where st: "watch fromJson det msgs empty_stores = (emitted det ps, st)" "stores_hold det st ps"
    using snoc by (auto simp: ps_def)
  show ?case
  proof (cases "\<exists>a. fromJson v = Inr (Some a)")
    case True
    then obtain a where a: "fromJson v = Inr (Some a)" by blast
    then have p: "parsed_aggregates fromJson (msgs @ [m]) = ps @ [(k, a)]"
      by (simp add: parsed_aggregates_def ps_def m List.map_filter_def)
    obtain st' where s: "transform det k (Some a) st = (warnings_for det ps (k, a), st')" "stores_hold det st' (ps @ [(k, a)])"
      using transform_warnings [OF t st(2)] by blast
    then show ?thesis
      unfolding p by (simp add: watch_append st(1) watch_message_def m a emitted_snoc)
  next
    case False
    then have "parsed_aggregates fromJson (msgs @ [m]) = ps" "watch_message fromJson det m st = ([], st)"
      by (auto simp: parsed_aggregates_def ps_def m List.map_filter_def watch_message_def
          split: sum.splits option.splits)
    then show ?thesis using st by (simp add: watch_append)
  qed
qed

end
