(* ===== verification/Detector_Props.thy ===== *)
theory Detector_Props
  imports Java_Detector
begin

text \<open>
  What the anomaly detector reports: its warnings as a function of the history of samples, the
  severity against the exact ratio of the current value to the average, and the wrapped percentage of
  extreme ratios.
\<close>

section \<open>Rounding of the ratio\<close>

definition eps :: rat where
  "eps = 1 / 2 ^ 53"

lemma eps_bounds: "0 < eps" "eps \<le> 1 / 100"
  by (simp_all add: eps_def)

lemma dbl_between:
  assumes "0 \<le> x"
  shows "x * (1 - eps) \<le> dbl x" "dbl x \<le> x * (1 + eps)"
proof -
  have "\<bar>dbl x - x\<bar> \<le> x * eps" using dbl_relative_error [of x] assms by (simp add: eps_def)
  then show "x * (1 - eps) \<le> dbl x" "dbl x \<le> x * (1 + eps)"
    unfolding right_diff_distrib distrib_left by linarith+
qed

text \<open>Two rounded divisions in a row.\<close>

lemma quotient_between:
  assumes x: "0 \<le> c" "0 < a"
  shows "c / a * (1 - 4 * eps) \<le> dbl (c / dbl a)" "dbl (c / dbl a) \<le> c / a * (1 + 4 * eps)"
proof -
  note e = eps_bounds
  have a1: "0 < a * (1 - eps)" using x e by simp
  have d: "a * (1 - eps) \<le> dbl a" "dbl a \<le> a * (1 + eps)" using dbl_between [of a] x by simp_all
  have pos: "0 < dbl a" using a1 d(1) by linarith
  then have q: "0 \<le> c / dbl a" using x by simp
  have ca: "0 \<le> c / a" using x by simp
  have sq: "0 \<le> eps * eps" "eps * eps \<le> eps * (1 / 100)" using e by (simp, intro mult_left_mono) simp_all
  have "c / a * (1 - 4 * eps) \<le> c / (a * (1 + eps)) * (1 - eps)"
  proof -
    have "1 - 4 * eps \<le> (1 - eps) / (1 + eps)" using e sq by (simp add: le_divide_eq algebra_simps)
    then have "c / a * (1 - 4 * eps) \<le> c / a * ((1 - eps) / (1 + eps))" using ca by (rule mult_left_mono)
    then show ?thesis by simp
  qed
  also have "\<dots> \<le> c / dbl a * (1 - eps)"
    using d(2) pos x e by (intro mult_right_mono divide_left_mono) simp_all
  also have "\<dots> \<le> dbl (c / dbl a)" using dbl_between(1) [OF q] .
  finally show "c / a * (1 - 4 * eps) \<le> dbl (c / dbl a)" .
  have "dbl (c / dbl a) \<le> c / dbl a * (1 + eps)" using dbl_between(2) [OF q] .
  also have "\<dots> \<le> c / (a * (1 - eps)) * (1 + eps)"
    using d(1) a1 pos x e by (intro mult_right_mono divide_left_mono) simp_all
  also have "\<dots> \<le> c / a * (1 + 4 * eps)"
  proof -
    have "(1 + eps) / (1 - eps) \<le> 1 + 4 * eps" using e sq by (simp add: divide_le_eq algebra_simps)
    then have "c / a * ((1 + eps) / (1 - eps)) \<le> c / a * (1 + 4 * eps)" using ca by (rule mult_left_mono)
    then show ?thesis by simp
  qed
  finally show "dbl (c / dbl a) \<le> c / a * (1 + 4 * eps)" .
qed

text \<open>A rounded ratio passes a rounded threshold when the exact one does, away from the threshold.\<close>

lemma threshold_decides:
  assumes r: "x * (1 - 4 * eps) \<le> r" "r \<le> x * (1 + 4 * eps)" and x: "0 \<le> x"
    and t: "0 < t" "t * (1 - eps) \<le> t'" "t' \<le> t * (1 + eps)" and far: "8 * eps * t < \<bar>x - t\<bar>"
  shows "t' \<le> r \<longleftrightarrow> t \<le> x"
proof -
  note e = eps_bounds
  have te: "0 < t * eps" "t * (eps * eps) \<le> t * (eps * (1 / 100))" "0 \<le> t * (eps * eps)"
    using t e by (simp, intro mult_left_mono, simp_all)
  show ?thesis
  proof (cases "t \<le> x")
    case True
    then have "t * (1 + 8 * eps) \<le> x" using far by (simp add: algebra_simps)
    then have "t * (1 + 8 * eps) * (1 - 4 * eps) \<le> x * (1 - 4 * eps)"
      using e by (intro mult_right_mono) simp_all
    moreover have "t * (1 + eps) \<le> t * (1 + 8 * eps) * (1 - 4 * eps)"
      using te by (simp add: algebra_simps)
    ultimately show ?thesis using r t True by linarith
  next
    case False
    then have "x \<le> t * (1 - 8 * eps)" using far by (simp add: algebra_simps)
    then have "x * (1 + 4 * eps) \<le> t * (1 - 8 * eps) * (1 + 4 * eps)"
      using e by (intro mult_right_mono) simp_all
    moreover have "t * (1 - 8 * eps) * (1 + 4 * eps) < t * (1 - eps)"
      using te by (simp add: algebra_simps)
    ultimately show ?thesis using r t False by linarith
  qed
qed

section \<open>Severity\<close>

lemma dbl_threshold: "0 < t \<Longrightarrow> t * (1 - eps) \<le> dbl t" "0 < t \<Longrightarrow> dbl t \<le> t * (1 + eps)"
  using dbl_between [of t] by simp_all

lemma watcher_thresholds:
  "windowSize output_watcher = 30" "ratioRegular output_watcher = dbl (6 / 5)"
  "ratioMedia output_watcher = dbl (3 / 2)" "ratioAlta output_watcher = dbl 2"
  using dbl_of_int [of 2] by (simp_all add: output_watcher_def)

lemma thresholds_output_watcher: "thresholds_ok output_watcher"
  using dbl_threshold [of "6 / 5"] dbl_threshold [of "3 / 2"] dbl_threshold [of 2] eps_bounds
  by (simp add: thresholds_ok_def watcher_thresholds)

text \<open>Samples that are sizes or counts, and whose sums are exact.\<close>

definition sane :: "jlong list \<Rightarrow> bool" where
  "sane vs \<longleftrightarrow> (\<forall>v \<in> set vs. 0 \<le> sint v \<and> sint v < 2 ^ 48)"

lemma sint_sum_list:
  fixes vs :: "jlong list"
  assumes "\<forall>v \<in> set vs. 0 \<le> sint v \<and> sint v < 2 ^ 48" and "length vs \<le> 2 ^ 5"
  shows "sint (sum_list vs) = (\<Sum>v\<leftarrow>vs. sint v)" "0 \<le> (\<Sum>v\<leftarrow>vs. sint v)"
    "(\<Sum>v\<leftarrow>vs. sint v) \<le> 2 ^ 53"
proof -
  have b: "0 \<le> (\<Sum>v\<leftarrow>vs. sint v) \<and> (\<Sum>v\<leftarrow>vs. sint v) \<le> int (length vs) * 2 ^ 48"
    using assms(1) by (induction vs) (auto simp: algebra_simps)
  moreover have "int (length vs) * 2 ^ 48 \<le> 2 ^ 5 * 2 ^ 48" using assms(2) by (intro mult_right_mono) simp_all
  ultimately show n: "0 \<le> (\<Sum>v\<leftarrow>vs. sint v)" "(\<Sum>v\<leftarrow>vs. sint v) \<le> 2 ^ 53" by simp_all
  have "sum_list vs = word_of_int (\<Sum>v\<leftarrow>vs. sint v)" by (induction vs) simp_all
  then show "sint (sum_list vs) = (\<Sum>v\<leftarrow>vs. sint v)"
    using n by (simp only:) (intro sint_word_of_int_fits; simp)
qed

lemma lastn_eq_Nil [simp]: "lastn n xs = [] \<longleftrightarrow> n = 0 \<or> xs = []"
  by (auto simp: min_def simp flip: length_0_conv)

text \<open>The exact ratio of a value to the average of samples.\<close>

definition exact_ratio :: "jlong list \<Rightarrow> jlong \<Rightarrow> rat" where
  "exact_ratio vs current = of_int (sint current) / (of_int (\<Sum>v\<leftarrow>vs. sint v) / of_nat (length vs))"

definition severity_of :: "rat \<Rightarrow> string option" where
  "severity_of x = (if x \<ge> 2 then Some ''alta'' else if x \<ge> 3 / 2 then Some ''media''
     else if x \<ge> 6 / 5 then Some ''regular'' else None)"

lemma stats_of_samples_average:
  assumes "sane (lastn 30 vs)" and "vs \<noteq> []"
  shows "average (stats_of_samples 30 vs) =
    dbl (of_int (\<Sum>v\<leftarrow>lastn 30 vs. sint v) / of_nat (length (lastn 30 vs)))"
proof -
  have l: "length (lastn 30 vs) \<le> 2 ^ 5" by simp
  note s = sint_sum_list [OF assms(1) [unfolded sane_def] l]
  have "dbl (of_int (\<Sum>v\<leftarrow>lastn 30 vs. sint v)) = of_int (\<Sum>v\<leftarrow>lastn 30 vs. sint v)"
    using s by (intro dbl_of_int) simp
  moreover have "lastn 30 vs \<noteq> []" using assms(2) by simp
  ultimately show ?thesis using s(1) by (simp add: average_def stats_of_samples_def del: of_int_sint)
qed

lemma ratio_between:
  assumes s: "sane (lastn 30 vs)" and vs: "vs \<noteq> []" "0 < (\<Sum>v\<leftarrow>lastn 30 vs. sint v)"
    and c: "0 \<le> sint current" "sint current \<le> 2 ^ 53"
  shows "exact_ratio (lastn 30 vs) current * (1 - 4 * eps) \<le> ratio current (stats_of_samples 30 vs)"
    "ratio current (stats_of_samples 30 vs) \<le> exact_ratio (lastn 30 vs) current * (1 + 4 * eps)"
    "0 < average (stats_of_samples 30 vs)"
proof -
  define A :: rat where "A = of_int (\<Sum>v\<leftarrow>lastn 30 vs. sint v) / of_nat (length (lastn 30 vs))"
  have "lastn 30 vs \<noteq> []" using vs(1) by simp
  moreover have "0 < (of_int (\<Sum>v\<leftarrow>lastn 30 vs. sint v) :: rat)" using vs(2) by (simp only: of_int_0_less_iff)
  ultimately have A: "0 < A" unfolding A_def by (intro divide_pos_pos) simp_all
  have a: "average (stats_of_samples 30 vs) = dbl A" unfolding A_def by (rule stats_of_samples_average [OF s vs(1)])
  have "dbl (of_int (sint current)) = of_int (sint current)" using c by (intro dbl_of_int) simp
  then have r: "ratio current (stats_of_samples 30 vs) = dbl (of_int (sint current) / dbl A)"
    by (simp add: ratio_def a)
  have "0 \<le> (of_int (sint current) :: rat)" using c(1) by (simp only: of_int_0_le_iff)
  then show "exact_ratio (lastn 30 vs) current * (1 - 4 * eps) \<le> ratio current (stats_of_samples 30 vs)"
    "ratio current (stats_of_samples 30 vs) \<le> exact_ratio (lastn 30 vs) current * (1 + 4 * eps)"
    using quotient_between [OF _ A] unfolding r exact_ratio_def A_def [symmetric] by blast+
  have "0 < A * (1 - eps)" using A eps_bounds by simp
  then show "0 < average (stats_of_samples 30 vs)" using dbl_between(1) [of A] A a by simp
qed

lemma severity_decided:
  assumes "sane (lastn 30 vs)" and "3 \<le> length vs" and "0 < (\<Sum>v\<leftarrow>lastn 30 vs. sint v)"
    and "0 \<le> sint current" and "sint current \<le> 2 ^ 53"
    and far: "\<And>t. t \<in> {6 / 5, 3 / 2, 2} \<Longrightarrow> 8 * eps * t < \<bar>exact_ratio (lastn 30 vs) current - t\<bar>"
  shows "map severidade (verdict output_watcher label (stats_of_samples 30 vs) current) =
    (case severity_of (exact_ratio (lastn 30 vs) current) of None \<Rightarrow> [] | Some s \<Rightarrow> [s])"
proof -
  define x where "x = exact_ratio (lastn 30 vs) current"
  define r where "r = ratio current (stats_of_samples 30 vs)"
  have ne: "vs \<noteq> []" using assms(2) by auto
  note b = ratio_between [OF assms(1) ne assms(3-5), folded x_def r_def]
  have "0 \<le> (of_int (sint current) :: rat)" using assms(4) by (simp only: of_int_0_le_iff)
  moreover have "0 < (of_int (\<Sum>v\<leftarrow>lastn 30 vs. sint v) :: rat)" using assms(3) by (simp only: of_int_0_less_iff)
  ultimately have x: "0 \<le> x" unfolding x_def exact_ratio_def by (intro divide_nonneg_nonneg) simp_all
  have t: "dbl t \<le> r \<longleftrightarrow> t \<le> x" if "t \<in> {6 / 5, 3 / 2, 2}" for t
    using that far [OF that] dbl_threshold [of t] by (intro threshold_decides [OF b(1,2) x]) (auto simp: x_def)
  have "stats_size (stats_of_samples 30 vs) \<ge> 3" using assms(2) by (simp add: stats_size_def stats_of_samples_def)
  then show ?thesis
    using b(3) t [of "6 / 5"] t [of "3 / 2"] t [of 2]
    by (auto simp: verdict_def watcher_thresholds severity_of_def r_def [symmetric] x_def [symmetric])
qed

section \<open>The percentage\<close>

lemma ucast_word_of_int: "ucast (word_of_int k :: jlong) = (word_of_int k :: jint)"
  by (simp add: ucast_down_wi is_down)

section \<open>Properties\<close>

text \<open>
  Adding values to a new \<open>RollingStats\<close> of a non-negative size never throws; it holds the last
  values in order, at most its size, and its running sum is the sum of these, modulo \<open>2\<^sup>6\<^sup>4\<close>.
\<close>

theorem rolling_stats_keep_last:
  assumes "0 \<le> sint n"
  shows "\<exists>st. fold (\<lambda>v r. attempt r (add_value v)) vs (Inr (new_RollingStats n)) = Inr st \<and>
    valuesJ st = lastn (nat (sint n)) vs \<and> sumJ st = sum_list (lastn (nat (sint n)) vs) \<and>
    stats_size st \<le> nat (sint n)"
proof -
  have s: "stats_ok n (fold pushed vs (new_RollingStats n))" for vs
    by (rule rolling.invar_pushes [OF new_stats_ok [OF assms]])
  have "fold (\<lambda>v r. attempt r (add_value v)) vs (Inr (new_RollingStats n)) = Inr (fold pushed vs (new_RollingStats n))"
    by (induction vs rule: rev_induct) (simp_all add: add_value_pushed [OF s])
  moreover have "valuesJ (fold pushed vs (new_RollingStats n)) = lastn (nat (sint n)) vs"
    using rolling.contents_pushes [OF new_stats_ok [OF assms], of vs] by (simp add: new_RollingStats_def)
  ultimately show ?thesis using s [of vs] by (auto simp: stats_ok_def stats_size_def)
qed

theorem rolling_stats_keep_last_witness:
  "\<exists>st. fold (\<lambda>v r. attempt r (add_value v)) [4, 5, 6] (Inr (new_RollingStats 2)) = Inr st \<and>
     valuesJ st = [5, 6] \<and> sumJ st = 11"
  using rolling_stats_keep_last [of 2 "[4, 5, 6]"] by (auto simp: lastn_def)

text \<open>
  C6: the stream of OutputWatcher.java is a function of the history: whatever the messages, its
  warnings are those each parsed aggregate gets when its three metrics are judged against the last 30
  values of the same metric in the aggregates before it under the same key, never including its own.
  Messages that do not parse change nothing, and the stores hold the last 30 values of every key.
\<close>

theorem watch_refines:
  "\<exists>st. watch fromJson output_watcher msgs empty_stores = (emitted output_watcher (parsed_aggregates fromJson msgs), st) \<and>
    (\<forall>k. valuesJ (load_stats output_watcher (inboundStore st) k) = lastn 30 (samples bytes_inbound (parsed_aggregates fromJson msgs) k) \<and>
      valuesJ (load_stats output_watcher (outboundStore st) k) = lastn 30 (samples bytes_outbound (parsed_aggregates fromJson msgs) k) \<and>
      valuesJ (load_stats output_watcher (flowsStore st) k) =
        lastn 30 (samples (\<lambda>a. widen (unique_flow_count a)) (parsed_aggregates fromJson msgs) k))"
proof -
  obtain st where "watch fromJson output_watcher msgs empty_stores = (emitted output_watcher (parsed_aggregates fromJson msgs), st)"
    "stores_hold output_watcher st (parsed_aggregates fromJson msgs)"
    using watch_emitted [OF thresholds_output_watcher] by blast
  then show ?thesis
    by (simp add: stores_hold_def holds_history_def watcher_thresholds(1) stats_of_samples_def)
qed

lemma stats_ok_samples: "stats_ok 30 st \<Longrightarrow> st = stats_of_samples 30 (valuesJ st)"
  by (cases st) (simp add: stats_ok_def stats_of_samples_def)

lemma check_known:
  assumes "store k = Some st" and "stats_ok 30 st"
  shows "\<exists>store'. check output_watcher store k current label =
    Inr (verdict output_watcher label (stats_of_samples 30 (valuesJ st)) current, store')"
proof -
  define store' where "store' = store(k \<mapsto> pushed current st)"
  have "load_stats output_watcher store k = st" using assms(1) by (simp add: load_stats_def)
  then have "check output_watcher store k current label = Inr (verdict output_watcher label st current, store')"
    using add_value_pushed [OF assms(2)] thresholds_output_watcher
    by (auto simp: check_def Let_def verdict_def store'_def thresholds_ok_def not_less not_le)
  then show ?thesis using stats_ok_samples [OF assms(2)] by auto
qed

text \<open>
  C12: the severity of a warning is right for volumes in range.  The statistic of the key has at least
  three and at most 30 samples, each from 0 to below \<open>2\<^sup>4\<^sup>8\<close> and not all zero, with their sum, as every
  statistic built by \<open>add\<close> from such samples has (\<open>stats_ok\<close>, \<open>sane\<close>); the value is from 0 to \<open>2\<^sup>5\<^sup>3\<close>.
  Then the check of a metric reports a value of twice the average of the samples as \<^emph>\<open>alta\<close>, of one and
  a half times as \<^emph>\<open>media\<close>, of 1.2 times as \<^emph>\<open>regular\<close>, and less not at all, by the exact ratio, unless
  the ratio is within \<open>t / 2\<^sup>5\<^sup>0\<close> of one of these thresholds \<open>t\<close>, where the rounding of \<open>double\<close> may decide.
\<close>

theorem severity_accurate:
  assumes "store k = Some st" and "stats_ok 30 st" and "sane (valuesJ st)" and "3 \<le> stats_size st"
    and "0 < (\<Sum>v\<leftarrow>valuesJ st. sint v)" and "0 \<le> sint current" and "sint current \<le> 2 ^ 53"
    and "\<forall>t \<in> {6 / 5, 3 / 2, 2}. t / 2 ^ 50 < \<bar>exact_ratio (valuesJ st) current - t\<bar>"
  shows "\<exists>ws store'. check output_watcher store k current label = Inr (ws, store') \<and>
    map severidade ws =
      (if exact_ratio (valuesJ st) current \<ge> 2 then [''alta'']
       else if exact_ratio (valuesJ st) current \<ge> 3 / 2 then [''media'']
       else if exact_ratio (valuesJ st) current \<ge> 6 / 5 then [''regular''] else [])"
proof -
  have l: "lastn 30 (valuesJ st) = valuesJ st" using assms(2) by (simp add: stats_ok_def)
  have "8 * eps * t < \<bar>exact_ratio (valuesJ st) current - t\<bar>" if "t \<in> {6 / 5, 3 / 2, 2}" for t
  proof -
    have "8 * eps * t = t / 2 ^ 50" by (simp add: eps_def)
    then show ?thesis using bspec [OF assms(8) that] by (simp only:)
  qed
  then have "map severidade (verdict output_watcher label (stats_of_samples 30 (valuesJ st)) current) =
      (case severity_of (exact_ratio (valuesJ st) current) of None \<Rightarrow> [] | Some s \<Rightarrow> [s])"
    using severity_decided [of "valuesJ st" current label, unfolded l] assms(3-7) by (simp only: stats_size_def)
  then show ?thesis using check_known [of store k st current label, OF assms(1,2)] by (auto simp: severity_of_def)
qed

theorem severity_accurate_witness:
  "\<exists>ws store'. check output_watcher [''k'' \<mapsto> \<lparr>valuesJ = [100, 90, 110], maxSize = 30, sumJ = 300\<rparr>] ''k'' 170 label_inbound =
     Inr (ws, store') \<and> map severidade ws = [''media'']"
proof -
  define st :: RollingStats where "st = \<lparr>valuesJ = [100, 90, 110], maxSize = 30, sumJ = 300\<rparr>"
  have r: "exact_ratio (valuesJ st) 170 = 17 / 10" by (simp add: exact_ratio_def st_def)
  have "\<exists>ws store'. check output_watcher [''k'' \<mapsto> st] ''k'' 170 label_inbound = Inr (ws, store') \<and>
    map severidade ws =
      (if exact_ratio (valuesJ st) 170 \<ge> 2 then [''alta'']
       else if exact_ratio (valuesJ st) 170 \<ge> 3 / 2 then [''media'']
       else if exact_ratio (valuesJ st) 170 \<ge> 6 / 5 then [''regular''] else [])"
    by (rule severity_accurate) (simp_all add: r, simp_all add: st_def stats_ok_def sane_def stats_size_def)
  then show ?thesis by (simp add: r flip: st_def)
qed

text \<open>
  The detector stays silent without a usable history: with fewer than three earlier samples, or
  when they are all zero, no value raises a warning.
\<close>

theorem silent_without_history:
  assumes "length vs < 3 \<or> (\<forall>v \<in> set (lastn 30 vs). v = 0)"
  shows "verdict output_watcher label (stats_of_samples 30 vs) current = []"
  using assms
proof
  assume "length vs < 3"
  then show ?thesis by (simp add: verdict_def stats_size_def stats_of_samples_def)
next
  assume z: "\<forall>v \<in> set (lastn 30 vs). v = 0"
  have "sum_list ws = 0" if "\<forall>v \<in> set ws. v = 0" for ws :: "jlong list"
    using that by (induction ws) simp_all
  then have "sum_list (lastn 30 vs) = 0" using z by blast
  then have "average (stats_of_samples 30 vs) = 0"
    by (simp add: average_def stats_of_samples_def dbl_def)
  then show ?thesis by (simp add: verdict_def)
qed

theorem silent_without_history_witness:
  "verdict output_watcher label_inbound (stats_of_samples 30 [0, 0, 0, 0]) 1000000 = []"
  by (rule silent_without_history) (simp add: lastn_def)

text \<open>
  The percentage in the text of a warning is cast to \<open>int\<close>: it is the rounded percentage exactly
  while that is below \<open>2\<^sup>3\<^sup>1\<close>, and some other number, possibly negative, for larger increases.
\<close>

theorem percentage_correct_iff:
  assumes "0 \<le> \<lfloor>dbl (dbl (r - 1) * 100) + 1 / 2\<rfloor>"
  shows "sint (percent_above r) = \<lfloor>dbl (dbl (r - 1) * 100) + 1 / 2\<rfloor> \<longleftrightarrow>
    \<lfloor>dbl (dbl (r - 1) * 100) + 1 / 2\<rfloor> < 2 ^ 31"
proof -
  define p where "p = \<lfloor>dbl (dbl (r - 1) * 100) + 1 / 2\<rfloor>"
  have e: "percent_above r = word_of_int (max (- (2 ^ 63)) (min (2 ^ 63 - 1) p))"
    by (simp only: percent_above_def math_round_def ucast_word_of_int p_def)
  have "sint (percent_above r) = p" if "p < 2 ^ 31"
    using that assms unfolding e p_def [symmetric] by (subst sint_word_of_int_fits) simp_all
  moreover have "sint (percent_above r) < 2 ^ 31"
    using sint_bounds(2) [of "percent_above r"] by simp
  ultimately show ?thesis unfolding p_def [symmetric] by linarith
qed

theorem percentage_correct_iff_witness:
  "ratio 50000000 (stats_of_samples 30 (60 # replicate 29 0)) = 25000000 \<and>
   sint (percent_above 25000000) \<noteq> 2499999900 \<and> sint (percent_above 25000000) < 0"
proof -
  have d: "dbl (of_int n) = of_int n" if "\<bar>n\<bar> \<le> 2 ^ 53" for n using that by (rule dbl_of_int)
  have n: "dbl (24999999::rat) = 24999999" "dbl (2499999900::rat) = 2499999900" "dbl (60::rat) = 60" "dbl (2::rat) = 2"
    "dbl (50000000::rat) = 50000000" "dbl (25000000::rat) = 25000000"
    using d [of 24999999] d [of 2499999900] d [of 60] d [of 2] d [of 50000000] d [of 25000000] by simp_all
  have p: "dbl (dbl (25000000 - 1) * 100) = 2499999900" by (simp add: n)
  have f: "\<lfloor>(2499999900::rat) + 1 / 2\<rfloor> = 2499999900" by (simp add: floor_unique)
  have "sum_list (60 # replicate 29 (0::jlong)) = 60" by (simp add: sum_list_replicate)
  then have "average (stats_of_samples 30 (60 # replicate 29 0)) = 2"
    by (simp add: average_def stats_of_samples_def lastn_def n)
  then have r: "ratio 50000000 (stats_of_samples 30 (60 # replicate 29 0)) = 25000000" by (simp add: ratio_def n)
  have "sint (percent_above 25000000) \<noteq> 2499999900"
    using percentage_correct_iff [of 25000000] unfolding p f by simp
  moreover have "percent_above 25000000 = word_of_int 2499999900"
    unfolding percent_above_def p math_round_def f ucast_word_of_int by simp
  ultimately show ?thesis using r by simp
qed

end
