(* ===== verification/Java_Notifier.thy ===== *)
theory Java_Notifier
  imports Detector_Props
begin

text \<open>
  The popups: the alert viewer (kafkatch-alert-viewer, Notifier.java and App.java), and the deprecated
  notifier with fixed limits (kafkatch-notification, Notifier.java).  The popup library is not part of
  the repository: the calls to \<open>Toast.toast\<close> are recorded.
\<close>

section \<open>The alert viewer\<close>

datatype ToastType = INFO | WARNING | ERROR

type_synonym toast = "ToastType \<times> string \<times> string option"

text \<open>\<open>toLowerCase\<close> on the letters the names of the severities are made of.\<close>

definition to_lower :: "string \<Rightarrow> string" where
  "to_lower s = map (\<lambda>c. if 65 \<le> (of_char c :: nat) \<and> (of_char c :: nat) \<le> 90 then char_of ((of_char c :: nat) + 32) else c) s"

definition toastTypeFor :: "string option \<Rightarrow> ToastType" where
  "toastTypeFor sev =
     (case sev of None \<Rightarrow> INFO
      | Some s \<Rightarrow> if to_lower s = ''alta'' then ERROR else if to_lower s = ''media'' then WARNING
          else if to_lower s = ''regular'' then INFO else INFO)"

text \<open>A received warning: its two strings, either of which may be \<open>null\<close>.\<close>

type_synonym received_warning = "string option \<times> string option"

definition notify :: "received_warning \<Rightarrow> toast" where
  "notify w = (case w of (sev, descr) \<Rightarrow>
     (toastTypeFor sev,
      ''Alerta de rede ['' @ (case sev of None \<Rightarrow> ''null'' | Some s \<Rightarrow> s) @ '']'', descr))"

text \<open>
  The records of a poll: a \<open>null\<close> is skipped, and a popup that fails, as \<open>toast_ok\<close> tells, is logged
  and does not stop the others.  The result lists the popups shown.
\<close>

definition view_records :: "(toast \<Rightarrow> bool) \<Rightarrow> received_warning option list \<Rightarrow> toast list" where
  "view_records toast_ok records =
     concat (map (\<lambda>r. case r of None \<Rightarrow> [] | Some w \<Rightarrow> if toast_ok (notify w) then [notify w] else []) records)"

section \<open>The notifier with fixed limits\<close>

record Notifier =
  aggregate_sample :: "AggregatedFlow list"
  sample_max_size :: jint
  bytes_inbound_sum :: jlong
  bytes_inbound_record :: jlong
  bytes_outbound_sum :: jlong
  bytes_outbound_record :: jlong
  unique_flow_sum :: jint
  unique_flow_record :: jint
  bytes_inbound_limit :: jlong
  bytes_outbound_limit :: jlong
  unique_flow_limit :: jint

definition new_Notifier :: "jint \<Rightarrow> jlong \<Rightarrow> jlong \<Rightarrow> jint \<Rightarrow> Notifier" where
  "new_Notifier max_size in_limit out_limit flow_limit =
     \<lparr>aggregate_sample = [], sample_max_size = max_size,
      bytes_inbound_sum = 0, bytes_inbound_record = - 1, bytes_outbound_sum = 0, bytes_outbound_record = - 1,
      unique_flow_sum = 0, unique_flow_record = - 1,
      bytes_inbound_limit = in_limit, bytes_outbound_limit = out_limit, unique_flow_limit = flow_limit\<rparr>"

text \<open>The larger of a record and a new value, as signed integers.\<close>

definition beat :: "('a::len) word \<Rightarrow> 'a word \<Rightarrow> 'a word" where
  "beat v r = (if sint v > sint r then v else r)"

definition updateRecords :: "Notifier \<Rightarrow> Notifier" where
  "updateRecords n = n
     \<lparr>bytes_inbound_record := fold (\<lambda>a. beat (bytes_inbound a)) (aggregate_sample n) (- 1),
      bytes_outbound_record := fold (\<lambda>a. beat (bytes_outbound a)) (aggregate_sample n) (- 1),
      unique_flow_record := fold (\<lambda>a. beat (unique_flow_count a)) (aggregate_sample n) (- 1)\<rparr>"

definition insert_sample :: "AggregatedFlow \<Rightarrow> Notifier \<Rightarrow> Notifier" where
  "insert_sample a n = n
     \<lparr>aggregate_sample := aggregate_sample n @ [a],
      bytes_inbound_record := beat (bytes_inbound a) (bytes_inbound_record n),
      bytes_outbound_record := beat (bytes_outbound a) (bytes_outbound_record n),
      unique_flow_record := beat (unique_flow_count a) (unique_flow_record n),
      bytes_inbound_sum := bytes_inbound_sum n + bytes_inbound a,
      bytes_outbound_sum := bytes_outbound_sum n + bytes_outbound a,
      unique_flow_sum := unique_flow_sum n + unique_flow_count a\<rparr>"

definition remove_sample :: "Notifier \<Rightarrow> Notifier" where
  "remove_sample n =
     (case aggregate_sample n of [] \<Rightarrow> n
      | oldest # rest \<Rightarrow>
          let n = n\<lparr>aggregate_sample := rest\<rparr>;
              n = (if sint (bytes_inbound oldest) \<ge> sint (bytes_inbound_record n) \<or>
                      sint (bytes_outbound oldest) \<ge> sint (bytes_outbound_record n) \<or>
                      sint (unique_flow_count oldest) \<ge> sint (unique_flow_record n)
                   then updateRecords n else n)
          in n\<lparr>bytes_inbound_sum := bytes_inbound_sum n + - bytes_inbound oldest,
               bytes_outbound_sum := bytes_outbound_sum n + - bytes_outbound oldest,
               unique_flow_sum := unique_flow_sum n + - unique_flow_count oldest\<rparr>)"

definition addAggregate_sample :: "AggregatedFlow \<Rightarrow> Notifier \<Rightarrow> Notifier" where
  "addAggregate_sample newest n =
     (let n = insert_sample newest n in
      if int (length (aggregate_sample n)) > sint (sample_max_size n) then remove_sample n else n)"

text \<open>The popups of the last sample; without a sample \<open>get\<close> throws.\<close>

definition checkForAnomalies :: "Notifier \<Rightarrow> toast list jresult" where
  "checkForAnomalies n =
     (if aggregate_sample n = [] then Inl IndexOutOfBoundsException
      else let a = last (aggregate_sample n);
               head = ''O '' @ [CHR 0xC3, CHR 0xBA] @ ''ltimo agregado registrou '' in
        Inr ((if sint (bytes_inbound a) > sint (bytes_inbound_limit n)
              then [(WARNING, ''Alerta de bytes recebidos'', Some (head @ int_string (bytes_inbound a) @ '' bytes recebidos''))]
              else []) @
             (if sint (bytes_outbound a) > sint (bytes_outbound_limit n)
              then [(WARNING, ''Alerta de bytes enviados'', Some (head @ int_string (bytes_outbound a) @ '' bytes enviados''))]
              else []) @
             (if sint (unique_flow_count a) > sint (unique_flow_limit n)
              then [(WARNING, ''Alerta de n'' @ [CHR 0xC3, CHR 0xBA] @ ''mero de conex'' @ [CHR 0xC3, CHR 0xB5] @ ''es'',
                     Some (head @ int_string (unique_flow_count a) @ '' conex'' @ [CHR 0xC3, CHR 0xB5] @ ''es''))]
              else [])))"

section \<open>The records are the maxima\<close>

lemma sint_beat: "sint (beat v r) = max (sint v) (sint r)"
  by (simp add: beat_def max_def)

lemma sint_fold_beat: "sint (fold (\<lambda>a. beat (g a)) xs r) = fold (\<lambda>a. max (sint (g a))) xs (sint r)"
  by (induction xs arbitrary: r) (simp_all add: sint_beat)

lemma fold_max_start: "fold (\<lambda>a. max (f a)) xs (max y r) = max y (fold (\<lambda>a. max (f a)) xs (r :: int))"
  by (induction xs arbitrary: r) (simp_all add: max.left_commute)

lemma fold_beat_remove:
  assumes "sint (g x) < sint (fold (\<lambda>a. beat (g a)) (x # xs) r)"
  shows "fold (\<lambda>a. beat (g a)) (x # xs) r = fold (\<lambda>a. beat (g a)) xs r"
proof -
  define m where "m = fold (\<lambda>a. max (sint (g a))) xs (sint r)"
  have s: "sint (fold (\<lambda>a. beat (g a)) (x # xs) r) = max (sint (g x)) m"
    by (simp add: sint_fold_beat sint_beat fold_max_start m_def)
  then have "sint (fold (\<lambda>a. beat (g a)) (x # xs) r) = m" using assms by simp
  then have "sint (fold (\<lambda>a. beat (g a)) (x # xs) r) = sint (fold (\<lambda>a. beat (g a)) xs r)"
    by (simp add: sint_fold_beat m_def)
  then show ?thesis by (rule signed_word_eqI)
qed

definition notifier_ok :: "Notifier \<Rightarrow> bool" where
  "notifier_ok n \<longleftrightarrow>
     bytes_inbound_sum n = (\<Sum>a\<leftarrow>aggregate_sample n. bytes_inbound a) \<and>
     bytes_outbound_sum n = (\<Sum>a\<leftarrow>aggregate_sample n. bytes_outbound a) \<and>
     unique_flow_sum n = (\<Sum>a\<leftarrow>aggregate_sample n. unique_flow_count a) \<and>
     bytes_inbound_record n = fold (\<lambda>a. beat (bytes_inbound a)) (aggregate_sample n) (- 1) \<and>
     bytes_outbound_record n = fold (\<lambda>a. beat (bytes_outbound a)) (aggregate_sample n) (- 1) \<and>
     unique_flow_record n = fold (\<lambda>a. beat (unique_flow_count a)) (aggregate_sample n) (- 1)"

lemma insert_sample_ok: "notifier_ok n \<Longrightarrow> notifier_ok (insert_sample a n)"
  by (simp add: notifier_ok_def insert_sample_def)

lemma remove_sample_ok: "notifier_ok n \<Longrightarrow> notifier_ok (remove_sample n)"
proof (cases "aggregate_sample n")
  case Nil
  then show "notifier_ok n \<Longrightarrow> ?thesis" by (simp add: remove_sample_def)
next
  case (Cons x rest)
  assume n: "notifier_ok n"
  show ?thesis
    using n fold_beat_remove [of bytes_inbound x rest "- 1"] fold_beat_remove [of bytes_outbound x rest "- 1"]
      fold_beat_remove [of unique_flow_count x rest "- 1"]
    by (auto simp: notifier_ok_def remove_sample_def updateRecords_def Cons Let_def not_le simp del: fold.simps)
qed

lemma addAggregate_sample_ok: "notifier_ok n \<Longrightarrow> notifier_ok (addAggregate_sample a n)"
  by (simp add: addAggregate_sample_def Let_def insert_sample_ok remove_sample_ok)

text \<open>The notifier is a window of samples with its statistics.\<close>

definition notifier_inv :: "jint \<Rightarrow> Notifier \<Rightarrow> bool" where
  "notifier_inv m n \<longleftrightarrow> notifier_ok n \<and> sample_max_size n = m \<and> 0 \<le> sint m \<and>
     length (aggregate_sample n) \<le> nat (sint m)"

lemma insert_sample_simps [simp]:
  "aggregate_sample (insert_sample a n) = aggregate_sample n @ [a]"
  "sample_max_size (insert_sample a n) = sample_max_size n"
  by (simp_all add: insert_sample_def)

lemma remove_sample_simps [simp]:
  "aggregate_sample (remove_sample n) = tl (aggregate_sample n)"
  "sample_max_size (remove_sample n) = sample_max_size n"
  by (simp_all add: remove_sample_def updateRecords_def Let_def split: list.split)

lemma addAggregate_sample_window:
  assumes "notifier_inv m n"
  shows "aggregate_sample (addAggregate_sample a n) = lastn (nat (sint m)) (aggregate_sample n @ [a])"
proof (cases "int (length (aggregate_sample n)) + 1 > sint m")
  case True
  then have "length (aggregate_sample n @ [a]) - nat (sint m) = 1"
    using assms by (auto simp: notifier_inv_def)
  then have "lastn (nat (sint m)) (aggregate_sample n @ [a]) = tl (aggregate_sample n @ [a])"
    by (simp only: lastn_def) (simp only: One_nat_def drop_Suc drop_0)
  then show ?thesis using True assms by (simp add: addAggregate_sample_def Let_def notifier_inv_def)
next
  case False
  then show ?thesis using assms by (simp add: addAggregate_sample_def Let_def notifier_inv_def)
qed

interpretation limited: sample_window addAggregate_sample aggregate_sample "nat (sint m)" "notifier_inv m"
proof unfold_locales
  fix n x
  assume n: "notifier_inv m n"
  show "aggregate_sample (addAggregate_sample x n) = lastn (nat (sint m)) (aggregate_sample n @ [x])"
    by (rule addAggregate_sample_window [OF n])
  then show "notifier_inv m (addAggregate_sample x n)"
    using n addAggregate_sample_ok [of n x]
    by (simp add: notifier_inv_def) (simp add: addAggregate_sample_def Let_def)
qed (simp add: notifier_inv_def)

lemma new_Notifier_inv: "0 \<le> sint m \<Longrightarrow> notifier_inv m (new_Notifier m li lo lf)"
  by (simp add: notifier_inv_def notifier_ok_def new_Notifier_def)

section \<open>Properties\<close>

lemma fold_max_Max: "fold (\<lambda>a. max (f a)) xs (r :: int) = Max (insert r (f ` set xs))"
proof (induction xs rule: rev_induct)
  case (snoc x xs)
  have "Max (insert (f x) (insert r (f ` set xs))) = max (f x) (Max (insert r (f ` set xs)))"
    by (rule Max_insert) simp_all
  then show ?case using snoc by (simp only: fold_append comp_apply fold_simps set_append image_Un) (simp add: insert_commute)
qed simp

text \<open>
  After any series of samples the notifier knows the last ones, at most its maximum, and of these
  the sums (as machine integers) and the largest values of the three metrics, -1 where there is
  none: removing the oldest sample never leaves a stale record.
\<close>

theorem notifier_keeps_records:
  assumes "0 \<le> sint max_size"
  shows "\<exists>n. fold addAggregate_sample as (new_Notifier max_size li lo lf) = n \<and>
    aggregate_sample n = lastn (nat (sint max_size)) as \<and>
    bytes_inbound_sum n = (\<Sum>a\<leftarrow>aggregate_sample n. bytes_inbound a) \<and>
    bytes_outbound_sum n = (\<Sum>a\<leftarrow>aggregate_sample n. bytes_outbound a) \<and>
    sint (bytes_inbound_record n) = Max (insert (- 1) ((\<lambda>a. sint (bytes_inbound a)) ` set (aggregate_sample n))) \<and>
    sint (bytes_outbound_record n) = Max (insert (- 1) ((\<lambda>a. sint (bytes_outbound a)) ` set (aggregate_sample n))) \<and>
    sint (unique_flow_record n) = Max (insert (- 1) ((\<lambda>a. sint (unique_flow_count a)) ` set (aggregate_sample n)))"
proof -
  define n where "n = fold addAggregate_sample as (new_Notifier max_size li lo lf)"
  have "notifier_ok n" "aggregate_sample n = lastn (nat (sint max_size)) as"
    using limited.invar_pushes [OF new_Notifier_inv [OF assms], of as li lo lf]
      limited.contents_pushes [OF new_Notifier_inv [OF assms], of as li lo lf]
    by (simp_all add: n_def notifier_inv_def new_Notifier_def)
  then show ?thesis
    unfolding n_def [symmetric] by (simp add: notifier_ok_def sint_fold_beat fold_max_Max)
qed

theorem notifier_keeps_records_witness:
  "\<exists>n. fold addAggregate_sample
      [new_AggregatedFlow 0, (new_AggregatedFlow 1)\<lparr>bytes_inbound := 9\<rparr>, new_AggregatedFlow 2, new_AggregatedFlow 3]
      (new_Notifier 2 100 100 10) = n \<and>
     length (aggregate_sample n) = 2 \<and> sint (bytes_inbound_record n) = 0"
  using notifier_keeps_records [of 2 "[new_AggregatedFlow 0, (new_AggregatedFlow 1)\<lparr>bytes_inbound := 9\<rparr>, new_AggregatedFlow 2, new_AggregatedFlow 3]" 100 100 10]
  by (simp add: lastn_def new_AggregatedFlow_def)

text \<open>
  Every warning the detector emits is shown with the popup type of its severity: \<^emph>\<open>alta\<close> as an
  error, \<^emph>\<open>media\<close> as a warning, \<^emph>\<open>regular\<close> as information; no warning of the detector falls through to
  the default.
\<close>

theorem viewer_shows_severity:
  assumes "(k, w) \<in> set (fst (watch fromJson output_watcher msgs empty_stores))"
  shows "severidade w \<in> {''alta'', ''media'', ''regular''} \<and>
    fst (notify (Some (severidade w), Some (descricao w))) =
      (if severidade w = ''alta'' then ERROR else if severidade w = ''media'' then WARNING else INFO)"
proof -
  have "severidade w \<in> {''alta'', ''media'', ''regular''}" if "w \<in> set (verdict det l st c)" for w det l st c
    using that by (simp add: verdict_def split: if_splits)
  then have "set (emitted output_watcher ps) \<subseteq> {(k, w). severidade w \<in> {''alta'', ''media'', ''regular''}}" for ps
    unfolding emitted_def warnings_for_def Let_def by fastforce
  moreover have "(k, w) \<in> set (emitted output_watcher (parsed_aggregates fromJson msgs))"
    using watch_emitted [OF thresholds_output_watcher, of fromJson msgs] assms by auto
  ultimately have s: "severidade w \<in> {''alta'', ''media'', ''regular''}" by blast
  have "to_lower ''alta'' = ''alta''" "to_lower ''media'' = ''media''" "to_lower ''regular'' = ''regular''"
    by code_simp+
  then show ?thesis using s by (auto simp: notify_def toastTypeFor_def)
qed

text \<open>Three quiet windows and a loud one.\<close>

definition loud_messages :: "(string option \<times> AggregatedFlow) list" where
  "loud_messages = map (\<lambda>n. (Some ''global-key'', (new_AggregatedFlow 0)\<lparr>bytes_inbound := n\<rparr>)) [100, 100, 100, 250]"

lemma loud_warning:
  "\<exists>w. (Some ''global-key'', w) \<in> set (fst (watch (\<lambda>a. Inr (Some a)) output_watcher loud_messages empty_stores)) \<and>
     severidade w = ''alta''"
proof -
  define quiet where "quiet = (Some ''global-key'', (new_AggregatedFlow 0)\<lparr>bytes_inbound := 100\<rparr>)"
  define loud where "loud = (Some ''global-key'', (new_AggregatedFlow 0)\<lparr>bytes_inbound := 250\<rparr>)"
  have ps: "parsed_aggregates (\<lambda>a. Inr (Some a)) loud_messages = [quiet, quiet, quiet] @ [loud]"
    by (simp add: parsed_aggregates_def loud_messages_def quiet_def loud_def List.map_filter_simps)
  have r: "exact_ratio [100, 100, 100] 250 = 5 / 2" by (simp add: exact_ratio_def)
  have "map severidade (verdict output_watcher label_inbound (stats_of_samples 30 [100, 100, 100]) 250) =
      (case severity_of (exact_ratio (lastn 30 [100, 100, 100]) 250) of None \<Rightarrow> [] | Some s \<Rightarrow> [s])"
    by (rule severity_decided) (auto simp: sane_def r eps_def)
  then have "map severidade (verdict output_watcher label_inbound (stats_of_samples 30 [100, 100, 100]) 250) = [''alta'']"
    by (simp add: r severity_of_def)
  moreover have "samples bytes_inbound [quiet, quiet, quiet] (store_key (fst loud)) = [100, 100, 100]"
    by (simp add: samples_def quiet_def loud_def)
  then have "set (verdict output_watcher label_inbound (stats_of_samples 30 [100, 100, 100]) 250) \<subseteq>
      set (warnings_for output_watcher [quiet, quiet, quiet] loud)"
    by (simp add: warnings_for_def Let_def watcher_thresholds(1) loud_def)
  ultimately obtain w where w: "w \<in> set (warnings_for output_watcher [quiet, quiet, quiet] loud)" "severidade w = ''alta''"
    by (cases "verdict output_watcher label_inbound (stats_of_samples 30 [100, 100, 100]) 250") auto
  have "fst (watch (\<lambda>a. Inr (Some a)) output_watcher loud_messages empty_stores) = emitted output_watcher ([quiet, quiet, quiet] @ [loud])"
    using watch_emitted [OF thresholds_output_watcher, of "\<lambda>a. Inr (Some a)" loud_messages] unfolding ps by auto
  moreover have "(fst loud, w) \<in> set (emitted output_watcher ([quiet, quiet, quiet] @ [loud]))"
    unfolding emitted_snoc using w(1) by simp
  moreover have "fst loud = Some ''global-key''" by (simp add: loud_def)
  ultimately show ?thesis using w(2) by auto
qed

theorem viewer_shows_severity_witness:
  "\<exists>w::Warning. severidade w = ''alta'' \<and> fst (notify (Some (severidade w), Some (descricao w))) = ERROR"
proof -
  obtain w where w: "(Some ''global-key'', w) \<in> set (fst (watch (\<lambda>a. Inr (Some a)) output_watcher loud_messages empty_stores))"
    "severidade w = ''alta''" using loud_warning by blast
  from viewer_shows_severity [OF w(1)] w(2)
  have "severidade w = ''alta'' \<and> fst (notify (Some (severidade w), Some (descricao w))) = ERROR" by simp
  then show ?thesis by blast
qed


section \<open>The loop of the alert viewer\<close>

text \<open>
  The loop of main (App.java of kafkatch-alert-viewer), \<open>n\<close> iterations: \<open>poll\<close> gives the records of a
  batch or throws, and changes the state of the consumer; an exception is logged and the loop goes on.
\<close>

fun view_loop ::
  "('c \<Rightarrow> received_warning option list jresult \<times> 'c) \<Rightarrow> (toast \<Rightarrow> bool) \<Rightarrow> nat \<Rightarrow> 'c \<Rightarrow> toast list \<times> 'c" where
  "view_loop poll toast_ok 0 c = ([], c)"
| "view_loop poll toast_ok (Suc n) c =
     (case poll c of
        (Inl e, c') \<Rightarrow> view_loop poll toast_ok n c'
      | (Inr records, c') \<Rightarrow> apfst (append (view_records toast_ok records)) (view_loop poll toast_ok n c'))"

text \<open>
  What the documentation of the consumer says of \<open>poll\<close>, for the messages \<open>topic\<close> and the
  deserializer \<open>read\<close>: a batch holds the deserialized messages from the position on, and the position
  moves behind them; when a message cannot be deserialized, \<open>poll\<close> throws once the position has
  reached it and leaves the position there, until the client seeks past it.
\<close>

definition consumer_ok ::
  "('c \<Rightarrow> received_warning option list jresult \<times> 'c) \<Rightarrow> ('c \<Rightarrow> nat) \<Rightarrow>
   ('m \<Rightarrow> received_warning option jresult) \<Rightarrow> 'm list \<Rightarrow> bool" where
  "consumer_ok poll pos read topic \<longleftrightarrow>
     (\<forall>c c' e. poll c = (Inl e, c') \<longrightarrow> pos c' = pos c) \<and>
     (\<forall>c c' records. poll c = (Inr records, c') \<longrightarrow>
        pos c \<le> pos c' \<and> (pos c \<le> length topic \<longrightarrow> pos c' \<le> length topic) \<and>
        map read (drop (pos c) (take (pos c') topic)) = map Inr records)"

lemma view_records_append: "view_records toast_ok (rs @ rs') = view_records toast_ok rs @ view_records toast_ok rs'"
  by (simp add: view_records_def)

lemma drop_take_split:
  assumes "i \<le> j" and "j \<le> length xs" and "j \<le> k"
  shows "drop i (take k xs) = drop i (take j xs) @ drop j (take k xs)"
proof -
  have "take k xs = take j xs @ drop j (take k xs)"
    using append_take_drop_id [of j "take k xs"] assms(3) by (simp add: min_def)
  then have "drop i (take k xs) = drop i (take j xs @ drop j (take k xs))" by simp
  then show ?thesis using assms(1,2) by simp
qed

text \<open>After any number of iterations the messages up to the position have been shown.\<close>

lemma view_loop_position:
  assumes "consumer_ok poll pos read topic" and "pos c \<le> length topic"
  shows "\<exists>toasts c' records. view_loop poll toast_ok n c = (toasts, c') \<and> pos c \<le> pos c' \<and> pos c' \<le> length topic \<and>
    map read (drop (pos c) (take (pos c') topic)) = map Inr records \<and> toasts = view_records toast_ok records"
  using assms(2)
proof (induction n arbitrary: c)
  case 0
  then show ?case by (simp add: view_records_def)
next
  case (Suc n)
  obtain r c1 where p: "poll c = (r, c1)" by (cases "poll c")
  show ?case
  proof (cases r)
    case (Inl e)
    then have "pos c1 = pos c" using assms(1) p by (simp add: consumer_ok_def)
    then show ?thesis using Suc.IH [of c1] Suc.prems p Inl by simp
  next
    case (Inr rs)
    then have c1: "pos c \<le> pos c1" "pos c1 \<le> length topic" "map read (drop (pos c) (take (pos c1) topic)) = map Inr rs"
      using assms(1) p Suc.prems by (auto simp: consumer_ok_def)
    obtain toasts c' rs' where i: "view_loop poll toast_ok n c1 = (toasts, c')" "pos c1 \<le> pos c'" "pos c' \<le> length topic"
      "map read (drop (pos c1) (take (pos c') topic)) = map Inr rs'" "toasts = view_records toast_ok rs'"
      using Suc.IH [OF c1(2)] by blast
    have "drop (pos c) (take (pos c') topic) = drop (pos c) (take (pos c1) topic) @ drop (pos c1) (take (pos c') topic)"
      using c1(1,2) i(2) by (rule drop_take_split)
    then have "map read (drop (pos c) (take (pos c') topic)) = map Inr (rs @ rs')" using c1(3) i(4) by simp
    moreover have "view_loop poll toast_ok (Suc n) c = (view_records toast_ok (rs @ rs'), c')"
      by (simp add: p Inr i(1,5) view_records_append)
    moreover have "pos c \<le> pos c'" using c1(1) i(2) by simp
    ultimately show ?thesis using i(3) by blast
  qed
qed

text \<open>
  C38: a message that cannot be deserialized ends the usefulness of the alert viewer: its loop catches
  the exception of \<open>poll\<close> and calls it again, but nothing moves the position past the message, so
  however long the loop runs, only messages before it are ever shown.
\<close>

theorem viewer_stuck_at_malformed:
  assumes "consumer_ok poll pos read topic" and "pos c \<le> i" and "i < length topic" and "read (topic ! i) = Inl e"
  shows "\<exists>k records. k \<le> i \<and> map read (drop (pos c) (take k topic)) = map Inr records \<and>
    fst (view_loop poll toast_ok n c) = view_records toast_ok records \<and> pos (snd (view_loop poll toast_ok n c)) \<le> i"
proof -
  obtain toasts c' records where v: "view_loop poll toast_ok n c = (toasts, c')" "pos c' \<le> length topic"
    "map read (drop (pos c) (take (pos c') topic)) = map Inr records" "toasts = view_records toast_ok records"
    using view_loop_position [OF assms(1), of c toast_ok n] assms(2,3) by auto
  have "pos c' \<le> i"
  proof (rule ccontr)
    assume "\<not> pos c' \<le> i"
    then have "topic ! i \<in> set (drop (pos c) (take (pos c') topic))"
      using assms(2) v(2) by (auto simp: in_set_conv_nth intro!: exI [of _ "i - pos c"])
    then have "Inl e \<in> set (map Inr records)" using assms(4) unfolding v(3) [symmetric] by force
    then show False by auto
  qed
  then show ?thesis using v by auto
qed

text \<open>A consumer of one message at a time; the second of three messages is malformed.\<close>

definition one_by_one :: "('m \<Rightarrow> received_warning option jresult) \<Rightarrow> 'm list \<Rightarrow> nat \<Rightarrow> received_warning option list jresult \<times> nat" where
  "one_by_one read topic p =
     (if p < length topic then case read (topic ! p) of Inl e \<Rightarrow> (Inl e, p) | Inr r \<Rightarrow> (Inr [r], p + 1) else (Inr [], p))"

lemma one_by_one_ok: "consumer_ok (one_by_one read topic) (\<lambda>p. p) read topic"
  unfolding consumer_ok_def
  by (auto simp: one_by_one_def take_Suc_conv_app_nth split: if_splits sum.splits)

definition example_read :: "nat \<Rightarrow> received_warning option jresult" where
  "example_read j = (if j = 0 then Inl RuntimeException else Inr (Some (Some ''alta'', None)))"

theorem viewer_stuck_at_malformed_witness:
  "\<exists>k \<le> 1. \<exists>records. map example_read (take k [1, 0, 1]) = map Inr records \<and>
     fst (view_loop (one_by_one example_read [1, 0, 1]) (\<lambda>_. True) 100 0) = view_records (\<lambda>_. True) records"
proof -
  have "example_read ([1, 0, 1] ! 1) = Inl RuntimeException" by (simp add: example_read_def)
  from viewer_stuck_at_malformed [where poll = "one_by_one example_read [1, 0, 1]" and pos = "\<lambda>p. p" and c = 0 and i = 1
    and toast_ok = "\<lambda>_. True" and n = 100, OF one_by_one_ok _ _ this]
  obtain k records where "k \<le> 1" "map example_read (drop 0 (take k [1, 0, 1])) = map Inr records"
    "fst (view_loop (one_by_one example_read [1, 0, 1]) (\<lambda>_. True) 100 0) = view_records (\<lambda>_. True) records"
    by auto
  then show ?thesis by auto
qed

end
