(* ===== verification/Java_Serdes.thy ===== *)
theory Java_Serdes
  imports Java_Notifier
begin

text \<open>
  Between the Java programs: the serializers and deserializers of the Kafka topics and state stores
  (the classes of the packages \<open>serdes\<close> and those App.java of kafkatch-core makes), and the streams
  with them in place, from the parsed flows to the popups.  The mapper of Jackson is a parameter, a
  function in each direction; the text it writes is of any type.
\<close>

section \<open>Serializers and deserializers\<close>

text \<open>
  \<open>readValue\<close> of the JSON \<open>null\<close> is \<open>null\<close>.  \<open>mapper_ok\<close> is what Jackson documents of the beans: what is
  written is read back.
\<close>

record ('a, 'd) mapper =
  writeValue :: "'a \<Rightarrow> 'd jresult"
  readValue :: "'d \<Rightarrow> 'a option jresult"

definition mapper_ok :: "('a, 'd) mapper \<Rightarrow> bool" where
  "mapper_ok M \<longleftrightarrow> (\<forall>x. \<exists>d. writeValue M x = Inr d \<and> readValue M d = Inr (Some x))"

fun rethrown :: "'a jresult \<Rightarrow> 'a jresult" where
  "rethrown (Inl e) = Inl RuntimeException"
| "rethrown (Inr x) = Inr x"

definition FlowSerializer :: "(FlowJ, 'd) mapper \<Rightarrow> FlowJ option \<Rightarrow> 'd option jresult" where
  "FlowSerializer M data =
     rethrown (case data of None \<Rightarrow> Inr None | Some x \<Rightarrow> attempt (writeValue M x) (\<lambda>b. Inr (Some b)))"

definition FlowDeserializer :: "(FlowJ, 'd) mapper \<Rightarrow> 'd option \<Rightarrow> FlowJ option jresult" where
  "FlowDeserializer M data = rethrown (case data of None \<Rightarrow> Inr None | Some b \<Rightarrow> readValue M b)"

definition RollingStatsSerializer :: "(RollingStats, 'd) mapper \<Rightarrow> RollingStats option \<Rightarrow> 'd option jresult" where
  "RollingStatsSerializer M data =
     rethrown (case data of None \<Rightarrow> Inr None | Some x \<Rightarrow> attempt (writeValue M x) (\<lambda>b. Inr (Some b)))"

definition RollingStatsDeserializer :: "(RollingStats, 'd) mapper \<Rightarrow> 'd option \<Rightarrow> RollingStats option jresult" where
  "RollingStatsDeserializer M data = rethrown (case data of None \<Rightarrow> Inr None | Some b \<Rightarrow> readValue M b)"

text \<open>The members of a \<open>Warning\<close> are strings that may be \<open>null\<close> for the viewer.\<close>

definition members_of :: "Warning \<Rightarrow> received_warning" where
  "members_of w = (Some (severidade w), Some (descricao w))"

definition WarningSerializer :: "(received_warning, 'd) mapper \<Rightarrow> received_warning option \<Rightarrow> 'd option jresult" where
  "WarningSerializer M data =
     rethrown (case data of None \<Rightarrow> Inr None | Some x \<Rightarrow> attempt (writeValue M x) (\<lambda>b. Inr (Some b)))"

definition WarningDeserializer :: "(received_warning, 'd) mapper \<Rightarrow> 'd option \<Rightarrow> received_warning option jresult" where
  "WarningDeserializer M data = rethrown (case data of None \<Rightarrow> Inr None | Some b \<Rightarrow> readValue M b)"

lemmas serde_defs =
  FlowSerializer_def FlowDeserializer_def RollingStatsSerializer_def RollingStatsDeserializer_def
  WarningSerializer_def WarningDeserializer_def

lemma rethrown_Inr [simp]: "rethrown r = Inr x \<longleftrightarrow> r = Inr x"
  by (cases r) auto

text \<open>AggregatedFlowParser: the mapper without a view and with the view \<open>InternalView\<close>.\<close>

record 'd agg_mapper =
  writeDefault :: "AggregatedFlow option \<Rightarrow> 'd jresult"
  readDefault :: "'d option \<Rightarrow> AggregatedFlow option jresult"
  writeInternal :: "AggregatedFlow option \<Rightarrow> 'd jresult"
  readInternal :: "'d option \<Rightarrow> AggregatedFlow option jresult"

definition toJsonString :: "'d agg_mapper \<Rightarrow> AggregatedFlow option \<Rightarrow> 'd jresult" where
  "toJsonString M aggregatedFlow = writeDefault M aggregatedFlow"

definition fromJsonString :: "'d agg_mapper \<Rightarrow> 'd option \<Rightarrow> AggregatedFlow option jresult" where
  "fromJsonString M json = readDefault M json"

definition toInternalJsonString :: "'d agg_mapper \<Rightarrow> AggregatedFlow option \<Rightarrow> 'd jresult" where
  "toInternalJsonString M aggregatedFlow = writeInternal M aggregatedFlow"

definition fromInternalJsonString :: "'d agg_mapper \<Rightarrow> 'd option \<Rightarrow> AggregatedFlow option jresult" where
  "fromInternalJsonString M json = readInternal M json"

text \<open>
  What Jackson documents: with the view every field is written and read back; without it every field
  but those that belong to a view, which may or may not be there.
\<close>

definition agg_mapper_ok :: "'d agg_mapper \<Rightarrow> bool" where
  "agg_mapper_ok M \<longleftrightarrow> (\<forall>a. finite (flowKeys a) \<longrightarrow>
     (\<exists>j. writeInternal M (Some a) = Inr j \<and> readInternal M (Some j) = Inr (Some a)) \<and>
     (\<exists>j ks. writeDefault M (Some a) = Inr j \<and> readDefault M (Some j) = Inr (Some (a\<lparr>flowKeys := ks\<rparr>))))"

section \<open>The stream of App.java\<close>

definition aggSerializer :: "'d agg_mapper \<Rightarrow> AggregatedFlow option \<Rightarrow> 'd option" where
  "aggSerializer M data =
     (case data of None \<Rightarrow> None
      | Some _ \<Rightarrow> (case toInternalJsonString M data of Inl e \<Rightarrow> None | Inr j \<Rightarrow> Some j))"

definition aggDeserializer :: "'d agg_mapper \<Rightarrow> 'd option \<Rightarrow> AggregatedFlow option" where
  "aggDeserializer M data =
     (case data of None \<Rightarrow> None
      | Some _ \<Rightarrow> (case fromInternalJsonString M data of Inl e \<Rightarrow> None | Inr a \<Rightarrow> a))"

definition aggregatedFlowSerde :: "'d agg_mapper \<Rightarrow> 'd agg_serde" where
  "aggregatedFlowSerde M = \<lparr>ser = aggSerializer M \<circ> Some, des = aggDeserializer M \<circ> Some\<rparr>"

text \<open>
  A parsed flow goes through the topic of \<open>groupBy\<close> with \<open>flowSerde\<close> and is aggregated; an exception
  there ends the stream thread.
\<close>

definition group_record ::
  "(FlowJ, 'f) mapper \<Rightarrow> 'd agg_mapper \<Rightarrow> event \<Rightarrow> 'd option \<Rightarrow> 'd option jresult" where
  "group_record F M ev stored =
     (case ev of (flow, now, start) \<Rightarrow>
        attempt (FlowSerializer F (Some flow)) (\<lambda>b.
        attempt (FlowDeserializer F b) (\<lambda>flow.
        let S = aggregatedFlowSerde M in
        Inr (ser S (aggregator flow now (stored_aggregate S start stored))))))"

fun group_window ::
  "(FlowJ, 'f) mapper \<Rightarrow> 'd agg_mapper \<Rightarrow> event list \<Rightarrow> 'd option \<Rightarrow> 'd option jresult" where
  "group_window F M [] stored = Inr stored"
| "group_window F M (ev # evs) stored = attempt (group_record F M ev stored) (group_window F M evs)"

text \<open>
  The end of a window.  In the \<open>try\<close> block the aggregate is used after it has been written, so that
  \<open>null\<close> is sent nowhere.
\<close>

definition close_window :: "'d agg_mapper \<Rightarrow> string \<times> AggregatedFlow option \<Rightarrow> (string \<times> 'd) option" where
  "close_window M r =
     (case r of (windowedKey, aggregatedFlow) \<Rightarrow>
        (case attempt (toJsonString M aggregatedFlow) (\<lambda>jsonOut. attempt (deref aggregatedFlow) (\<lambda>_. Inr jsonOut)) of
           Inl e \<Rightarrow> None | Inr jsonOut \<Rightarrow> Some (windowedKey, jsonOut)))"

definition global_key :: string where
  "global_key = ''global-key''"

text \<open>The messages for windows that close one after the other, with their records.\<close>

fun app_output ::
  "(FlowJ, 'f) mapper \<Rightarrow> 'd agg_mapper \<Rightarrow> event list list \<Rightarrow> (string \<times> 'd) list jresult" where
  "app_output F M [] = Inr []"
| "app_output F M (evs # wins) =
     attempt (group_window F M evs None) (\<lambda>stored.
     attempt (app_output F M wins) (\<lambda>msgs.
     Inr (case close_window M (global_key, Option.bind stored (des (aggregatedFlowSerde M))) of
            None \<Rightarrow> msgs | Some msg \<Rightarrow> msg # msgs)))"

section \<open>The mappers do not show\<close>

lemma flow_delivered:
  "mapper_ok F \<Longrightarrow> attempt (FlowSerializer F (Some flow)) (FlowDeserializer F) = Inr (Some flow)"
  unfolding mapper_ok_def serde_defs by (elim allE [of _ flow]) auto

lemma warning_delivered:
  "mapper_ok W \<Longrightarrow> attempt (WarningSerializer W (Some w)) (WarningDeserializer W) = Inr (Some w)"
  unfolding mapper_ok_def serde_defs by (elim allE [of _ w]) auto

lemma stats_written:
  assumes "mapper_ok R"
  shows "\<exists>d. RollingStatsSerializer R (Some stats) = Inr (Some d) \<and> RollingStatsDeserializer R (Some d) = Inr (Some stats)"
  using assms unfolding mapper_ok_def serde_defs by (elim allE [of _ stats]) auto

lemma aggregatedFlowSerde_ok: "agg_mapper_ok M \<Longrightarrow> serde_ok (aggregatedFlowSerde M)"
  unfolding serde_ok_def agg_mapper_ok_def
  by (force simp: aggregatedFlowSerde_def aggSerializer_def aggDeserializer_def toInternalJsonString_def
      fromInternalJsonString_def)

lemma group_window_store:
  assumes "mapper_ok F"
  shows "group_window F M evs stored = Inr (fold (aggregate_record (aggregatedFlowSerde M)) evs stored)"
proof (induction evs arbitrary: stored)
  case (Cons ev evs)
  obtain flow now start where ev: "ev = (flow, now, start)" by (cases ev)
  obtain b where "FlowSerializer F (Some flow) = Inr b" "FlowDeserializer F b = Inr (Some flow)"
    using flow_delivered [OF assms, of flow] by (auto simp: attempt_eq_Inr_iff)
  then have "group_record F M ev stored = Inr (aggregate_record (aggregatedFlowSerde M) ev stored)"
    by (simp add: group_record_def aggregate_record_def ev Let_def)
  then show ?case using Cons by simp
qed simp

lemma close_window_parses:
  assumes "agg_mapper_ok M" and "finite (flowKeys a)"
  shows "\<exists>j ks. close_window M (k, Some a) = Some (k, j) \<and> fromJsonString M (Some j) = Inr (Some (a\<lparr>flowKeys := ks\<rparr>))"
  using assms unfolding agg_mapper_ok_def
  by (elim allE [of _ a]) (auto simp: close_window_def toJsonString_def fromJsonString_def)

text \<open>The watcher uses an aggregate only through its volumes and its count.\<close>

definition same_samples :: "(string option \<times> AggregatedFlow) list \<Rightarrow> (string option \<times> AggregatedFlow) list \<Rightarrow> bool" where
  "same_samples ps qs \<longleftrightarrow> list_all2 (\<lambda>(k, a) (k', a'). k = k' \<and> bytes_inbound a = bytes_inbound a' \<and>
     bytes_outbound a = bytes_outbound a' \<and> unique_flow_count a = unique_flow_count a') ps qs"

lemma samples_same:
  assumes "same_samples ps qs"
  shows "samples bytes_inbound ps = samples bytes_inbound qs"
    "samples bytes_outbound ps = samples bytes_outbound qs"
    "samples (\<lambda>a. widen (unique_flow_count a)) ps = samples (\<lambda>a. widen (unique_flow_count a)) qs"
  using assms unfolding same_samples_def
  by (induction ps qs rule: list_all2_induct) (auto simp: samples_def fun_eq_iff)

lemma emitted_same: "same_samples ps qs \<Longrightarrow> emitted det ps = emitted det qs"
proof (induction ps arbitrary: qs rule: rev_induct)
  case Nil
  then show ?case by (simp add: same_samples_def)
next
  case (snoc p ps)
  obtain qs' q where q: "qs = qs' @ [q]" "same_samples ps qs'" "same_samples [p] [q]"
    using snoc.prems unfolding same_samples_def list_all2_append1 by (auto simp: list_all2_Cons1)
  have "warnings_for det ps p = warnings_for det qs' q"
    using q(3) samples_same [OF q(2)] by (cases p; cases q) (simp add: same_samples_def warnings_for_def)
  moreover have "fst p = fst q" using q(3) by (cases p; cases q) (simp add: same_samples_def)
  ultimately show ?case using snoc.IH [OF q(2)] by (simp add: q(1) emitted_snoc)
qed

text \<open>The messages of \<open>app_output\<close> as the watcher reads them.\<close>

definition to_watcher :: "(string \<times> 'd) list \<Rightarrow> (string option \<times> 'd option) list" where
  "to_watcher msgs = map (\<lambda>(k, j). (Some k, Some j)) msgs"

abbreviation aggregates_of :: "event list list \<Rightarrow> (string option \<times> AggregatedFlow) list" where
  "aggregates_of wins \<equiv> map (\<lambda>evs. (Some global_key, window_aggregate evs)) wins"

lemma app_output_parses:
  assumes F: "mapper_ok F" and M: "agg_mapper_ok M" and "[] \<notin> set wins"
  shows "\<exists>msgs. app_output F M wins = Inr msgs \<and>
    same_samples (parsed_aggregates (fromJsonString M) (to_watcher msgs)) (aggregates_of wins)"
  using assms(3)
proof (induction wins)
  case Nil
  then show ?case by (simp add: to_watcher_def parsed_aggregates_def List.map_filter_simps same_samples_def)
next
  case (Cons evs wins)
  let ?S = "aggregatedFlowSerde M"
  obtain msgs where m: "app_output F M wins = Inr msgs"
    "same_samples (parsed_aggregates (fromJsonString M) (to_watcher msgs)) (aggregates_of wins)"
    using Cons by auto
  have S: "serde_ok ?S" by (rule aggregatedFlowSerde_ok [OF M])
  have g: "group_window F M evs None = Inr (window_store ?S evs)"
    by (simp add: group_window_store [OF F] window_store_def)
  have "Option.bind (window_store ?S evs) (des ?S) = Some (window_aggregate evs)"
    using S window_store_aggregate [OF S, of evs] Cons.prems finite_flowKeys by (auto simp: serde_ok_def)
  moreover obtain j ks where "close_window M (global_key, Some (window_aggregate evs)) = Some (global_key, j)"
    and j: "fromJsonString M (Some j) = Inr (Some ((window_aggregate evs)\<lparr>flowKeys := ks\<rparr>))"
    using close_window_parses [OF M finite_flowKeys] by blast
  ultimately have "app_output F M (evs # wins) = Inr ((global_key, j) # msgs)" by (simp add: g m(1))
  then show ?case
    using m(2) j by (simp add: to_watcher_def parsed_aggregates_def List.map_filter_simps same_samples_def)
qed

lemma window_sums:
  assumes "evs \<noteq> []" and "length evs < 2 ^ 31"
  shows "sint (bytes_inbound (window_aggregate evs)) =
      (\<Sum>e\<leftarrow>filter (\<lambda>e. dirJ (ev_flow e) = INBOUND) evs. sint (byte_countJ (ev_flow e)))"
    "sint (bytes_outbound (window_aggregate evs)) =
      (\<Sum>e\<leftarrow>filter (\<lambda>e. dirJ (ev_flow e) = OUTBOUND) evs. sint (byte_countJ (ev_flow e)))"
    "sint (widen (unique_flow_count (window_aggregate evs))) = int (card (unique_key ` ev_flow ` set evs))"
  using stored_sums [OF identity_serde_ok assms]
  by (simp_all add: window_store_aggregate [OF identity_serde_ok assms(1)] sum_by_dir)
     (simp_all add: identity_serde_def)

lemma samples_aggregates:
  "samples g (aggregates_of wins) global_key = map (g \<circ> window_aggregate) wins"
  by (induction wins) (simp_all add: samples_def store_key_def)

lemma lastn_map: "lastn n (map f xs) = map f (lastn n xs)"
  by (simp add: lastn_def drop_map)

lemma view_all: "view_records (\<lambda>_. True) (map (Some \<circ> f) xs) = map (notify \<circ> f) xs"
  by (induction xs) (simp_all add: view_records_def)

section \<open>State stores of bytes\<close>

text \<open>
  The check of a metric on a store that keeps the bytes of the statistics, as the stores OutputWatcher
  makes do: \<open>get\<close> deserializes, \<open>put\<close> serializes.
\<close>

definition check_stored ::
  "(RollingStats, 'd) mapper \<Rightarrow> detector \<Rightarrow> (string \<Rightarrow> 'd option) \<Rightarrow> string \<Rightarrow> jlong \<Rightarrow> string \<Rightarrow>
   (Warning list \<times> (string \<Rightarrow> 'd option)) jresult" where
  "check_stored R det store storeKey current label =
     attempt (RollingStatsDeserializer R (store storeKey)) (\<lambda>stats.
     attempt (check det (\<lambda>_. stats) storeKey current label) (\<lambda>(result, after).
     attempt (RollingStatsSerializer R (after storeKey)) (\<lambda>bytes.
     Inr (result, store(storeKey := bytes)))))"

definition store_bytes :: "(RollingStats, 'd) mapper \<Rightarrow> (string \<Rightarrow> 'd option) \<Rightarrow> (string \<Rightarrow> RollingStats option) \<Rightarrow> bool" where
  "store_bytes R bs st \<longleftrightarrow> (\<forall>k. RollingStatsDeserializer R (bs k) = Inr (st k))"

lemma check_cong: "store k = store' k \<Longrightarrow>
  check det store k current label =
    attempt (check det store' k current label) (\<lambda>(ws, after). Inr (ws, store(k := after k)))"
  by (cases "add_value current (load_stats det store k)")
     (simp_all add: check_def load_stats_def Let_def)

text \<open>
  A detector over stores of bytes does what the detector over maps of statistics does: the same
  warnings, the same exceptions, and stores that stand for each other again.
\<close>

theorem check_stored_refines:
  assumes "mapper_ok R" and "store_bytes R bs st"
  shows "case check det st k current label of
      Inl e \<Rightarrow> check_stored R det bs k current label = Inl e
    | Inr (ws, st') \<Rightarrow> \<exists>bs'. check_stored R det bs k current label = Inr (ws, bs') \<and> store_bytes R bs' st'"
proof -
  have g: "RollingStatsDeserializer R (bs k) = Inr (st k)" using assms(2) by (simp add: store_bytes_def)
  have c: "check det st k current label =
      attempt (check det (\<lambda>_. st k) k current label) (\<lambda>(ws, after). Inr (ws, st(k := after k)))"
    by (rule check_cong) simp
  show ?thesis
  proof (cases "check det (\<lambda>_. st k) k current label")
    case (Inl e)
    then show ?thesis by (simp add: c g check_stored_def)
  next
    case (Inr r)
    obtain ws after where r: "r = (ws, after)" by (cases r)
    have "after k \<noteq> None"
      using Inr unfolding r check_def by (auto simp: Let_def attempt_eq_Inr_iff)
    then obtain stats d where "after k = Some stats" "RollingStatsSerializer R (Some stats) = Inr (Some d)"
      "RollingStatsDeserializer R (Some d) = Inr (Some stats)"
      using stats_written [OF assms(1)] by blast
    then show ?thesis
      using assms(2) by (auto simp: c g Inr r check_stored_def store_bytes_def)
  qed
qed

text \<open>The transformer and the watcher on such stores.\<close>

record 'd byte_stores =
  inboundBytes :: "string \<Rightarrow> 'd option"
  outboundBytes :: "string \<Rightarrow> 'd option"
  flowsBytes :: "string \<Rightarrow> 'd option"

definition transform_stored ::
  "(RollingStats, 'd) mapper \<Rightarrow> detector \<Rightarrow> string option \<Rightarrow> AggregatedFlow option \<Rightarrow> 'd byte_stores \<Rightarrow>
   Warning list \<times> 'd byte_stores" where
  "transform_stored R det k value bs =
     (case value of None \<Rightarrow> ([], bs)
      | Some a \<Rightarrow>
          let storeKey = (case k of None \<Rightarrow> ''global'' | Some k' \<Rightarrow> k');
              (w1, s1) = caught (check_stored R det (inboundBytes bs) storeKey (bytes_inbound a) label_inbound) (inboundBytes bs);
              (w2, s2) = caught (check_stored R det (outboundBytes bs) storeKey (bytes_outbound a) label_outbound) (outboundBytes bs);
              (w3, s3) = caught (check_stored R det (flowsBytes bs) storeKey (widen (unique_flow_count a)) label_flows) (flowsBytes bs)
          in (w1 @ w2 @ w3, \<lparr>inboundBytes = s1, outboundBytes = s2, flowsBytes = s3\<rparr>))"

definition watch_message_stored ::
  "(RollingStats, 'd) mapper \<Rightarrow> ('m \<Rightarrow> AggregatedFlow option jresult) \<Rightarrow> detector \<Rightarrow> string option \<times> 'm \<Rightarrow>
   'd byte_stores \<Rightarrow> (string option \<times> Warning) list \<times> 'd byte_stores" where
  "watch_message_stored R fromJson det msg bs =
     (case msg of (k, value) \<Rightarrow>
        (case fromJson value of Inl e \<Rightarrow> ([], bs)
         | Inr None \<Rightarrow> ([], bs)
         | Inr (Some a) \<Rightarrow> apfst (map (Pair k)) (transform_stored R det k (Some a) bs)))"

fun watch_stored ::
  "(RollingStats, 'd) mapper \<Rightarrow> ('m \<Rightarrow> AggregatedFlow option jresult) \<Rightarrow> detector \<Rightarrow> (string option \<times> 'm) list \<Rightarrow>
   'd byte_stores \<Rightarrow> (string option \<times> Warning) list \<times> 'd byte_stores" where
  "watch_stored R fromJson det [] bs = ([], bs)"
| "watch_stored R fromJson det (msg # msgs) bs =
     (let (ws, bs') = watch_message_stored R fromJson det msg bs; (ws', bs'') = watch_stored R fromJson det msgs bs'
      in (ws @ ws', bs''))"

definition empty_bytes :: "'d byte_stores" where
  "empty_bytes = \<lparr>inboundBytes = Map.empty, outboundBytes = Map.empty, flowsBytes = Map.empty\<rparr>"

text \<open>The values a store of bytes keeps under a key.\<close>

definition stored_values :: "(RollingStats, 'd) mapper \<Rightarrow> (string \<Rightarrow> 'd option) \<Rightarrow> string \<Rightarrow> jlong list" where
  "stored_values R bs k = (case RollingStatsDeserializer R (bs k) of Inr (Some stats) \<Rightarrow> valuesJ stats | _ \<Rightarrow> [])"

definition stands_for :: "(RollingStats, 'd) mapper \<Rightarrow> 'd byte_stores \<Rightarrow> stores \<Rightarrow> bool" where
  "stands_for R bs st \<longleftrightarrow> store_bytes R (inboundBytes bs) (inboundStore st) \<and>
     store_bytes R (outboundBytes bs) (outboundStore st) \<and> store_bytes R (flowsBytes bs) (flowsStore st)"

lemma stored_values_load:
  "store_bytes R bs st \<Longrightarrow> stored_values R bs k = valuesJ (load_stats det st k)"
  by (simp add: store_bytes_def stored_values_def load_stats_def new_RollingStats_def split: option.split)

lemma stands_for_empty: "stands_for R empty_bytes empty_stores"
  by (simp add: stands_for_def store_bytes_def empty_bytes_def empty_stores_def RollingStatsDeserializer_def)

lemma caught_stored:
  assumes "mapper_ok R" and "store_bytes R bs st"
  obtains ws bs' st' where "caught (check_stored R det bs k current label) bs = (ws, bs')"
    "caught (check det st k current label) st = (ws, st')" "store_bytes R bs' st'"
  using check_stored_refines [OF assms, of det k current label] that assms(2)
  by (cases "check det st k current label") auto

lemma transform_stored_refines:
  assumes "mapper_ok R" and "stands_for R bs st"
  obtains ws bs' st' where "transform_stored R det k msg bs = (ws, bs')"
    "transform det k msg st = (ws, st')" "stands_for R bs' st'"
proof (cases msg)
  case None
  then show thesis using that assms(2) by (simp add: transform_stored_def transform_def)
next
  case (Some a)
  let ?k = "case k of None \<Rightarrow> ''global'' | Some k' \<Rightarrow> k'"
  note b = assms(2) [unfolded stands_for_def]
  obtain w1 b1 s1 where "caught (check_stored R det (inboundBytes bs) ?k (bytes_inbound a) label_inbound) (inboundBytes bs) = (w1, b1)"
    "caught (check det (inboundStore st) ?k (bytes_inbound a) label_inbound) (inboundStore st) = (w1, s1)" "store_bytes R b1 s1"
    by (rule caught_stored [OF assms(1) b [THEN conjunct1]])
  moreover obtain w2 b2 s2 where "caught (check_stored R det (outboundBytes bs) ?k (bytes_outbound a) label_outbound) (outboundBytes bs) = (w2, b2)"
    "caught (check det (outboundStore st) ?k (bytes_outbound a) label_outbound) (outboundStore st) = (w2, s2)" "store_bytes R b2 s2"
    by (rule caught_stored [OF assms(1) b [THEN conjunct2, THEN conjunct1]])
  moreover obtain w3 b3 s3 where "caught (check_stored R det (flowsBytes bs) ?k (widen (unique_flow_count a)) label_flows) (flowsBytes bs) = (w3, b3)"
    "caught (check det (flowsStore st) ?k (widen (unique_flow_count a)) label_flows) (flowsStore st) = (w3, s3)" "store_bytes R b3 s3"
    by (rule caught_stored [OF assms(1) b [THEN conjunct2, THEN conjunct2]])
  ultimately show thesis
    using that by (simp add: transform_stored_def transform_def Some Let_def stands_for_def)
qed

lemma watch_stored_refines:
  assumes "mapper_ok R" and "stands_for R bs st"
  shows "\<exists>ws bs' st'. watch_stored R fromJson det msgs bs = (ws, bs') \<and> watch fromJson det msgs st = (ws, st') \<and>
    stands_for R bs' st'"
  using assms(2)
proof (induction msgs arbitrary: bs st)
  case (Cons msg msgs)
  obtain ws bs1 st1 where 1: "watch_message_stored R fromJson det msg bs = (ws, bs1)"
    "watch_message fromJson det msg st = (ws, st1)" "stands_for R bs1 st1"
  proof (cases "\<exists>a. fromJson (snd msg) = Inr (Some a)")
    case True
    then obtain a where a: "fromJson (snd msg) = Inr (Some a)" by blast
    obtain ws bs1 st1 where "transform_stored R det (fst msg) (Some a) bs = (ws, bs1)"
      "transform det (fst msg) (Some a) st = (ws, st1)" "stands_for R bs1 st1"
      by (rule transform_stored_refines [OF assms(1) Cons.prems])
    then show thesis using that a by (simp add: watch_message_stored_def watch_message_def split_beta)
  next
    case False
    then have "watch_message_stored R fromJson det msg bs = ([], bs)" "watch_message fromJson det msg st = ([], st)"
      by (auto simp: watch_message_stored_def watch_message_def split_beta split: sum.split option.split)
    then show thesis using that Cons.prems by blast
  qed
  obtain ws' bs2 st2 where "watch_stored R fromJson det msgs bs1 = (ws', bs2)"
    "watch fromJson det msgs st1 = (ws', st2)" "stands_for R bs2 st2"
    using Cons.IH [OF 1(3)] by blast
  then show ?case using 1 by simp
qed simp

section \<open>Properties\<close>

text \<open>
  C11: from the parsed flows to the popups.  For any windows, each of at least one record and fewer
  than \<open>2\<^sup>3\<^sup>1\<close> records, through the serializers of every topic and of every store, that of the aggregates and
  those of the statistics, and the text the aggregates are published in: the watcher emits the warnings
  that the exact aggregates of the windows deserve, each judged against the windows before it; the
  history its stores keep is that of the volumes per direction and of the counts of unique flows of the
  last 30 windows, as exact sums over their records; and the viewer shows a popup for every warning,
  with its severity and its text.
\<close>

theorem flows_to_popups:
  assumes "mapper_ok F" and "agg_mapper_ok M" and "mapper_ok R" and "mapper_ok W"
    and "\<forall>evs \<in> set wins. evs \<noteq> [] \<and> length evs < 2 ^ 31"
  shows "\<exists>msgs ws bs. app_output F M wins = Inr msgs \<and>
    watch_stored R (fromJsonString M) output_watcher (to_watcher msgs) empty_bytes = (ws, bs) \<and>
    ws = emitted output_watcher (aggregates_of wins) \<and>
    map sint (stored_values R (inboundBytes bs) global_key) =
      map (\<lambda>evs. \<Sum>e\<leftarrow>filter (\<lambda>e. dirJ (ev_flow e) = INBOUND) evs. sint (byte_countJ (ev_flow e))) (lastn 30 wins) \<and>
    map sint (stored_values R (outboundBytes bs) global_key) =
      map (\<lambda>evs. \<Sum>e\<leftarrow>filter (\<lambda>e. dirJ (ev_flow e) = OUTBOUND) evs. sint (byte_countJ (ev_flow e))) (lastn 30 wins) \<and>
    map sint (stored_values R (flowsBytes bs) global_key) =
      map (\<lambda>evs. int (card (unique_key ` ev_flow ` set evs))) (lastn 30 wins) \<and>
    (\<exists>received. list_all2 (\<lambda>w r. attempt (WarningSerializer W (Some (members_of (snd w)))) (WarningDeserializer W) = Inr r)
        ws received \<and>
      view_records (\<lambda>_. True) received = map (notify \<circ> members_of \<circ> snd) ws)"
proof -
  have ne: "[] \<notin> set wins" using assms(5) by auto
  obtain msgs where m: "app_output F M wins = Inr msgs"
    "same_samples (parsed_aggregates (fromJsonString M) (to_watcher msgs)) (aggregates_of wins)"
    using app_output_parses [OF assms(1,2) ne] by blast
  obtain st where st: "watch (fromJsonString M) output_watcher (to_watcher msgs) empty_stores =
      (emitted output_watcher (aggregates_of wins), st)"
    "stores_hold output_watcher st (parsed_aggregates (fromJsonString M) (to_watcher msgs))"
    using watch_emitted [OF thresholds_output_watcher] emitted_same [OF m(2)] by metis
  obtain bs where bs: "watch_stored R (fromJsonString M) output_watcher (to_watcher msgs) empty_bytes =
      (emitted output_watcher (aggregates_of wins), bs)" "stands_for R bs st"
    using watch_stored_refines [OF assms(3) stands_for_empty, of "fromJsonString M" output_watcher "to_watcher msgs"] st(1)
    by auto
  have v: "stored_values R b global_key = map (g \<circ> window_aggregate) (lastn 30 wins)"
    if "store_bytes R b s" "holds_history output_watcher s (samples g ps)" "samples g ps = samples g (aggregates_of wins)"
    for b s g ps
    using that
    by (simp add: stored_values_load [where det = output_watcher] holds_history_def watcher_thresholds(1)
        stats_of_samples_def samples_aggregates lastn_map)
  note h = st(2) [unfolded stores_hold_def] and b = bs(2) [unfolded stands_for_def]
  have vs: "stored_values R (inboundBytes bs) global_key = map (bytes_inbound \<circ> window_aggregate) (lastn 30 wins)"
    "stored_values R (outboundBytes bs) global_key = map (bytes_outbound \<circ> window_aggregate) (lastn 30 wins)"
    "stored_values R (flowsBytes bs) global_key =
      map ((\<lambda>a. widen (unique_flow_count a)) \<circ> window_aggregate) (lastn 30 wins)"
    using v [OF _ _ samples_same(1) [OF m(2)]] v [OF _ _ samples_same(2) [OF m(2)]] v [OF _ _ samples_same(3) [OF m(2)]] h b
    by blast+
  have w: "evs \<noteq> []" "length evs < 2 ^ 31" if "evs \<in> set (lastn 30 wins)" for evs
    using that assms(5) by (auto simp: lastn_def dest: in_set_dropD)
  define received where "received = map (Some \<circ> members_of \<circ> snd) (emitted output_watcher (aggregates_of wins))"
  have "list_all2 (\<lambda>w r. attempt (WarningSerializer W (Some (members_of (snd w)))) (WarningDeserializer W) = Inr r)
      (emitted output_watcher (aggregates_of wins)) received"
    by (simp add: received_def list_all2_map2 list_all2_same warning_delivered [OF assms(4)])
  moreover have "view_records (\<lambda>_. True) received = map (notify \<circ> members_of \<circ> snd) (emitted output_watcher (aggregates_of wins))"
    using view_all [of "members_of \<circ> snd"] by (simp add: received_def o_assoc)
  moreover have "map sint (stored_values R (inboundBytes bs) global_key) =
      map (\<lambda>evs. \<Sum>e\<leftarrow>filter (\<lambda>e. dirJ (ev_flow e) = INBOUND) evs. sint (byte_countJ (ev_flow e))) (lastn 30 wins)"
    by (simp add: vs) (intro ballI window_sums(1) w)
  moreover have "map sint (stored_values R (outboundBytes bs) global_key) =
      map (\<lambda>evs. \<Sum>e\<leftarrow>filter (\<lambda>e. dirJ (ev_flow e) = OUTBOUND) evs. sint (byte_countJ (ev_flow e))) (lastn 30 wins)"
    by (simp add: vs) (intro ballI window_sums(2) w)
  moreover have "map sint (stored_values R (flowsBytes bs) global_key) =
      map (\<lambda>evs. int (card (unique_key ` ev_flow ` set evs))) (lastn 30 wins)"
    by (simp add: vs del: sint_widen) (intro ballI window_sums(3) w)
  ultimately show ?thesis using m(1) bs(1) by blast
qed

text \<open>Mappers whose text is the value itself; the public text leaves out the keys of the flows.\<close>

definition value_mapper :: "('a, 'a) mapper" where
  "value_mapper = \<lparr>writeValue = Inr, readValue = \<lambda>x. Inr (Some x)\<rparr>"

definition value_agg_mapper :: "AggregatedFlow agg_mapper" where
  "value_agg_mapper = \<lparr>
     writeDefault = (\<lambda>a. case a of None \<Rightarrow> Inl JsonProcessingException | Some a \<Rightarrow> Inr (a\<lparr>flowKeys := {}\<rparr>)),
     readDefault = (\<lambda>j. case j of None \<Rightarrow> Inl IllegalArgumentException | Some j \<Rightarrow> Inr (Some j)),
     writeInternal = (\<lambda>a. case a of None \<Rightarrow> Inl JsonProcessingException | Some a \<Rightarrow> Inr a),
     readInternal = (\<lambda>j. case j of None \<Rightarrow> Inl IllegalArgumentException | Some j \<Rightarrow> Inr (Some j))\<rparr>"

lemma value_mapper_ok: "mapper_ok value_mapper"
  by (simp add: mapper_ok_def value_mapper_def)

lemma value_agg_mapper_ok: "agg_mapper_ok value_agg_mapper"
  by (auto simp: agg_mapper_ok_def value_agg_mapper_def)

text \<open>Three windows, the last with the flows of two connections.\<close>

theorem flows_to_popups_witness:
  "\<exists>msgs ws bs. app_output value_mapper value_agg_mapper
       [[(flow_1, 1, 0)], [(flow_1, 2, 0)], [(flow_1, 3, 0), (flow_2, 4, 0)]] = Inr msgs \<and>
     watch_stored value_mapper (fromJsonString value_agg_mapper) output_watcher (to_watcher msgs) empty_bytes = (ws, bs) \<and>
     map sint (stored_values value_mapper (inboundBytes bs) global_key) = [300, 300, 600]"
proof -
  define wins where "wins = [[(flow_1, 1::LocalDateTime, 0)], [(flow_1, 2, 0)], [(flow_1, 3, 0), (flow_2, 4, 0::LocalDateTime)]]"
  have w: "\<forall>evs \<in> set wins. evs \<noteq> [] \<and> length evs < 2 ^ 31" by (simp add: wins_def)
  have "dirJ flow_1 = INBOUND" "dirJ flow_2 = INBOUND" "sint (byte_countJ flow_1) = 300" "sint (byte_countJ flow_2) = 300"
    by (simp_all add: flow_1_def flow_2_def connection_def)
  then have "map (\<lambda>evs. \<Sum>e\<leftarrow>filter (\<lambda>e. dirJ (ev_flow e) = INBOUND) evs. sint (byte_countJ (ev_flow e))) (lastn 30 wins) =
      [300, 300, 600]"
    by (simp add: wins_def)
  then show ?thesis
    using flows_to_popups [OF value_mapper_ok value_agg_mapper_ok value_mapper_ok value_mapper_ok w] unfolding wins_def by metis
qed

end
