(* ===== verification/Spec2Isabelle.thy ===== *)
theory Spec2Isabelle
  imports Main_Resources Liveness Flush_Timer Uthash_Inorder_Nonfatal Uthash_Bloom Uthash_Select_Nonfatal
    Pipeline Java_Serdes
begin

text \<open>
  KafKatch captures network traffic, aggregates it into flows, and streams the flow records through
  Kafka to detectors and viewers.  This development models the sniffer, the program in C under
  \<^verbatim>\<open>sniffer/src\<close>, and proves it correct down to the pointer writes of the hash table it is built on.  It
  follows the records on through the Java modules \<^verbatim>\<open>kafkatch-core\<close>, \<^verbatim>\<open>kafkatch-notification\<close> and
  \<^verbatim>\<open>kafkatch-alert-viewer\<close>, and proves what the whole pipeline reports.

  \<^bold>\<open>The program.\<close>  libpcap calls \<open>pkt_handler\<close> (parser.c) for every captured frame.  It decodes
  Ethernet, an optional VLAN tag, IPv4, and TCP or UDP into a \<open>pkt_stats_t\<close> (stats.h), takes the mutex
  of the context (parser.h), and calls \<open>flow_process_packet\<close> (flow.c), which looks the flow up in the
  active table, creates it when it is new, and updates its statistics.  Once a second the flush thread
  (\<open>flush_worker\<close>, main.c) swaps the two tables of the context under the mutex and hands the full one
  to \<open>kafka_client_send_flows\<close> (kafka_client.c), which sends one JSON record per flow and frees the
  table.  The tables are uthash tables (uthash.h).  \<open>main\<close> sets the parts up, runs the capture, and
  takes everything down when Ctrl+C ends it.

  In Java, the stream of App.java (kafkatch-core) parses each record (FlowParser.java), drops what does
  not parse, and adds the flows of ten seconds to an \<open>AggregatedFlow\<close>.  The stream of OutputWatcher.java
  (kafkatch-notification) compares each aggregate with the rolling averages of the last 30
  (AnomalyDetectorTransformer.java, RollingStats.java) and emits warnings, which the alert viewer shows
  as popups (Notifier.java of kafkatch-alert-viewer).

  \<^bold>\<open>Theories.\<close>
    \<^item> Prelude: outcomes of C computations (a value, an \<open>exit\<close>, a fault), their sequencing, the
      predicate \<open>safe\<close>, neighbours in a list.  Byte_Order: \<open>long\<close>, loads, the bytes of an integer,
      \<open>ntohs\<close>.  C_Double: rounding to \<open>double\<close>, with a locale for exact addition.
    \<^item> Memory: the structs of stats.h, flow.h and uthash.h, and the heap.
    \<^item> Uthash_Hash: \<open>HASH_JEN\<close>.  Uthash: lookup, insertion, expansion, removal and \<open>HASH_FSCK\<close>, macro by
      macro.  Uthash_Inv: the representation invariant and lookup.  Uthash_Expand, Uthash_Add,
      Uthash_Del: each operation keeps it.  Keyed_Table: the interface of a keyed table as a locale,
      and what its clients may conclude.  Uthash_Table: uthash provides the interface.  Uthash_Iter:
      \<open>HASH_ITER\<close>.
    \<^item> Uthash_Sort, Uthash_Sort_Correct: \<open>HASH_SRT\<close> and its correctness.  Uthash_Inorder: ordered
      insertion, also as built without \<open>decltype\<close>, replacement, \<open>HASH_CLEAR\<close>, \<open>HASH_OVERHEAD\<close>.
      Uthash_Optional: the other hash functions and the bits of the Bloom filter.  Uthash_Bloom: lookup as
      built with \<open>HASH_BLOOM\<close>.  Uthash_Select: \<open>HASH_SELECT\<close>, over one view of the heap for each of the
      two handles.  Uthash_Nonfatal, Uthash_Inorder_Nonfatal, Uthash_Select_Nonfatal: insertion, ordered
      insertion and selection as built with \<open>HASH_NONFATAL_OOM\<close>.
    \<^item> Flow: flow.c.  Flow_Spec: its contract, \<open>process_spec\<close> on lists of records, and the refinement.
      Window: what a window of packets aggregates to.
    \<^item> Parser: \<open>pkt_handler\<close>.  Frames: encoders of the wire formats and the round trips.
    \<^item> Kafka_Client: kafka_client.c, JSON text included.  Debug_Print: the printing functions of flow.c
      and parser.c.
    \<^item> Sniffer: the two threads as a step relation.  Sniffer_Inv: its invariant.  Sniffer_Props: what
      the invariant gives for every run.  Shutdown: the end of the threads.  Liveness: the export of
      everything accepted, and the origin of every message.  Flush_Timer: the moments at which the
      iterations of the flush thread begin, and its tick message.
    \<^item> Main_Program: \<open>main\<close>, \<open>setup_pcap\<close>, \<open>list_devs\<close>, \<open>handle_sigint\<close>.  Main_Resources: the calls they
      make against the rules of the resources.
    \<^item> Json: JSON values, their text and a reader of it; the messages of the sniffer as JSON.
    \<^item> Java: the integers and exceptions of Java, and the interface of Jackson.  Java_Flow: the class
      \<open>Flow\<close> and its parser.  Java_Aggregate: \<open>AggregatedFlow\<close>, the aggregation of a window, and the
      deprecated splitter.  Pipeline: the runs of the sniffer and the stream processor together.
    \<^item> Java_Detector: the rolling statistics, the detector and its stream, with a locale for windows of
      samples.  Detector_Props: what it reports.  Java_Notifier: the alert viewer and the deprecated
      notifier with fixed limits.  Java_Serdes: the serializers of the topics and state stores, and the
      Java programs together, from the parsed flows to the popups.

  \<^bold>\<open>State.\<close>  A pointer is an address or \<open>None\<close>.  The heap maps addresses to \<open>flow_t\<close> nodes and table
  objects; an address is used once, so the use of a freed object is a fault.  A pointer to a hash
  handle is the address of its element, and the bucket array is a list in its table.  Allocation fails
  when the \<open>budget\<close> is used up or the request is larger than \<open>max_block\<close>, which is below 64 GiB; the
  theorems hold for every budget and say what happens when it is used up.  Counters, hashes and
  addresses are words of the width they have in C, so they wrap around; \<open>total_iat_usec\<close> is the
  rational number a \<open>double\<close> denotes, rounded after each operation.  The captured bytes are a list and
  a read outside it is a fault.  In Java, \<open>int\<close> and \<open>long\<close> are words read with \<open>sint\<close>, \<open>double\<close> is
  rounded like in C, a string is its bytes in UTF-8, an exception is the left side of a sum, \<open>null\<close> is
  \<open>None\<close>, and a state store is a map.

  \<^bold>\<open>Loops.\<close>  A walk along a bucket chain or the element list has the fuel \<open>fresh m\<close>, the number of
  addresses ever handed out; the elements of a list are distinct addresses below it, so the fuel is
  never used up, which is part of every statement that an operation does not fault.  \<open>HASH_SRT\<close> has
  32 passes: the run length doubles from 1 and the theorem is about tables of at most \<open>2\<^sup>3\<^sup>1\<close>
  elements.  The JSON reader takes the length of the text as its fuel; each call consumes a character.

  \<^bold>\<open>Threads.\<close>  A step is one action of one thread: taking or releasing the mutex, the whole of a
  critical section, one iteration of the export loop, one test of \<open>is_running\<close>.  Between critical
  sections the flush thread works on a table only it can reach, which the invariant shows.  The flag
  \<open>is_running\<close> is a plain \<open>int\<close> shared without synchronisation; it is modelled as an atomic variable.
  Captures may have any length.  On one that ends inside the Ethernet header or its VLAN tag the parser
  reads out of bounds (\<open>too_short\<close>, \<open>parse_packet_faults_iff\<close>), and a run in which one arrives ends in
  that fault; \<open>step_on\<close> and \<open>reachable_on\<close> have the captures that can arrive as an argument, and
  \<open>step\<close> and \<open>reachable\<close> allow all.

  \<^bold>\<open>What the lemmas show.\<close>  Uthash_*: from a well-formed table every operation returns a well-formed
  table holding what it should, touching nothing else; without memory it ends the process with -1 or, built with
  \<open>HASH_NONFATAL_OOM\<close>, rolls back and reports.
  Flow_Spec and Window: the table after \<open>flow_process_packet\<close> has run over a window of packets holds one
  record per flow, in order of first appearance, with exact counts modulo \<open>2\<^sup>3\<^sup>2\<close>, exact extremes and, within the stated range of time
  stamps, exact inter-arrival times.  Frames: the parser inverts the encoders.  Kafka_Client: no JSON
  text is truncated, every record is sent once, and everything is freed.  Sniffer_*: but for captures
  that are too short no interleaving faults; none leaks or mixes windows, the threads never deadlock,
  and the export is what was captured.  Shutdown: the flush thread ends; the packets of the last window
  are lost.  Liveness: until then the flush thread by itself can export what was accepted, whenever the
  capture thread does not hold the mutex.  Flush_Timer: the lateness of its iterations does not add up.
  Main_*: every path of \<open>main\<close> gives back what it took, the capture begins exactly when every step of
  the start-up has succeeded, and the snapshot length of the capture suffices for the parser.
  Json and Java_Flow: the messages are well-formed JSON and parse into the flow that was sent.
  Java_Aggregate: the sums of a window are exact.  Pipeline: for runs of fewer than \<open>2\<^sup>3\<^sup>1\<close> packets with
  time stamps before 2106 every message parses, and below 2 GiB the reported volumes are those of the
  exported packets.  Java_Detector and Detector_Props: the warnings are a function of the history of
  samples, and in the stated range their severity is that of the exact ratio, but for ratios within
  rounding of a threshold.
  Java_Notifier: each warning is shown with its type; the records of the old notifier are maxima.
  Java_Serdes: through the serializers of topics and stores the detector sees the exact volumes of
  every window, and every warning becomes a popup.

  \<^bold>\<open>What the model showed.\<close>  Before any length is checked the parser reads up to 18 bytes of the frame.
  Records of the last window are dropped at the end of the program.  After \<open>pcap_close\<close> the signal
  handler can still use the freed handle.  Two tables meant to have a fixed width have lines that
  are wider.  Unsigned counters from \<open>2\<^sup>3\<^sup>1\<close> on arrive in Java as negative numbers.  The key for unique
  flows has no separators and confuses flows.  The percentage of a warning wraps around.  The splitter
  fails on a message that does not parse.  A malformed message stops the alert viewer for good.  \<open>HASH_SELECT\<close> of uthash, which the sniffer does not use, leaves
  a table whose next insertion loses elements from the list.  The project file lists these with the documentation's
  divergences.

  \<^bold>\<open>Parameters.\<close>  The answers of libpcap, librdkafka and pthreads are the fields of the record \<open>host\<close> or
  arguments; the calls made to them are recorded in order.  \<open>localtime\<close> with \<open>strftime\<close> is an argument of
  \<open>debug_print_stats\<close>.  Jackson is the record \<open>jackson\<close> of its functions, with \<open>jackson_ok\<close> for its
  documented behaviour on JSON texts, which the mapper built on the reader of Json has, and for beans the
  records \<open>mapper\<close> and \<open>agg_mapper\<close> of what it writes and reads; the consumer of the alert viewer is
  \<open>poll\<close> with \<open>consumer_ok\<close>.  \<open>clock_nanosleep\<close> is the moment at which it returns,
  not before the deadline.  The clocks and the
  time zone are arguments.  Kafka Streams assigns records to windows and keeps the stores: a theorem about a window
  takes its records as a list.

  \<^bold>\<open>Not modelled.\<close>  The texts of log lines (only output), the delivery callback of kafka_client.c (it
  only logs); of uthash \<open>HASH_EMIT_KEYS\<close>, which writes keys to a file descriptor, and the abbreviations
  for keys that are strings, integers or pointers, which \<open>flow_t\<close> has none of; in
  Java the configuration of streams and consumers, the console output, \<open>LatestStat\<close> and the serde of
  \<open>LongSummaryStatistics\<close>, which nothing uses, and the repartitioning by Kafka Streams; the deployment
  files.
\<close>

end
